(* ===== verification/Prelude.thy ===== *)
theory Prelude
  imports Main "HOL-Library.Word" "HOL-Library.Monad_Syntax"
begin

text \<open>
  Shared vocabulary of the Solaya development.

  The kernel is compiled with overflow checks and with \<^verbatim>\<open>panic = "abort"\<close>, so an
  operation either returns or stops the machine.  A computation that may panic
  is a value of \<^verbatim>\<open>'a run\<close>: \<^term>\<open>None\<close> is the panic (failed \<^verbatim>\<open>assert!\<close>,
  \<^verbatim>\<open>expect\<close>, slice index out of range, arithmetic overflow, or a loop that never
  returns) and \<^term>\<open>Some\<close> the value returned.  \<^verbatim>\<open>usize\<close> is a natural number with the
  width written into the checked operations; values whose bits or wrap-around
  matter are machine words.
\<close>

type_synonym 'a run = "'a option"
type_synonym usize = nat
type_synonym byte = "8 word"
type_synonym mem = "nat \<Rightarrow> byte"

named_theorems run_simps \<open>characterisations of the panicking primitives\<close>

text \<open>The variants of \<^verbatim>\<open>Errno\<close> that the modelled code returns.\<close>

datatype errno = E2BIG | EACCES | EADDRINUSE | EAFNOSUPPORT | EAGAIN | EBADF | ECHILD | ECONNREFUSED
  | ECONNRESET | EEXIST | EFAULT | EINPROGRESS | EINTR | EINVAL | EIO | EISCONN | EISDIR | ELOOP
  | EMFILE | ENAMETOOLONG | ENODEV | ENOENT | ENOEXEC | ENOMEM | ENOSYS | ENOTCONN | ENOTDIR
  | ENOTEMPTY | ENOTSOCK | ENOTTY | ENXIO | EOPNOTSUPP | EPERM | EPIPE | EROFS | ESPIPE | ESRCH
  | ETIMEDOUT | ERANGE | EXDEV

text \<open>What polling a future gives.\<close>

datatype 'a poll = Ready 'a | Pending

section \<open>Panicking primitives\<close>

definition check :: "bool \<Rightarrow> unit run" where
  "check b = (if b then Some () else None)"

definition uadd :: "usize \<Rightarrow> usize \<Rightarrow> usize run" where
  "uadd a b = (if a + b < 2 ^ 64 then Some (a + b) else None)"

definition usub :: "usize \<Rightarrow> usize \<Rightarrow> usize run" where
  "usub a b = (if b \<le> a then Some (a - b) else None)"

definition umul :: "usize \<Rightarrow> usize \<Rightarrow> usize run" where
  "umul a b = (if a * b < 2 ^ 64 then Some (a * b) else None)"

definition udiv :: "usize \<Rightarrow> usize \<Rightarrow> usize run" where
  "udiv a b = (if b = 0 then None else Some (a div b))"

definition urem :: "usize \<Rightarrow> usize \<Rightarrow> usize run" where
  "urem a b = (if b = 0 then None else Some (a mod b))"

definition index :: "'a list \<Rightarrow> usize \<Rightarrow> 'a run" where
  "index xs i = (if i < length xs then Some (xs ! i) else None)"

definition index_set :: "'a list \<Rightarrow> usize \<Rightarrow> 'a \<Rightarrow> 'a list run" where
  "index_set xs i v = (if i < length xs then Some (xs[i := v]) else None)"

definition slice_of :: "'a list \<Rightarrow> usize \<Rightarrow> usize \<Rightarrow> 'a list run" where
  "slice_of xs a b = (if a \<le> b \<and> b \<le> length xs then Some (take (b - a) (drop a xs)) else None)"

primrec foldM :: "('a \<Rightarrow> 's \<Rightarrow> 's run) \<Rightarrow> 'a list \<Rightarrow> 's \<Rightarrow> 's run" where
  "foldM f [] s = Some s"
| "foldM f (x # xs) s = Option.bind (f x s) (foldM f xs)"

lemma check_eq_Some [run_simps, simp]: "check b = Some u \<longleftrightarrow> b"
  by (simp add: check_def)

lemma check_True [simp]: "check True = Some ()"
  by (simp add: check_def)

lemma check_False [simp]: "check False = None"
  by (simp add: check_def)

lemma uadd_eq_Some [run_simps]: "uadd a b = Some c \<longleftrightarrow> c = a + b \<and> a + b < 2 ^ 64"
  by (auto simp: uadd_def)

lemma usub_eq_Some [run_simps]: "usub a b = Some c \<longleftrightarrow> c = a - b \<and> b \<le> a"
  by (auto simp: usub_def)

lemma umul_eq_Some [run_simps]: "umul a b = Some c \<longleftrightarrow> c = a * b \<and> a * b < 2 ^ 64"
  by (auto simp: umul_def)

lemma index_eq_Some [run_simps]: "index xs i = Some v \<longleftrightarrow> i < length xs \<and> v = xs ! i"
  by (auto simp: index_def)

lemma index_set_eq_Some [run_simps]:
  "index_set xs i v = Some ys \<longleftrightarrow> i < length xs \<and> ys = xs[i := v]"
  by (auto simp: index_set_def)

lemma slice_of_eq_Some [run_simps]:
  "slice_of xs a b = Some ys \<longleftrightarrow> a \<le> b \<and> b \<le> length xs \<and> ys = take (b - a) (drop a xs)"
  by (auto simp: slice_of_def)

lemma length_slice: "slice_of xs a b = Some ys \<Longrightarrow> length ys = b - a"
  by (auto simp: slice_of_def split: if_splits)

declare bind_eq_Some_conv [run_simps]

lemma foldM_append: "foldM f (xs @ ys) s = Option.bind (foldM f xs s) (foldM f ys)"
  by (induction xs arbitrary: s) (auto split: bind_splits)

text \<open>An invariant of the loop body is an invariant of the loop.\<close>

lemma foldM_invariant:
  assumes "foldM f xs s = Some t" and "P s"
    and "\<And>x s s'. x \<in> set xs \<Longrightarrow> P s \<Longrightarrow> f x s = Some s' \<Longrightarrow> P s'"
  shows "P t"
  using assms
  by (induction xs arbitrary: s) (auto simp: bind_eq_Some_conv)

section \<open>Lists addressed by index\<close>

definition overwrite :: "nat \<Rightarrow> nat \<Rightarrow> (nat \<Rightarrow> 'a) \<Rightarrow> 'a list \<Rightarrow> 'a list" where
  "overwrite a b f xs = map (\<lambda>k. if a \<le> k \<and> k < b then f k else xs ! k) [0..<length xs]"

lemma length_overwrite [simp]: "length (overwrite a b f xs) = length xs"
  by (simp add: overwrite_def)

lemma nth_overwrite [simp]:
  "k < length xs \<Longrightarrow> overwrite a b f xs ! k = (if a \<le> k \<and> k < b then f k else xs ! k)"
  by (simp add: overwrite_def)

lemma overwrite_empty [simp]: "overwrite a a f xs = xs"
  by (rule nth_equalityI) auto

lemma overwrite_Suc:
  assumes "a \<le> b" shows "(overwrite a b f xs)[b := f b] = overwrite a (Suc b) f xs"
  using assms by (intro nth_equalityI) (auto simp: nth_list_update less_Suc_eq)

lemma overwrite_undo:
  assumes "\<And>k. a \<le> k \<Longrightarrow> k < b \<Longrightarrow> k < length xs \<Longrightarrow> g k = xs ! k"
  shows "overwrite a b g (overwrite a b f xs) = xs"
  using assms by (intro nth_equalityI) auto

text \<open>The first index of a range that satisfies a test, as \<^verbatim>\<open>(0..=n).find(..)\<close>.\<close>

lemma find_upt_Some:
  "List.find P [0..<n] = Some i \<longleftrightarrow> i < n \<and> P i \<and> (\<forall>j<i. \<not> P j)"
  by (auto simp: find_Some_iff intro!: exI[of _ i])

lemma find_upt_None: "List.find P [0..<n] = None \<longleftrightarrow> (\<forall>i<n. \<not> P i)"
  by (auto simp: find_None_iff)

end
