(* ===== verification/Klib.thy ===== *)
theory Klib
  imports Prelude
begin

text \<open>
  The helper crate \<^verbatim>\<open>klib\<close> (\<^verbatim>\<open>crates/klib/src/util.rs\<close>,
  \<^verbatim>\<open>array_vec.rs\<close>) and the page arithmetic of \<^verbatim>\<open>crates/mm/src/util.rs\<close>:
  alignment, single bits and bit fields of a machine word, the fixed-capacity
  vector.  Shifts by at least the width panic, as they do under overflow checks.
\<close>

unbundle bit_operations_syntax

definition PAGE_SIZE :: usize where
  "PAGE_SIZE = 4096"

definition wrapping_add_signed :: "64 word \<Rightarrow> int \<Rightarrow> 64 word" where
  "wrapping_add_signed base offset =
     (if offset \<ge> 0 then base + word_of_nat (nat offset)
      else base - word_of_nat (nat (- offset)))"

definition align_up :: "usize \<Rightarrow> usize \<Rightarrow> usize run" where
  "align_up value alignment = do {
     remainder \<leftarrow> urem value alignment;
     if remainder = 0 then Some value
     else do { s \<leftarrow> uadd value alignment; usub s remainder }
   }"

definition is_power_of_two :: "nat \<Rightarrow> bool" where
  "is_power_of_two n \<longleftrightarrow> (\<exists>k<64. n = 2 ^ k)"

definition align_down_ptr :: "usize \<Rightarrow> usize \<Rightarrow> usize run" where
  "align_down_ptr ptr alignment = do {
     check (is_power_of_two alignment);
     Some (unat ((word_of_nat ptr :: 64 word) AND NOT (word_of_nat alignment - 1)))
   }"

definition copy_slice :: "'a list \<Rightarrow> 'a list \<Rightarrow> 'a list run" where
  "copy_slice src dst = do {
     check (length dst \<ge> length src);
     Some (src @ drop (length src) dst)
   }"

definition is_power_of_2_or_zero :: "64 word \<Rightarrow> bool run" where
  "is_power_of_2_or_zero value = do {
     check (value \<noteq> 0);
     Some (value AND (value - 1) = 0)
   }"

definition is_aligned :: "usize \<Rightarrow> usize \<Rightarrow> bool run" where
  "is_aligned value alignment = do { r \<leftarrow> urem value alignment; Some (r = 0) }"

definition shl :: "'w::len word \<Rightarrow> usize \<Rightarrow> 'w word run" where
  "shl w n = (if n < LENGTH('w) then Some (push_bit n w) else None)"

definition shr :: "'w::len word \<Rightarrow> usize \<Rightarrow> 'w word run" where
  "shr w n = (if n < LENGTH('w) then Some (drop_bit n w) else None)"

definition util_set_bit :: "'w::len word \<Rightarrow> usize \<Rightarrow> 'w word run" where
  "util_set_bit data bit_position = do { m \<leftarrow> shl 1 bit_position; Some (data OR m) }"

definition util_clear_bit :: "'w::len word \<Rightarrow> usize \<Rightarrow> 'w word run" where
  "util_clear_bit data bit_position = do { m \<leftarrow> shl 1 bit_position; Some (data AND NOT m) }"

definition set_or_clear_bit :: "'w::len word \<Rightarrow> bool \<Rightarrow> usize \<Rightarrow> 'w word run" where
  "set_or_clear_bit data should_set_bit bit_position =
     (if should_set_bit then util_set_bit data bit_position
      else util_clear_bit data bit_position)"

definition get_bit :: "'w::len word \<Rightarrow> usize \<Rightarrow> bool run" where
  "get_bit data bit_position = do { s \<leftarrow> shr data bit_position; Some (s AND 1 = 1) }"

definition set_multiple_bits ::
    "'w::len word \<Rightarrow> 'v::len word \<Rightarrow> usize \<Rightarrow> usize \<Rightarrow> 'w word run" where
  "set_multiple_bits data value number_of_bits bit_position = do {
     mask \<leftarrow> foldM (\<lambda>idx mask. do {
               b \<leftarrow> shl 1 (bit_position + idx); Some (mask AND NOT b) })
             [0..<number_of_bits] (NOT 0);
     let data = data AND mask;
     mask \<leftarrow> foldM (\<lambda>idx mask. do {
               b \<leftarrow> shl 1 idx;
               if value AND b > 0
               then do { m \<leftarrow> shl 1 (bit_position + idx); Some (mask OR m) }
               else Some mask })
             [0..<number_of_bits] 0;
     Some (data OR mask)
   }"

definition get_multiple_bits :: "64 word \<Rightarrow> usize \<Rightarrow> usize \<Rightarrow> 64 word run" where
  "get_multiple_bits data number_of_bits bit_position = do {
     s \<leftarrow> shr data bit_position;
     check (number_of_bits < 64);
     Some (s AND (2 ^ number_of_bits - 1))
   }"

definition align_up_page_size :: "usize \<Rightarrow> usize run" where
  "align_up_page_size value = align_up value PAGE_SIZE"

definition minimum_amount_of_pages :: "usize \<Rightarrow> usize run" where
  "minimum_amount_of_pages value = do { a \<leftarrow> align_up value PAGE_SIZE; Some (a div PAGE_SIZE) }"

section \<open>Alignment\<close>

lemma PAGE_SIZE_pos [simp]: "0 < PAGE_SIZE"
  by (simp add: PAGE_SIZE_def)

lemma div_diff_mult:
  fixes x c p :: nat
  assumes "0 < p"
  shows "(x - p * c) div p = x div p - c"
proof (cases "p * c \<le> x")
  case True
  then obtain y where "x = p * c + y" by (auto dest: le_Suc_ex)
  then show ?thesis using assms by simp
next
  case False
  then have "x div p < c" using assms by (simp add: div_less_iff_less_mult mult.commute)
  then show ?thesis using False by simp
qed

lemma align_up_defined:
  assumes "0 < a" "v + a < 2 ^ 64"
  shows "align_up v a = Some ((v + a - 1) div a * a)"
proof -
  define q r where "q = v div a" and "r = v mod a"
  have v: "v = q * a + r" and r: "r < a"
    using assms(1) by (auto simp: q_def r_def)
  show ?thesis
  proof (cases "r = 0")
    case True
    have "(v + a - 1) div a = q"
      using assms(1) True v by (intro div_nat_eqI) (auto simp: algebra_simps)
    then show ?thesis
      using assms(1) True v by (simp add: align_up_def urem_def flip: r_def)
  next
    case False
    have "(v + a - 1) div a = Suc q"
      using False r v by (intro div_nat_eqI) (auto simp: algebra_simps)
    then show ?thesis
      using assms False v r
      by (simp add: align_up_def urem_def uadd_def usub_def flip: r_def)
  qed
qed

lemma align_up_SomeD:
  assumes "align_up v a = Some w"
  shows "a dvd w" "v \<le> w" "w < v + a" "0 < a"
proof -
  have a: "0 < a"
    using assms by (auto simp: align_up_def urem_def split: if_splits)
  define q r where "q = v div a" and "r = v mod a"
  have v: "v = q * a + r" and r: "r < a"
    using a by (auto simp: q_def r_def)
  have w: "w = (if r = 0 then v else v + a - r)"
    using assms a
    by (auto simp: align_up_def urem_def uadd_def usub_def r_def split: if_splits)
  show "a dvd w" using v r w
    by (auto simp: dvd_def algebra_simps intro: exI[of _ "Suc q"])
  show "v \<le> w" "w < v + a" using r w a by auto
  show "0 < a" by (fact a)
qed

lemma align_up_exact: "0 < a \<Longrightarrow> a dvd v \<Longrightarrow> align_up v a = Some v"
  by (simp add: align_up_def urem_def)

lemma align_down_ptr_eq:
  assumes "p < 2 ^ 64" "k < 64"
  shows "align_down_ptr p (2 ^ k) = Some (p - p mod 2 ^ k)"
proof -
  let ?w = "word_of_nat p :: 64 word"
  have "?w AND NOT (2 ^ k - 1) = push_bit k (drop_bit k ?w)"
    by (rule bit_word_eqI) (auto simp: bit_simps simp flip: mask_eq_exp_minus_1)
  moreover have "unat (push_bit k (drop_bit k ?w)) = p div 2 ^ k * 2 ^ k"
  proof -
    have "p div 2 ^ k * 2 ^ k \<le> p" by simp
    then have "p div 2 ^ k * 2 ^ k < 2 ^ 64" using assms(1) by linarith
    moreover have "unat (push_bit k (drop_bit k ?w)) = take_bit 64 (push_bit k (drop_bit k (unat ?w)))"
      by (simp only: unsigned_push_bit_eq unsigned_drop_bit_eq) (simp add: unsigned_of_nat)
    ultimately show ?thesis using assms(1)
      by (simp add: push_bit_eq_mult drop_bit_eq_div unat_of_nat take_bit_nat_eq_self)
  qed
  ultimately show ?thesis
    using assms(2) by (auto simp: align_down_ptr_def is_power_of_two_def minus_mod_eq_div_mult)
qed

lemmas align_down_ptr_page = align_down_ptr_eq[where k = 12, simplified, folded PAGE_SIZE_def]

lemma minimum_amount_of_pages_defined:
  "v + PAGE_SIZE < 2 ^ 64 \<Longrightarrow>
   minimum_amount_of_pages v = Some ((v + PAGE_SIZE - 1) div PAGE_SIZE)"
  by (simp add: minimum_amount_of_pages_def align_up_defined)

lemma minimum_amount_of_pages_SomeD:
  assumes "minimum_amount_of_pages v = Some n"
  shows "v \<le> n * PAGE_SIZE" "n * PAGE_SIZE < v + PAGE_SIZE"
  using assms align_up_SomeD[of v PAGE_SIZE]
  by (auto simp: minimum_amount_of_pages_def run_simps)

lemma minimum_amount_of_pages_mult [simp]:
  "minimum_amount_of_pages (n * PAGE_SIZE) = Some n"
  by (simp add: minimum_amount_of_pages_def align_up_exact)

section \<open>Bits and bit fields\<close>

lemma shl_eq [simp]: "n < LENGTH('w) \<Longrightarrow> shl (w :: 'w::len word) n = Some (push_bit n w)"
  by (simp add: shl_def)

lemma shr_eq [simp]: "n < LENGTH('w) \<Longrightarrow> shr (w :: 'w::len word) n = Some (drop_bit n w)"
  by (simp add: shr_def)

lemma util_set_bit_eq:
  "p < LENGTH('w) \<Longrightarrow> util_set_bit (d :: 'w::len word) p = Some (set_bit p d)"
  by (simp add: util_set_bit_def set_bit_eq_or)

lemma util_clear_bit_eq:
  "p < LENGTH('w) \<Longrightarrow> util_clear_bit (d :: 'w::len word) p = Some (unset_bit p d)"
  by (simp add: util_clear_bit_def unset_bit_eq_and_not)

lemma get_bit_eq: "p < LENGTH('w) \<Longrightarrow> get_bit (d :: 'w::len word) p = Some (bit d p)"
  by (simp add: get_bit_def bit_iff_odd_drop_bit and_one_eq odd_iff_mod_2_eq_one)

lemma set_or_clear_bit_eq:
  "p < LENGTH('w) \<Longrightarrow>
   set_or_clear_bit (d :: 'w::len word) b p = Some (if b then set_bit p d else unset_bit p d)"
  by (simp add: set_or_clear_bit_def util_set_bit_eq util_clear_bit_eq)

lemma clear_loop:
  assumes "p + n \<le> LENGTH('w)"
  shows "\<exists>r. foldM (\<lambda>idx mask. do { b \<leftarrow> shl (1 :: 'w::len word) (p + idx); Some (mask AND NOT b) })
            [0..<n] (NOT 0) = Some r
         \<and> (\<forall>k<LENGTH('w). bit r k \<longleftrightarrow> \<not> (p \<le> k \<and> k < p + n))"
  using assms
proof (induction n)
  case 0
  then show ?case by (simp add: bit_simps)
next
  case (Suc n)
  then obtain r where "foldM (\<lambda>idx mask. do { b \<leftarrow> shl (1 :: 'w::len word) (p + idx); Some (mask AND NOT b) })
      [0..<n] (NOT 0) = Some r" "\<forall>k<LENGTH('w). bit r k \<longleftrightarrow> \<not> (p \<le> k \<and> k < p + n)"
    by auto
  then show ?case using Suc.prems
    by (auto simp: foldM_append bit_simps)
qed

lemma word_and_bit_pos: "(v :: 'v::len word) AND 2 ^ i > 0 \<longleftrightarrow> bit v i"
proof -
  have "v AND 2 ^ i = (if bit v i then 2 ^ i else 0)"
    by (rule bit_word_eqI) (auto simp: bit_simps)
  moreover have "bit v i \<Longrightarrow> (2 :: 'v word) ^ i \<noteq> 0"
    by (auto dest: bit_imp_le_length)
  ultimately show ?thesis
    by (auto simp: word_greater_zero_iff)
qed

lemma collect_loop:
  fixes v :: "'v::len word"
  assumes "p + n \<le> LENGTH('w)" "n \<le> LENGTH('v)"
  shows "\<exists>r. foldM (\<lambda>idx mask. do {
            b \<leftarrow> shl 1 idx;
            if v AND b > 0
            then do { m \<leftarrow> shl (1 :: 'w::len word) (p + idx); Some (mask OR m) }
            else Some mask }) [0..<n] 0 = Some r
         \<and> (\<forall>k<LENGTH('w). bit r k \<longleftrightarrow> p \<le> k \<and> k < p + n \<and> bit v (k - p))"
    (is "\<exists>r. foldM ?body _ _ = _ \<and> _")
  using assms
proof (induction n)
  case 0
  then show ?case by simp
next
  case (Suc n)
  then obtain r where "foldM ?body [0..<n] 0 = Some r"
      "\<forall>k<LENGTH('w). bit r k \<longleftrightarrow> p \<le> k \<and> k < p + n \<and> bit v (k - p)"
    by auto
  moreover have "k < Suc (p + n) \<longleftrightarrow> k < p + n \<or> k - p = n" if "p \<le> k" for k
    using that by auto
  ultimately show ?case using Suc.prems
    by (auto simp: foldM_append bit_simps word_and_bit_pos)
qed

text \<open>The two loops of \<^verbatim>\<open>set_multiple_bits\<close> replace exactly the addressed field.\<close>

lemma set_multiple_bits_spec:
  fixes d :: "'w::len word" and v :: "'v::len word"
  assumes "p + n \<le> LENGTH('w)" "n \<le> LENGTH('v)"
  obtains r where "set_multiple_bits d v n p = Some r"
    "\<And>k. k < LENGTH('w) \<Longrightarrow> bit r k = (if p \<le> k \<and> k < p + n then bit v (k - p) else bit d k)"
proof -
  obtain m1 where "foldM (\<lambda>idx mask. do { b \<leftarrow> shl (1 :: 'w word) (p + idx); Some (mask AND NOT b) })
      [0..<n] (NOT 0) = Some m1" "\<forall>k<LENGTH('w). bit m1 k \<longleftrightarrow> \<not> (p \<le> k \<and> k < p + n)"
    using clear_loop[OF assms(1)] by blast
  moreover obtain m2 where "foldM (\<lambda>idx mask. do {
            b \<leftarrow> shl 1 idx;
            if v AND b > 0
            then do { m \<leftarrow> shl (1 :: 'w word) (p + idx); Some (mask OR m) }
            else Some mask }) [0..<n] 0 = Some m2"
      "\<forall>k<LENGTH('w). bit m2 k \<longleftrightarrow> p \<le> k \<and> k < p + n \<and> bit v (k - p)"
    using collect_loop[OF assms, of v] by blast
  ultimately show ?thesis
    by (intro that[of "d AND m1 OR m2"]) (auto simp: set_multiple_bits_def bit_simps)
qed

lemma get_multiple_bits_eq:
  assumes "p < 64" "n < 64"
  shows "get_multiple_bits d n p = Some (take_bit n (drop_bit p d))"
  using assms by (simp add: get_multiple_bits_def take_bit_eq_mask mask_eq_exp_minus_1)

lemma bit_get_multiple_bits:
  assumes "p < 64" "n < 64" "get_multiple_bits d n p = Some v"
  shows "bit v k \<longleftrightarrow> k < n \<and> bit d (p + k)"
  using assms by (auto simp: get_multiple_bits_eq bit_simps)

end
