(* ===== verification/PageAllocator.thy ===== *)
theory PageAllocator
  imports Klib
begin

text \<open>
  The physical page allocator, \<^verbatim>\<open>crates/mm/src/page_allocator.rs\<close>: one status byte
  per page, first-fit allocation of consecutive pages, and release of a run that
  ends at its \<^verbatim>\<open>Last\<close> page.  Pointers are addresses; the memory behind them is
  threaded through the operations that write it.
\<close>

datatype page_status = Free | Used | Last

record metadata_page_allocator =
  metadata :: "page_status list"
  pages_start :: usize
  pages_end :: usize

fun is_free :: "page_status \<Rightarrow> bool" where
  "is_free Free = True"
| "is_free Used = False"
| "is_free Last = False"

definition pa_new :: metadata_page_allocator where
  "pa_new = \<lparr>metadata = [], pages_start = 0, pages_end = 0\<rparr>"

definition total_heap_pages :: "metadata_page_allocator \<Rightarrow> usize" where
  "total_heap_pages self = length (metadata self)"

definition used_heap_pages :: "metadata_page_allocator \<Rightarrow> usize" where
  "used_heap_pages self = length (filter (\<lambda>m. \<not> is_free m) (metadata self))"

definition page_idx_to_pointer :: "metadata_page_allocator \<Rightarrow> usize \<Rightarrow> usize run" where
  "page_idx_to_pointer self page_index = do {
     let p = pages_start self + page_index * PAGE_SIZE;
     check (p \<noteq> 0);
     Some p
   }"

definition page_pointer_to_page_idx :: "metadata_page_allocator \<Rightarrow> usize \<Rightarrow> usize run" where
  "page_pointer_to_page_idx self page = do {
     check (pages_start self \<le> page);
     check (page < pages_end self);
     check (page mod PAGE_SIZE = 0);
     Some ((page - pages_start self) div PAGE_SIZE)
   }"

definition is_range_free :: "metadata_page_allocator \<Rightarrow> usize \<Rightarrow> usize \<Rightarrow> bool run" where
  "is_range_free self start_idx number_of_pages =
     foldM (\<lambda>idx ok. if ok then do { m \<leftarrow> index (metadata self) idx; Some (is_free m) } else Some False)
       [start_idx..<start_idx + number_of_pages] True"

definition zero_page :: "mem \<Rightarrow> usize \<Rightarrow> mem" where
  "zero_page m p = (\<lambda>a. if p \<le> a \<and> a < p + PAGE_SIZE then 0 else m a)"

definition mark_range_as_used ::
    "metadata_page_allocator \<Rightarrow> mem \<Rightarrow> usize \<Rightarrow> usize \<Rightarrow> bool
     \<Rightarrow> (metadata_page_allocator \<times> mem) run" where
  "mark_range_as_used self m start_idx number_of_pages initialize_if_needed =
     foldM (\<lambda>idx (self, m). do {
         m \<leftarrow> if initialize_if_needed
             then do { page \<leftarrow> page_idx_to_pointer self idx; Some (zero_page m page) }
             else Some m;
         let status = (if idx = start_idx + number_of_pages - 1 then Last else Used);
         md \<leftarrow> index_set (metadata self) idx status;
         Some (self\<lparr>metadata := md\<rparr>, m) })
       [start_idx..<start_idx + number_of_pages] (self, m)"

text \<open>\<^verbatim>\<open>find\<close> over an inclusive index range with a test that may panic.\<close>

primrec findM :: "('a \<Rightarrow> bool run) \<Rightarrow> 'a list \<Rightarrow> 'a option run" where
  "findM f [] = Some None"
| "findM f (x # xs) = do { b \<leftarrow> f x; if b then Some (Some x) else findM f xs }"

definition pa_alloc ::
    "metadata_page_allocator \<Rightarrow> mem \<Rightarrow> usize
     \<Rightarrow> ((usize \<times> usize) option \<times> metadata_page_allocator \<times> mem) run" where
  "pa_alloc self m number_of_pages_requested = do {
     check (number_of_pages_requested > 0);
     let total_pages = total_heap_pages self;
     if number_of_pages_requested > total_pages then Some (None, self, m)
     else do {
       found \<leftarrow> findM (\<lambda>idx. is_range_free self idx number_of_pages_requested)
                  [0..<Suc (total_heap_pages self - number_of_pages_requested)];
       case found of
         None \<Rightarrow> Some (None, self, m)
       | Some start_idx \<Rightarrow> do {
           (self, m) \<leftarrow> mark_range_as_used self m start_idx number_of_pages_requested True;
           s \<leftarrow> page_idx_to_pointer self start_idx;
           e \<leftarrow> page_idx_to_pointer self (start_idx + number_of_pages_requested);
           Some (Some (s, e), self, m) }
     }
   }"

definition range_to_start_aligned_and_number_of_pages ::
    "metadata_page_allocator \<Rightarrow> usize \<times> usize \<Rightarrow> (usize \<times> usize) run" where
  "range_to_start_aligned_and_number_of_pages self rng = do {
     start_aligned \<leftarrow> align_down_ptr (fst rng) PAGE_SIZE;
     new_length \<leftarrow> usub (snd rng) start_aligned;
     number_of_pages \<leftarrow> minimum_amount_of_pages new_length;
     check (start_aligned \<noteq> 0);
     start_idx \<leftarrow> page_pointer_to_page_idx self start_aligned;
     Some (start_idx, number_of_pages)
   }"

definition mark_pointer_range_as_used_without_initialize ::
    "metadata_page_allocator \<Rightarrow> mem \<Rightarrow> usize \<times> usize \<Rightarrow> (metadata_page_allocator \<times> mem) run" where
  "mark_pointer_range_as_used_without_initialize self m rng = do {
     (start_idx, number_of_pages) \<leftarrow> range_to_start_aligned_and_number_of_pages self rng;
     free \<leftarrow> is_range_free self start_idx number_of_pages;
     check free;
     mark_range_as_used self m start_idx number_of_pages False
   }"

text \<open>
  \<^verbatim>\<open>init\<close> receives the memory as a slice, here its base address and length.
  \<^verbatim>\<open>align_to_mut\<close> yields the largest page-aligned part of what follows the metadata.
\<close>

definition pa_init ::
    "metadata_page_allocator \<Rightarrow> mem \<Rightarrow> usize \<Rightarrow> usize \<Rightarrow> (usize \<times> usize) list
     \<Rightarrow> (metadata_page_allocator \<times> mem) run" where
  "pa_init self m base heap_size reserved_areas = do {
     let number_of_heap_pages = heap_size div (PAGE_SIZE + 1);
     heap \<leftarrow> align_up (base + number_of_heap_pages) PAGE_SIZE;
     let heap_len = (base + heap_size - heap) div PAGE_SIZE;
     check (number_of_heap_pages \<le> heap_len);
     check (0 < heap_len);
     check (heap mod PAGE_SIZE = 0);
     check (number_of_heap_pages + heap_len * PAGE_SIZE \<le> heap_size);
     foldM (\<lambda>area (self, m). mark_pointer_range_as_used_without_initialize self m area)
       reserved_areas
       (self\<lparr>metadata := replicate number_of_heap_pages Free, pages_start := heap,
              pages_end := heap + heap_len * PAGE_SIZE\<rparr>, m)
   }"

text \<open>The loop of \<^verbatim>\<open>dealloc\<close>: the index grows, so the rest of the metadata bounds it.\<close>

function dealloc_loop :: "page_status list \<Rightarrow> usize \<Rightarrow> usize \<Rightarrow> (page_status list \<times> usize) run" where
  "dealloc_loop md idx count = do {
     s \<leftarrow> index md idx;
     if s \<noteq> Last then dealloc_loop (md[idx := Free]) (idx + 1) (count + 1)
     else do { md \<leftarrow> index_set md idx Free; Some (md, count + 1) }
   }"
  by pat_completeness auto
termination
  by (relation "measure (\<lambda>(md, idx, _). length md - idx)") (auto simp: index_def split: if_splits)

declare dealloc_loop.simps [simp del]

definition pa_dealloc ::
    "metadata_page_allocator \<Rightarrow> usize \<Rightarrow> (usize \<times> metadata_page_allocator) run" where
  "pa_dealloc self page = do {
     idx \<leftarrow> page_pointer_to_page_idx self page;
     s \<leftarrow> index (metadata self) idx;
     check (s = Used \<or> s = Last);
     (md, count) \<leftarrow> dealloc_loop (metadata self) idx 0;
     Some (count, self\<lparr>metadata := md\<rparr>)
   }"

text \<open>The trait \<^verbatim>\<open>PageAllocator\<close> as a contract for its clients.\<close>

locale page_provider =
  fixes palloc :: "'s \<Rightarrow> usize \<Rightarrow> ((usize \<times> usize) option \<times> 's) run"
    and pdealloc :: "'s \<Rightarrow> usize \<Rightarrow> (usize \<times> 's) run"
    and inv :: "'s \<Rightarrow> bool"
    and live :: "'s \<Rightarrow> (usize \<times> usize) set"
  assumes alloc_returns: "inv s \<Longrightarrow> 0 < n \<Longrightarrow> \<exists>r s'. palloc s n = Some (r, s')"
    and alloc_none: "inv s \<Longrightarrow> 0 < n \<Longrightarrow> palloc s n = Some (None, s') \<Longrightarrow> s' = s"
    and alloc_some: "inv s \<Longrightarrow> 0 < n \<Longrightarrow> palloc s n = Some (Some (a, e), s') \<Longrightarrow>
      inv s' \<and> live s' = insert (a, n) (live s) \<and> (a, n) \<notin> live s
      \<and> e = a + n * PAGE_SIZE \<and> 0 < a \<and> PAGE_SIZE dvd a \<and> e < 2 ^ 64"
    and live_bounds: "inv s \<Longrightarrow> (a, n) \<in> live s \<Longrightarrow>
      0 < a \<and> 0 < n \<and> PAGE_SIZE dvd a \<and> a + n * PAGE_SIZE < 2 ^ 64"
    and live_disjoint: "inv s \<Longrightarrow> (a, n) \<in> live s \<Longrightarrow> (b, k) \<in> live s \<Longrightarrow> (a, n) \<noteq> (b, k) \<Longrightarrow>
      a + n * PAGE_SIZE \<le> b \<or> b + k * PAGE_SIZE \<le> a"
    and dealloc_live: "inv s \<Longrightarrow> (a, n) \<in> live s \<Longrightarrow>
      \<exists>s'. pdealloc s a = Some (n, s') \<and> inv s' \<and> live s' = live s - {(a, n)}"
begin

lemma alloc_apart:
  assumes "inv s" "0 < n" "palloc s n = Some (Some (a, e), s')" "(b, k) \<in> live s"
  shows "e \<le> b \<or> b + k * PAGE_SIZE \<le> a"
  using alloc_some[OF assms(1-3)] live_disjoint[of s' a n b k] assms(4) by auto

lemma alloc_dealloc:
  assumes "inv s" "0 < n" "palloc s n = Some (Some (a, e), s')"
  shows "\<exists>s''. pdealloc s' a = Some (n, s'') \<and> inv s'' \<and> live s'' = live s"
  using alloc_some[OF assms] dealloc_live[of s' a n] by auto

end

text \<open>\<^verbatim>\<open>StaticPageAllocator\<close> of the kernel, the global allocator behind its lock.\<close>

definition static_alloc ::
    "metadata_page_allocator \<times> mem \<Rightarrow> usize
     \<Rightarrow> ((usize \<times> usize) option \<times> metadata_page_allocator \<times> mem) run" where
  "static_alloc s number_of_pages_requested = pa_alloc (fst s) (snd s) number_of_pages_requested"

definition static_dealloc ::
    "metadata_page_allocator \<times> mem \<Rightarrow> usize \<Rightarrow> (usize \<times> metadata_page_allocator \<times> mem) run" where
  "static_dealloc s page = do {
     (count, self) \<leftarrow> pa_dealloc (fst s) page;
     Some (count, self, snd s)
   }"

section \<open>Closed forms of the loops\<close>

lemma all_free_loop:
  assumes "b \<le> length md"
  shows "foldM (\<lambda>idx ok. if ok then do { m \<leftarrow> index md idx; Some (P m) } else Some False) [a..<b] ok
       = Some (ok \<and> (\<forall>k. a \<le> k \<and> k < b \<longrightarrow> P (md ! k)))"
  using assms
proof (induction b)
  case 0
  then show ?case by simp
next
  case (Suc b)
  then show ?case
    by (cases "a \<le> b") (auto simp: foldM_append index_def less_Suc_eq)
qed

lemma is_free_iff [simp]: "is_free s \<longleftrightarrow> s = Free"
  by (cases s) auto

lemma is_range_free_eq:
  assumes "s + n \<le> length (metadata self)"
  shows "is_range_free self s n = Some (\<forall>k. s \<le> k \<and> k < s + n \<longrightarrow> metadata self ! k = Free)"
  using all_free_loop[OF assms, of is_free s True] by (simp add: is_range_free_def)

lemma findM_find:
  assumes "\<And>x. x \<in> set xs \<Longrightarrow> f x = Some (g x)"
  shows "findM f xs = Some (List.find g xs)"
  using assms by (induction xs) auto

definition run_status :: "nat \<Rightarrow> nat \<Rightarrow> nat \<Rightarrow> page_status" where
  "run_status s n k = (if k = s + n - 1 then Last else Used)"

definition zero_range :: "mem \<Rightarrow> usize \<Rightarrow> usize \<Rightarrow> mem" where
  "zero_range m a b = (\<lambda>x. if a \<le> x \<and> x < b then 0 else m x)"

lemma zero_page_range:
  "a \<le> b \<Longrightarrow> zero_page (zero_range m a b) b = zero_range m a (b + PAGE_SIZE)"
  by (auto simp: zero_page_def zero_range_def)

lemma mark_range_as_used_eq:
  assumes "s + n \<le> length (metadata self)" "z \<Longrightarrow> 0 < pages_start self"
  shows "mark_range_as_used self m s n z =
    Some (self\<lparr>metadata := overwrite s (s + n) (run_status s n) (metadata self)\<rparr>,
          if z then zero_range m (pages_start self + s * PAGE_SIZE)
                                 (pages_start self + (s + n) * PAGE_SIZE) else m)"
proof -
  define body where "body = (\<lambda>idx (self, m). do {
         m \<leftarrow> if z then do { page \<leftarrow> page_idx_to_pointer self idx; Some (zero_page m page) }
             else Some m;
         let status = (if idx = s + n - 1 then Last else Used);
         md \<leftarrow> index_set (metadata self) idx status;
         Some (self\<lparr>metadata := md\<rparr>, m) })"
  have "foldM body [s..<s + j] (self, m) =
    Some (self\<lparr>metadata := overwrite s (s + j) (run_status s n) (metadata self)\<rparr>,
          if z then zero_range m (pages_start self + s * PAGE_SIZE)
                                 (pages_start self + (s + j) * PAGE_SIZE) else m)"
    if "j \<le> n" for j
    using that
  proof (induction j)
    case 0
    then show ?case by (auto simp: zero_range_def fun_eq_iff)
  next
    case (Suc j)
    have "body (s + j)
        (self\<lparr>metadata := overwrite s (s + j) (run_status s n) (metadata self)\<rparr>,
          if z then zero_range m (pages_start self + s * PAGE_SIZE)
                                 (pages_start self + (s + j) * PAGE_SIZE) else m)
      = Some (self\<lparr>metadata := overwrite s (Suc (s + j)) (run_status s n) (metadata self)\<rparr>,
          if z then zero_range m (pages_start self + s * PAGE_SIZE)
                                 (pages_start self + (s + Suc j) * PAGE_SIZE) else m)"
      using Suc.prems assms
      by (auto simp: body_def page_idx_to_pointer_def index_set_def zero_page_range algebra_simps
          run_status_def simp flip: overwrite_Suc)
    then show ?case using Suc by (simp add: foldM_append)
  qed
  from this[of n] show ?thesis by (simp add: mark_range_as_used_def body_def)
qed

section \<open>Runs of allocated pages\<close>

text \<open>
  The allocation starting at page \<^term>\<open>i\<close> has \<^term>\<open>n\<close> pages: \<^const>\<open>Used\<close> up to the
  final \<^const>\<open>Last\<close>, and no allocation runs into it from the left.
\<close>

definition run_at :: "page_status list \<Rightarrow> nat \<Rightarrow> nat \<Rightarrow> bool" where
  "run_at md i n \<longleftrightarrow> 0 < n \<and> i + n \<le> length md
     \<and> (\<forall>k. i \<le> k \<and> k < i + n \<longrightarrow> md ! k = run_status i n k)
     \<and> (0 < i \<longrightarrow> md ! (i - 1) \<noteq> Used)"

definition wf_metadata :: "page_status list \<Rightarrow> bool" where
  "wf_metadata md \<longleftrightarrow>
     (\<forall>i<length md. md ! i = Used \<longrightarrow> i + 1 < length md \<and> md ! (i + 1) \<noteq> Free)"

lemma run_at_nth:
  assumes "run_at md i n" "i \<le> k" "k < i + n"
  shows "md ! k = (if k = i + n - 1 then Last else Used)"
  using assms by (auto simp: run_at_def run_status_def)

lemma run_at_bounds: "run_at md i n \<Longrightarrow> 0 < n \<and> i + n \<le> length md"
  by (simp add: run_at_def)

lemma dealloc_loop_run:
  assumes "0 < n" "i + n \<le> length md" "\<And>k. i \<le> k \<Longrightarrow> k < i + n \<Longrightarrow> md ! k = run_status i n k"
  shows "dealloc_loop md i c = Some (overwrite i (i + n) (\<lambda>_. Free) md, c + n)"
  using assms
proof (induction n arbitrary: i md c)
  case 0
  then show ?case by simp
next
  case (Suc n)
  show ?case
  proof (cases "n = 0")
    case True
    then have "md ! i = Last" using Suc.prems(3)[of i] by (simp add: run_status_def)
    then show ?thesis using True Suc.prems(2)
      by (subst dealloc_loop.simps) (simp add: index_def index_set_def flip: overwrite_Suc)
  next
    case False
    have "md ! i = Used" using Suc.prems(3)[of i] False by (simp add: run_status_def)
    moreover have "dealloc_loop (md[i := Free]) (i + 1) (c + 1)
        = Some (overwrite (i + 1) (i + 1 + n) (\<lambda>_. Free) (md[i := Free]), c + 1 + n)"
      using Suc.prems False by (intro Suc.IH) (auto simp: run_status_def)
    moreover have "overwrite (i + 1) (i + 1 + n) (\<lambda>_. Free) (md[i := Free])
        = overwrite i (i + Suc n) (\<lambda>_. Free) md"
      using Suc.prems(2) by (intro nth_equalityI) (auto simp: nth_list_update)
    ultimately show ?thesis using Suc.prems(2)
      by (subst dealloc_loop.simps) (simp add: index_def)
  qed
qed

lemma run_at_unique:
  assumes "run_at md i n" "run_at md i n'"
  shows "n = n'"
proof -
  have False if r: "run_at md i a" "run_at md i b" "a < b" for a b
  proof -
    have "i \<le> i + a - 1" "i + a - 1 < i + a" "i + a - 1 < i + b - 1" "i + a - 1 < i + b"
      using run_at_bounds[OF r(1)] r(3) by auto
    then have "md ! (i + a - 1) = Last" "md ! (i + a - 1) = Used"
      using run_at_nth[OF r(1), of "i + a - 1"] run_at_nth[OF r(2), of "i + a - 1"] by auto
    then show False by simp
  qed
  then show ?thesis using assms by (meson linorder_neqE_nat)
qed

lemma run_at_disjoint_aux:
  assumes "run_at md i n" "run_at md j k" "i < j"
  shows "i + n \<le> j"
proof (rule ccontr)
  assume "\<not> i + n \<le> j"
  then have "md ! (j - 1) = Used"
    using run_at_nth[OF assms(1), of "j - 1"] assms(3) by simp
  then show False using assms by (simp add: run_at_def)
qed

lemma run_at_disjoint:
  assumes "run_at md i n" "run_at md j k" "(i, n) \<noteq> (j, k)"
  shows "i + n \<le> j \<or> j + k \<le> i"
proof (cases i j rule: linorder_cases)
  case less
  then show ?thesis using run_at_disjoint_aux[OF assms(1,2)] by simp
next
  case equal
  then show ?thesis using run_at_unique[OF assms(1)] assms(2,3) by blast
next
  case greater
  then show ?thesis using run_at_disjoint_aux[OF assms(2,1)] by simp
qed

lemma wf_metadata_before_free:
  assumes "wf_metadata md" "md ! s = Free" "0 < s" "s < length md"
  shows "md ! (s - 1) \<noteq> Used"
  using assms unfolding wf_metadata_def by (metis One_nat_def Suc_eq_plus1 Suc_pred less_imp_diff_less)

lemma run_at_cong:
  assumes "length md = length md'" "\<And>k. i \<le> k \<Longrightarrow> k < i + n \<Longrightarrow> md ! k = md' ! k"
    "0 < i \<Longrightarrow> md ! (i - 1) = Used \<longleftrightarrow> md' ! (i - 1) = Used"
  shows "run_at md i n \<longleftrightarrow> run_at md' i n"
  using assms by (auto simp: run_at_def)

lemma run_at_nonfree: "run_at md i n \<Longrightarrow> i \<le> k \<Longrightarrow> k < i + n \<Longrightarrow> md ! k \<noteq> Free"
  by (simp add: run_at_nth)

lemma run_at_fresh:
  assumes "wf_metadata md" "0 < n" "s + n \<le> length md"
    and "\<And>k. s \<le> k \<Longrightarrow> k < s + n \<Longrightarrow> md ! k = Free"
  shows "run_at (overwrite s (s + n) (run_status s n) md) s n"
  using assms wf_metadata_before_free[OF assms(1), of s] by (auto simp: run_at_def)

lemma run_at_overwrite:
  assumes "wf_metadata md" "0 < n" "s + n \<le> length md"
    and free: "\<And>k. s \<le> k \<Longrightarrow> k < s + n \<Longrightarrow> md ! k = Free"
  shows "run_at (overwrite s (s + n) (run_status s n) md) i k
     \<longleftrightarrow> (i, k) = (s, n) \<or> run_at md i k" (is "run_at ?md i k \<longleftrightarrow> _")
proof -
  note fresh = run_at_fresh[OF assms]
  have same: "run_at ?md i k \<longleftrightarrow> run_at md i k"
    if "i + k \<le> s \<or> s + n \<le> i" "i + k \<le> length md" "0 < k"
    using that free[of "i - 1"] assms(2,3)
    by (intro run_at_cong) (auto simp: run_status_def)
  show ?thesis
  proof
    assume r: "run_at ?md i k"
    then show "(i, k) = (s, n) \<or> run_at md i k"
      using run_at_disjoint[OF r fresh] same run_at_bounds[OF r] by auto
  next
    assume "(i, k) = (s, n) \<or> run_at md i k"
    then show "run_at ?md i k"
    proof
      assume r: "run_at md i k"
      have "\<not> (s \<le> i \<and> i < s + n)" "\<not> (i \<le> s \<and> s < i + k)"
        using run_at_nonfree[OF r, of i] run_at_nonfree[OF r, of s] free[of i] free[of s] assms(2)
          run_at_bounds[OF r] by auto
      then show ?thesis using same r run_at_bounds[OF r] by auto
    qed (use fresh in simp)
  qed
qed

lemma run_at_release:
  assumes run: "run_at md s n"
  shows "run_at (overwrite s (s + n) (\<lambda>_. Free) md) i k \<longleftrightarrow> run_at md i k \<and> (i, k) \<noteq> (s, n)"
    (is "run_at ?md i k \<longleftrightarrow> _")
proof -
  have bounds: "0 < n" "s + n \<le> length md" using run by (auto simp: run_at_def)
  have same: "run_at ?md i k \<longleftrightarrow> run_at md i k"
    if "i + k \<le> s \<or> s + n \<le> i" "i + k \<le> length md" "0 < k"
    using that run_at_nth[OF run, of "i - 1"] bounds
    by (intro run_at_cong) auto
  show ?thesis
  proof
    assume r: "run_at ?md i k"
    have "\<not> (s \<le> i \<and> i < s + n)" "\<not> (i \<le> s \<and> s < i + k)"
      using run_at_nonfree[OF r, of i] run_at_nonfree[OF r, of s] bounds run_at_bounds[OF r] by auto
    then show "run_at md i k \<and> (i, k) \<noteq> (s, n)"
      using same r bounds run_at_bounds[OF r] by auto
  next
    assume "run_at md i k \<and> (i, k) \<noteq> (s, n)"
    then show "run_at ?md i k"
      using run_at_disjoint[OF _ run, of i k] same run_at_bounds[of md i k] by blast
  qed
qed

lemma wf_metadata_overwrite:
  assumes "wf_metadata md" "0 < n" "s + n \<le> length md"
    "\<And>k. s \<le> k \<Longrightarrow> k < s + n \<Longrightarrow> md ! k = Free"
  shows "wf_metadata (overwrite s (s + n) (run_status s n) md)"
  using assms unfolding wf_metadata_def run_status_def
  by (auto split: if_splits)

lemma wf_metadata_release:
  assumes "wf_metadata md" "run_at md s n"
  shows "wf_metadata (overwrite s (s + n) (\<lambda>_. Free) md)"
proof -
  have "md ! (s - 1) \<noteq> Used" if "0 < s" using assms that by (simp add: run_at_def)
  then show ?thesis using assms(1) unfolding wf_metadata_def
    by (auto split: if_splits) (metis One_nat_def Suc_leI diff_Suc_1 le_neq_implies_less less_Suc_eq_le not_less_eq zero_less_Suc)
qed


section \<open>The operations\<close>

definition pa_inv :: "metadata_page_allocator \<Rightarrow> bool" where
  "pa_inv self \<longleftrightarrow> wf_metadata (metadata self)
     \<and> 0 < pages_start self \<and> PAGE_SIZE dvd pages_start self
     \<and> pages_start self + total_heap_pages self * PAGE_SIZE \<le> pages_end self
     \<and> pages_end self < 2 ^ 64"

definition free_run :: "page_status list \<Rightarrow> nat \<Rightarrow> nat \<Rightarrow> bool" where
  "free_run md s n \<longleftrightarrow> s + n \<le> length md \<and> (\<forall>k. s \<le> k \<and> k < s + n \<longrightarrow> md ! k = Free)"

lemma free_run_take:
  "free_run md s n \<longleftrightarrow> s + n \<le> length md \<and> list_all is_free (take n (drop s md))"
proof (cases "s + n \<le> length md")
  case True
  have "(\<forall>k. s \<le> k \<and> k < s + n \<longrightarrow> md ! k = Free) \<longleftrightarrow> (\<forall>d<n. md ! (s + d) = Free)"
    by (metis add_diff_inverse_nat le_add1 nat_add_left_cancel_less not_less)
  with True show ?thesis by (simp add: free_run_def list_all_length min_absorb2)
qed (simp add: free_run_def)

lemma findM_free:
  assumes "0 < n" "n \<le> total_heap_pages self"
  shows "findM (\<lambda>idx. is_range_free self idx n) [0..<Suc (total_heap_pages self - n)]
    = Some (List.find (\<lambda>idx. free_run (metadata self) idx n) [0..<Suc (total_heap_pages self - n)])"
  using assms
  by (intro findM_find) (auto simp: is_range_free_eq free_run_def total_heap_pages_def)

lemma pa_alloc_none:
  assumes "0 < n" "\<And>s. \<not> free_run (metadata self) s n"
  shows "pa_alloc self m n = Some (None, self, m)"
proof (cases "n \<le> total_heap_pages self")
  case True
  moreover have "List.find (\<lambda>idx. free_run (metadata self) idx n) [0..<Suc (total_heap_pages self - n)] = None"
    using assms(2) by (simp add: find_None_iff del: upt_Suc)
  ultimately show ?thesis using assms(1)
    by (simp add: pa_alloc_def findM_free del: upt_Suc)
qed (use assms(1) in \<open>simp add: pa_alloc_def\<close>)

lemma pa_alloc_some:
  assumes "0 < n" "0 < pages_start self" "free_run (metadata self) s n"
    and "\<And>j. j < s \<Longrightarrow> \<not> free_run (metadata self) j n"
  shows "pa_alloc self m n =
    Some (Some (pages_start self + s * PAGE_SIZE, pages_start self + (s + n) * PAGE_SIZE),
          self\<lparr>metadata := overwrite s (s + n) (run_status s n) (metadata self)\<rparr>,
          zero_range m (pages_start self + s * PAGE_SIZE) (pages_start self + (s + n) * PAGE_SIZE))"
proof -
  have le: "s + n \<le> total_heap_pages self"
    using assms(3) by (simp add: free_run_def total_heap_pages_def)
  then have "List.find (\<lambda>idx. free_run (metadata self) idx n) [0..<Suc (total_heap_pages self - n)] = Some s"
    using assms by (subst find_upt_Some) auto
  moreover have "n \<le> total_heap_pages self" using le by simp
  moreover have "s + n \<le> length (metadata self)" using le by (simp add: total_heap_pages_def)
  ultimately show ?thesis using assms(1,2)
    by (simp add: pa_alloc_def findM_free mark_range_as_used_eq page_idx_to_pointer_def del: upt_Suc)
qed

lemma pa_alloc_cases:
  assumes "0 < n" "0 < pages_start self"
  obtains (full) "\<And>s. \<not> free_run (metadata self) s n" "pa_alloc self m n = Some (None, self, m)"
  | (fits) s where "free_run (metadata self) s n" "\<And>j. j < s \<Longrightarrow> \<not> free_run (metadata self) j n"
     "pa_alloc self m n =
      Some (Some (pages_start self + s * PAGE_SIZE, pages_start self + (s + n) * PAGE_SIZE),
          self\<lparr>metadata := overwrite s (s + n) (run_status s n) (metadata self)\<rparr>,
          zero_range m (pages_start self + s * PAGE_SIZE) (pages_start self + (s + n) * PAGE_SIZE))"
proof (cases "\<exists>s. free_run (metadata self) s n")
  case False
  then show ?thesis using full pa_alloc_none[OF assms(1)] by blast
next
  case True
  define s where "s = (LEAST s. free_run (metadata self) s n)"
  have "free_run (metadata self) s n" unfolding s_def using True by (rule LeastI_ex)
  moreover have "\<not> free_run (metadata self) j n" if "j < s" for j
    using not_less_Least that unfolding s_def by blast
  ultimately show ?thesis using fits pa_alloc_some[OF assms] by blast
qed

lemma page_pointer_roundtrip:
  assumes "pa_inv self" "i < total_heap_pages self"
  shows "page_pointer_to_page_idx self (pages_start self + i * PAGE_SIZE) = Some i"
proof -
  have "i * PAGE_SIZE < total_heap_pages self * PAGE_SIZE" using assms(2) by simp
  then have "pages_start self + i * PAGE_SIZE < pages_end self"
    using assms(1) unfolding pa_inv_def by linarith
  then show ?thesis using assms by (auto simp: page_pointer_to_page_idx_def pa_inv_def)
qed

lemma pa_dealloc_run:
  assumes "pa_inv self" "run_at (metadata self) i n"
  shows "pa_dealloc self (pages_start self + i * PAGE_SIZE) =
    Some (n, self\<lparr>metadata := overwrite i (i + n) (\<lambda>_. Free) (metadata self)\<rparr>)"
proof -
  have b: "0 < n" "i + n \<le> total_heap_pages self"
    using run_at_bounds[OF assms(2)] by (auto simp: total_heap_pages_def)
  then have "metadata self ! i = Used \<or> metadata self ! i = Last"
    using run_at_nth[OF assms(2), of i] by simp
  moreover have "dealloc_loop (metadata self) i 0 = Some (overwrite i (i + n) (\<lambda>_. Free) (metadata self), 0 + n)"
    using assms(2) by (intro dealloc_loop_run) (auto simp: run_at_def)
  moreover have "i < total_heap_pages self" using b by simp
  ultimately show ?thesis
    by (simp add: pa_dealloc_def index_def page_pointer_roundtrip[OF assms(1)])
      (simp add: total_heap_pages_def)
qed


lemma pa_inv_alloc:
  assumes "pa_inv self" "0 < n" "free_run (metadata self) s n"
  shows "pa_inv (self\<lparr>metadata := overwrite s (s + n) (run_status s n) (metadata self)\<rparr>)"
  using assms wf_metadata_overwrite[of "metadata self" n s]
  by (auto simp: pa_inv_def free_run_def total_heap_pages_def)

lemma pa_inv_dealloc:
  assumes "pa_inv self" "run_at (metadata self) i n"
  shows "pa_inv (self\<lparr>metadata := overwrite i (i + n) (\<lambda>_. Free) (metadata self)\<rparr>)"
  using assms wf_metadata_release[of "metadata self" i n]
  by (auto simp: pa_inv_def total_heap_pages_def)

lemma used_heap_pages_card:
  "used_heap_pages self = card {k. k < length (metadata self) \<and> metadata self ! k \<noteq> Free}"
  by (simp add: used_heap_pages_def length_filter_conv_card)

lemma used_heap_pages_alloc:
  assumes "free_run (metadata self) s n"
  shows "used_heap_pages (self\<lparr>metadata := overwrite s (s + n) (run_status s n) (metadata self)\<rparr>)
    = used_heap_pages self + n"
proof -
  let ?U = "{k. k < length (metadata self) \<and> metadata self ! k \<noteq> Free}"
  have "{k. k < length (metadata self) \<and>
          overwrite s (s + n) (run_status s n) (metadata self) ! k \<noteq> Free} = ?U \<union> {s..<s + n}"
    using assms by (auto simp: free_run_def run_status_def split: if_splits)
  moreover have "?U \<inter> {s..<s + n} = {}" using assms by (auto simp: free_run_def)
  moreover have "finite ?U" by simp
  ultimately show ?thesis by (simp add: used_heap_pages_card card_Un_disjoint)
qed

definition live_pages :: "metadata_page_allocator \<Rightarrow> (usize \<times> usize) set" where
  "live_pages self = {(pages_start self + i * PAGE_SIZE, n) | i n. run_at (metadata self) i n}"

lemma live_pages_alloc:
  assumes "pa_inv self" "0 < n" "free_run (metadata self) s n"
  shows "live_pages (self\<lparr>metadata := overwrite s (s + n) (run_status s n) (metadata self)\<rparr>)
    = insert (pages_start self + s * PAGE_SIZE, n) (live_pages self)"
  using assms run_at_overwrite[of "metadata self" n s]
  by (auto simp: live_pages_def pa_inv_def free_run_def)

lemma live_pages_dealloc:
  assumes "run_at (metadata self) i n"
  shows "live_pages (self\<lparr>metadata := overwrite i (i + n) (\<lambda>_. Free) (metadata self)\<rparr>)
    = live_pages self - {(pages_start self + i * PAGE_SIZE, n)}"
  using run_at_release[OF assms] by (auto simp: live_pages_def PAGE_SIZE_def)

lemma live_pages_bounds:
  assumes "pa_inv self" "(a, n) \<in> live_pages self"
  shows "0 < a \<and> 0 < n \<and> PAGE_SIZE dvd a \<and> a + n * PAGE_SIZE < 2 ^ 64"
proof -
  obtain i where i: "run_at (metadata self) i n" "a = pages_start self + i * PAGE_SIZE"
    using assms(2) by (auto simp: live_pages_def)
  have "(i + n) * PAGE_SIZE \<le> total_heap_pages self * PAGE_SIZE"
    using run_at_bounds[OF i(1)] by (simp add: total_heap_pages_def)
  then have "a + n * PAGE_SIZE < 2 ^ 64"
    using assms(1) i(2) unfolding pa_inv_def add_mult_distrib by linarith
  then show ?thesis using assms(1) i run_at_bounds[OF i(1)] by (auto simp: pa_inv_def)
qed

lemma live_pages_disjoint:
  assumes "(a, n) \<in> live_pages self" "(b, k) \<in> live_pages self" "(a, n) \<noteq> (b, k)"
  shows "a + n * PAGE_SIZE \<le> b \<or> b + k * PAGE_SIZE \<le> a"
proof -
  obtain i j where "a = pages_start self + i * PAGE_SIZE" "b = pages_start self + j * PAGE_SIZE"
      and r: "run_at (metadata self) i n" "run_at (metadata self) j k"
    using assms(1,2) by (auto simp: live_pages_def)
  moreover from this assms(3) have "i + n \<le> j \<or> j + k \<le> i"
    by (intro run_at_disjoint[OF r]) auto
  ultimately show ?thesis by (auto simp: PAGE_SIZE_def)
qed

lemma live_pages_fresh:
  assumes "0 < n" "free_run (metadata self) s n"
  shows "(pages_start self + s * PAGE_SIZE, n) \<notin> live_pages self"
  using assms run_at_nonfree[of "metadata self" s n s] by (auto simp: live_pages_def free_run_def)


section \<open>Initialisation and reserved areas\<close>

definition page_of :: "metadata_page_allocator \<Rightarrow> usize \<Rightarrow> nat" where
  "page_of self x = (x - pages_start self) div PAGE_SIZE"

definition page_reserved :: "metadata_page_allocator \<Rightarrow> nat \<Rightarrow> bool" where
  "page_reserved self k \<longleftrightarrow> k < total_heap_pages self \<and> metadata self ! k \<noteq> Free"

lemma all_free_loop_True:
  assumes "foldM (\<lambda>idx ok. if ok then do { m \<leftarrow> index md idx; Some (P m) } else Some False) [a..<b] True
           = Some True"
  shows "\<forall>k. a \<le> k \<and> k < b \<longrightarrow> k < length md \<and> P (md ! k)"
  using assms
proof (induction b)
  case 0
  then show ?case by simp
next
  case (Suc b)
  then show ?case
    by (cases "a \<le> b") (auto simp: foldM_append run_simps less_Suc_eq split: if_splits)
qed

lemma is_range_free_True:
  assumes "is_range_free self s n = Some True" "0 < n"
  shows "free_run (metadata self) s n"
proof -
  have "\<forall>k. s \<le> k \<and> k < s + n \<longrightarrow> k < length (metadata self) \<and> metadata self ! k = Free"
    using all_free_loop_True[of "metadata self" is_free s "s + n"] assms(1)
    by (simp add: is_range_free_def)
  moreover from this assms(2) have "s + (n - 1) < length (metadata self)" by simp
  then have "s + n \<le> length (metadata self)" by linarith
  ultimately show ?thesis by (simp add: free_run_def)
qed

lemma page_of_in_range:
  assumes "PAGE_SIZE dvd pages_start self" "pages_start self \<le> a - a mod PAGE_SIZE"
    "a \<le> x" "x < a - a mod PAGE_SIZE + n * PAGE_SIZE"
  shows "(a - a mod PAGE_SIZE - pages_start self) div PAGE_SIZE \<le> page_of self x"
    "page_of self x < (a - a mod PAGE_SIZE - pages_start self) div PAGE_SIZE + n"
proof -
  obtain c where c: "pages_start self = PAGE_SIZE * c" using assms(1) by blast
  have sa: "a - a mod PAGE_SIZE = PAGE_SIZE * (a div PAGE_SIZE)" by (simp add: minus_mod_eq_mult_div)
  have "c \<le> a div PAGE_SIZE" using assms(2) unfolding c sa by simp
  then have "(a - a mod PAGE_SIZE - pages_start self) div PAGE_SIZE = a div PAGE_SIZE - c"
    unfolding c sa by (simp flip: diff_mult_distrib2)
  moreover have "page_of self x = x div PAGE_SIZE - c"
    unfolding page_of_def c by (rule div_diff_mult) simp
  moreover have "a div PAGE_SIZE \<le> x div PAGE_SIZE" using assms(3) by (rule div_le_mono)
  moreover have "x div PAGE_SIZE < a div PAGE_SIZE + n"
    using assms(4) unfolding sa by (simp add: div_less_iff_less_mult algebra_simps)
  ultimately show "(a - a mod PAGE_SIZE - pages_start self) div PAGE_SIZE \<le> page_of self x"
    "page_of self x < (a - a mod PAGE_SIZE - pages_start self) div PAGE_SIZE + n"
    using \<open>c \<le> a div PAGE_SIZE\<close> by auto
qed

lemma mark_pointer_range_step:
  assumes mk: "mark_pointer_range_as_used_without_initialize self m (a, b) = Some (self', m')"
    and inv: "pa_inv self" and "a < 2 ^ 64"
  shows "pa_inv self'" "m' = m" "pages_start self' = pages_start self"
    "total_heap_pages self' = total_heap_pages self"
    "page_reserved self k \<Longrightarrow> page_reserved self' k"
    "a \<le> x \<Longrightarrow> x < b \<Longrightarrow> page_reserved self' (page_of self x)"
proof -
  let ?sa = "a - a mod PAGE_SIZE"
  obtain n where n: "minimum_amount_of_pages (b - ?sa) = Some n" and sa: "?sa \<le> b" "pages_start self \<le> ?sa"
    and free: "is_range_free self ((?sa - pages_start self) div PAGE_SIZE) n = Some True"
    and mk: "mark_range_as_used self m ((?sa - pages_start self) div PAGE_SIZE) n False = Some (self', m')"
    using mk assms(3)
    by (auto simp: mark_pointer_range_as_used_without_initialize_def
        range_to_start_aligned_and_number_of_pages_def page_pointer_to_page_idx_def
        align_down_ptr_page run_simps)
  define s where "s = (?sa - pages_start self) div PAGE_SIZE"
  have upd: "(self', m') = (self\<lparr>metadata := overwrite s (s + n) (run_status s n) (metadata self)\<rparr>, m)"
    and fr: "n = 0 \<or> free_run (metadata self) s n"
  proof -
    show fr: "n = 0 \<or> free_run (metadata self) s n"
      using is_range_free_True[OF free] by (auto simp: s_def)
    then show "(self', m') = (self\<lparr>metadata := overwrite s (s + n) (run_status s n) (metadata self)\<rparr>, m)"
      using mk mark_range_as_used_eq[of s n self False m]
      by (auto simp: s_def free_run_def mark_range_as_used_def)
  qed
  then show "m' = m" "pages_start self' = pages_start self"
      "total_heap_pages self' = total_heap_pages self"
    by (auto simp: total_heap_pages_def)
  show "pa_inv self'" using fr upd inv pa_inv_alloc[OF inv, of n s] by (cases "n = 0") auto
  show "page_reserved self k \<Longrightarrow> page_reserved self' k"
    using fr upd by (auto simp: page_reserved_def total_heap_pages_def run_status_def)
  assume x: "a \<le> x" "x < b"
  then have "x < ?sa + n * PAGE_SIZE" using minimum_amount_of_pages_SomeD(1)[OF n] sa by linarith
  from page_of_in_range[OF _ sa(2) x(1) this] inv
  have "s \<le> page_of self x" "page_of self x < s + n" by (auto simp: pa_inv_def s_def)
  then show "page_reserved self' (page_of self x)"
    using fr upd by (auto simp: page_reserved_def total_heap_pages_def run_status_def free_run_def)
qed

lemma mark_reserved_areas:
  assumes "foldM (\<lambda>area (self, m). mark_pointer_range_as_used_without_initialize self m area)
             areas (self, m) = Some (self', m')"
    "pa_inv self" "\<forall>(a, b) \<in> set areas. a < 2 ^ 64"
  shows "pa_inv self' \<and> m' = m \<and> pages_start self' = pages_start self
    \<and> total_heap_pages self' = total_heap_pages self
    \<and> (\<forall>k. page_reserved self k \<longrightarrow> page_reserved self' k)
    \<and> (\<forall>(a, b) \<in> set areas. \<forall>x. a \<le> x \<and> x < b \<longrightarrow> page_reserved self' (page_of self' x))"
  using assms
proof (induction areas arbitrary: self m)
  case Nil
  then show ?case by simp
next
  case (Cons area areas)
  obtain a b where area: "area = (a, b)" by force
  obtain self1 m1 where one: "mark_pointer_range_as_used_without_initialize self m (a, b) = Some (self1, m1)"
    and rest: "foldM (\<lambda>area (self, m). mark_pointer_range_as_used_without_initialize self m area)
             areas (self1, m1) = Some (self', m')"
    using Cons.prems(1) by (auto simp: area run_simps)
  have "a < 2 ^ 64" using Cons.prems(3) area by auto
  note step = mark_pointer_range_step[OF one Cons.prems(2) this]
  have "\<forall>(a, b) \<in> set areas. a < 2 ^ 64" using Cons.prems(3) by auto
  note IH = Cons.IH[OF rest step(1) this]
  have "page_of self' x = page_of self x" for x using IH step by (simp add: page_of_def)
  then show ?case using IH step by (auto simp: area)
qed


lemma metadata_fits_heap:
  fixes k :: nat
  shows "k * 4096 div 4097 * 4096 + (k * 4096 div 4097 + 4095) div 4096 * 4096 \<le> k * 4096"
proof -
  define n where "n = k * 4096 div 4097"
  define c where "c = (n + 4095) div 4096"
  have "4097 * n \<le> k * 4096" by (simp add: n_def)
  moreover have "4096 * c \<le> n + 4095" by (simp add: c_def)
  ultimately have "n + c \<le> k" by linarith
  then show ?thesis by (simp flip: n_def c_def)
qed

lemma align_up_after_metadata:
  assumes "(b * 4096 + n) + 4096 < 2 ^ 64"
  shows "align_up (b * PAGE_SIZE + n) PAGE_SIZE = Some ((b + (n + 4095) div 4096) * PAGE_SIZE)"
proof -
  have "(b * 4096 + (n + 4095)) div 4096 = b + (n + 4095) div 4096" by simp
  moreover have "b * 4096 + n + 4096 - 1 = b * 4096 + (n + 4095)" by simp
  ultimately show ?thesis
    using align_up_defined[of 4096 "b * 4096 + n"] assms by (simp only: PAGE_SIZE_def)
qed

lemma pa_init_closed:
  assumes "0 < b" "0 < k" "(b + k + 1) * PAGE_SIZE < 2 ^ 64"
    and n: "n = k * PAGE_SIZE div (PAGE_SIZE + 1)" and h: "h = b + (n + 4095) div 4096"
  shows "pa_init self m (b * PAGE_SIZE) (k * PAGE_SIZE) areas =
    foldM (\<lambda>area (self, m). mark_pointer_range_as_used_without_initialize self m area) areas
      (self\<lparr>metadata := replicate n Free, pages_start := h * PAGE_SIZE,
             pages_end := (b + k) * PAGE_SIZE\<rparr>, m)"
    and "pa_inv (self\<lparr>metadata := replicate n Free, pages_start := h * PAGE_SIZE,
             pages_end := (b + k) * PAGE_SIZE\<rparr>)"
proof -
  have "n = k * 4096 div 4097" by (simp add: n PAGE_SIZE_def)
  then have le: "h + n \<le> b + k" using metadata_fits_heap[of k] by (simp add: h)
  then have nk: "n \<le> k" "h \<le> b + k" using h by auto
  have "align_up (b * PAGE_SIZE + n) PAGE_SIZE = Some (h * PAGE_SIZE)"
    unfolding h using assms(3) nk by (intro align_up_after_metadata) (simp add: PAGE_SIZE_def)
  moreover have "(b * PAGE_SIZE + k * PAGE_SIZE - h * PAGE_SIZE) div PAGE_SIZE = b + k - h"
    by (simp flip: add_mult_distrib diff_mult_distrib)
  moreover have "n + (b + k - h) * PAGE_SIZE \<le> k * PAGE_SIZE"
  proof -
    have "n \<le> (n + 4095) div 4096 * 4096" by linarith
    then have "n + (b + k - h) * 4096 \<le> (h - b) * 4096 + (b + k - h) * 4096" by (simp add: h)
    also have "\<dots> = k * 4096" using nk(2) h by (simp flip: add_mult_distrib)
    finally show ?thesis by (simp add: PAGE_SIZE_def)
  qed
  moreover have "n \<le> b + k - h" using le by linarith
  moreover have "0 < b + k - h"
    using le assms(2) by (cases "n = 0") (auto simp: h)
  moreover have "h * PAGE_SIZE + (b + k - h) * PAGE_SIZE = (b + k) * PAGE_SIZE"
    using nk(2) by (simp flip: add_mult_distrib)
  ultimately show "pa_init self m (b * PAGE_SIZE) (k * PAGE_SIZE) areas =
    foldM (\<lambda>area (self, m). mark_pointer_range_as_used_without_initialize self m area) areas
      (self\<lparr>metadata := replicate n Free, pages_start := h * PAGE_SIZE,
             pages_end := (b + k) * PAGE_SIZE\<rparr>, m)"
    unfolding pa_init_def Let_def n[symmetric] by simp
  have "(h + n) * PAGE_SIZE \<le> (b + k) * PAGE_SIZE" using le by simp
  moreover have "0 < h" using assms(1) h by simp
  moreover have "(b + k) * PAGE_SIZE < 2 ^ 64" using assms(3) by simp
  ultimately show "pa_inv (self\<lparr>metadata := replicate n Free, pages_start := h * PAGE_SIZE,
             pages_end := (b + k) * PAGE_SIZE\<rparr>)"
    by (simp add: pa_inv_def wf_metadata_def total_heap_pages_def add_mult_distrib)
qed


section \<open>The contract of the page allocator\<close>

interpretation pages: page_provider static_alloc static_dealloc
  "\<lambda>(self, m). pa_inv self" "\<lambda>(self, m). live_pages self"
proof unfold_locales
  fix s :: "metadata_page_allocator \<times> mem" and n :: nat
  assume inv: "(case s of (self, m) \<Rightarrow> pa_inv self)" and n: "0 < n"
  obtain self m where s: "s = (self, m)" by force
  have pos: "0 < pages_start self" using inv s by (simp add: pa_inv_def)
  show "\<exists>r s'. static_alloc s n = Some (r, s')"
    by (rule pa_alloc_cases[OF n pos, of m]) (auto simp: s static_alloc_def)
next
  fix s s' :: "metadata_page_allocator \<times> mem" and n :: nat
  assume inv: "(case s of (self, m) \<Rightarrow> pa_inv self)" and n: "0 < n"
    and al: "static_alloc s n = Some (None, s')"
  obtain self m where s: "s = (self, m)" by force
  have pos: "0 < pages_start self" using inv s by (simp add: pa_inv_def)
  show "s' = s"
    by (rule pa_alloc_cases[OF n pos, of m]) (use al in \<open>auto simp: s static_alloc_def\<close>)
next
  fix s s' :: "metadata_page_allocator \<times> mem" and n a e :: nat
  assume inv: "(case s of (self, m) \<Rightarrow> pa_inv self)" and n: "0 < n"
    and al: "static_alloc s n = Some (Some (a, e), s')"
  obtain self m where s: "s = (self, m)" by force
  have pos: "0 < pages_start self" and inv': "pa_inv self" using inv s by (auto simp: pa_inv_def)
  show "(case s' of (self, m) \<Rightarrow> pa_inv self)
      \<and> (case s' of (self, m) \<Rightarrow> live_pages self) = insert (a, n) (case s of (self, m) \<Rightarrow> live_pages self)
      \<and> (a, n) \<notin> (case s of (self, m) \<Rightarrow> live_pages self)
      \<and> e = a + n * PAGE_SIZE \<and> 0 < a \<and> PAGE_SIZE dvd a \<and> e < 2 ^ 64"
  proof (rule pa_alloc_cases[OF n pos, of m])
    fix t assume fr: "free_run (metadata self) t n"
      and eq: "pa_alloc self m n =
        Some (Some (pages_start self + t * PAGE_SIZE, pages_start self + (t + n) * PAGE_SIZE),
          self\<lparr>metadata := overwrite t (t + n) (run_status t n) (metadata self)\<rparr>,
          zero_range m (pages_start self + t * PAGE_SIZE) (pages_start self + (t + n) * PAGE_SIZE))"
    have "(t + n) * PAGE_SIZE \<le> total_heap_pages self * PAGE_SIZE"
      using fr by (simp add: free_run_def total_heap_pages_def)
    then have "pages_start self + (t + n) * PAGE_SIZE < 2 ^ 64"
      using inv' unfolding pa_inv_def by linarith
    then show ?thesis
      using al eq inv' pa_inv_alloc[OF inv' n fr] live_pages_alloc[OF inv' n fr]
        live_pages_fresh[OF n fr]
      by (auto simp: s static_alloc_def pa_inv_def add_mult_distrib)
  qed (use al in \<open>auto simp: s static_alloc_def\<close>)
next
  fix s :: "metadata_page_allocator \<times> mem" and a n :: nat
  assume "(case s of (self, m) \<Rightarrow> pa_inv self)" "(a, n) \<in> (case s of (self, m) \<Rightarrow> live_pages self)"
  then show "0 < a \<and> 0 < n \<and> PAGE_SIZE dvd a \<and> a + n * PAGE_SIZE < 2 ^ 64"
    using live_pages_bounds by (auto split: prod.splits)
next
  fix s :: "metadata_page_allocator \<times> mem" and a n b k :: nat
  assume "(a, n) \<in> (case s of (self, m) \<Rightarrow> live_pages self)"
    "(b, k) \<in> (case s of (self, m) \<Rightarrow> live_pages self)" "(a, n) \<noteq> (b, k)"
  then show "a + n * PAGE_SIZE \<le> b \<or> b + k * PAGE_SIZE \<le> a"
    using live_pages_disjoint by (auto split: prod.splits)
next
  fix s :: "metadata_page_allocator \<times> mem" and a n :: nat
  assume inv: "(case s of (self, m) \<Rightarrow> pa_inv self)"
    and live: "(a, n) \<in> (case s of (self, m) \<Rightarrow> live_pages self)"
  obtain self m where s: "s = (self, m)" by force
  obtain i where i: "run_at (metadata self) i n" "a = pages_start self + i * PAGE_SIZE"
    using live by (auto simp: s live_pages_def)
  show "\<exists>s'. static_dealloc s a = Some (n, s') \<and> (case s' of (self, m) \<Rightarrow> pa_inv self)
      \<and> (case s' of (self, m) \<Rightarrow> live_pages self) = (case s of (self, m) \<Rightarrow> live_pages self) - {(a, n)}"
    using inv pa_dealloc_run[OF _ i(1)] pa_inv_dealloc[OF _ i(1)] live_pages_dealloc[OF i(1)]
    by (auto simp: s static_dealloc_def i(2))
qed


section \<open>Properties\<close>

text \<open>
  C1: allocation is exact.  Either no \<^term>\<open>n\<close> consecutive pages are free and the
  call returns \<^verbatim>\<open>None\<close> and changes nothing, or it takes the lowest such
  range, zeroes exactly its bytes, adds exactly this run to the allocated runs,
  accounts for it and keeps the invariant.
\<close>

theorem pa_alloc_correct:
  assumes "pa_inv self" "0 < n"
  shows "(\<forall>s. \<not> free_run (metadata self) s n) \<and> pa_alloc self m n = Some (None, self, m)
    \<or> (\<exists>s self' m'. free_run (metadata self) s n \<and> (\<forall>j < s. \<not> free_run (metadata self) j n)
        \<and> pa_alloc self m n = Some (Some (pages_start self + s * PAGE_SIZE,
              pages_start self + (s + n) * PAGE_SIZE), self', m')
        \<and> pa_inv self' \<and> used_heap_pages self' = used_heap_pages self + n
        \<and> live_pages self' = insert (pages_start self + s * PAGE_SIZE, n) (live_pages self)
        \<and> (\<forall>x. m' x = (if pages_start self + s * PAGE_SIZE \<le> x
                 \<and> x < pages_start self + (s + n) * PAGE_SIZE then 0 else m x)))"
proof -
  have pos: "0 < pages_start self" using assms(1) by (simp add: pa_inv_def)
  show ?thesis
  proof (rule pa_alloc_cases[OF assms(2) pos, of m])
    fix s assume fr: "free_run (metadata self) s n" and least: "\<And>j. j < s \<Longrightarrow> \<not> free_run (metadata self) j n"
      and eq: "pa_alloc self m n =
        Some (Some (pages_start self + s * PAGE_SIZE, pages_start self + (s + n) * PAGE_SIZE),
          self\<lparr>metadata := overwrite s (s + n) (run_status s n) (metadata self)\<rparr>,
          zero_range m (pages_start self + s * PAGE_SIZE) (pages_start self + (s + n) * PAGE_SIZE))"
    then show ?thesis
      using pa_inv_alloc[OF assms fr] used_heap_pages_alloc[OF fr] live_pages_alloc[OF assms fr]
      by (intro disjI2) (auto simp: zero_range_def intro!: exI[of _ s])
  qed simp
qed

definition pa_example :: metadata_page_allocator where
  "pa_example = \<lparr>metadata = [Free, Used, Last, Free, Free, Free],
     pages_start = 4096, pages_end = 28672\<rparr>"

lemma pa_example_inv: "pa_inv pa_example"
proof -
  have "wf_metadata [Free, Used, Last, Free, Free, Free]"
    by (simp add: wf_metadata_def All_less_Suc)
  then show ?thesis
    by (simp add: pa_example_def pa_inv_def total_heap_pages_def PAGE_SIZE_def)
qed

lemma pa_example_free:
  "free_run (metadata pa_example) 3 2" "j < 3 \<Longrightarrow> \<not> free_run (metadata pa_example) j 2"
  by (auto simp: free_run_take pa_example_def numeral_3_eq_3 less_Suc_eq)

theorem pa_alloc_correct_witness:
  "pa_inv pa_example \<and> (\<exists>s self' m'. pa_alloc pa_example (\<lambda>_. 7) 2 =
     Some (Some (4096 + s * PAGE_SIZE, 4096 + (s + 2) * PAGE_SIZE), self', m') \<and> pa_inv self')"
  using pa_alloc_correct[OF pa_example_inv, of 2 "\<lambda>_. 7"] pa_example_inv pa_example_free(1)
  by (auto simp: pa_example_def)

text \<open>
  C2: releasing the pages an allocation returned gives back the number of pages
  and exactly the status bytes from before the allocation.
\<close>

theorem pa_alloc_dealloc_roundtrip:
  assumes "pa_inv self" "0 < n" "pa_alloc self m n = Some (Some (a, e), self', m')"
  shows "pa_dealloc self' a = Some (n, self)"
proof -
  have pos: "0 < pages_start self" using assms(1) by (simp add: pa_inv_def)
  show ?thesis
  proof (rule pa_alloc_cases[OF assms(2) pos, of m])
    fix s assume fr: "free_run (metadata self) s n"
      and eq: "pa_alloc self m n =
        Some (Some (pages_start self + s * PAGE_SIZE, pages_start self + (s + n) * PAGE_SIZE),
          self\<lparr>metadata := overwrite s (s + n) (run_status s n) (metadata self)\<rparr>,
          zero_range m (pages_start self + s * PAGE_SIZE) (pages_start self + (s + n) * PAGE_SIZE))"
    have "run_at (metadata self') s n" "pa_inv self'" "a = pages_start self' + s * PAGE_SIZE"
      using assms(3) eq fr run_at_fresh[of "metadata self" n s] assms(1,2) pa_inv_alloc[OF assms(1,2) fr]
      by (auto simp: pa_inv_def free_run_def)
    then have "pa_dealloc self' a
        = Some (n, self'\<lparr>metadata := overwrite s (s + n) (\<lambda>_. Free) (metadata self')\<rparr>)"
      using pa_dealloc_run by blast
    moreover have "overwrite s (s + n) (\<lambda>_. Free) (metadata self') = metadata self"
      using assms(3) eq fr by (auto simp: free_run_def intro!: overwrite_undo)
    ultimately show ?thesis using assms(3) eq by auto
  qed (use assms(3) in simp)
qed

theorem pa_alloc_dealloc_roundtrip_witness:
  "\<exists>a e self' m'. pa_alloc pa_example (\<lambda>_. 7) 2 = Some (Some (a, e), self', m')
     \<and> pa_dealloc self' a = Some (2, pa_example)"
proof -
  obtain a e self' m' where "pa_alloc pa_example (\<lambda>_. 7) 2 = Some (Some (a, e), self', m')"
    using pa_alloc_some[of 2 pa_example 3, OF _ _ pa_example_free] by (auto simp: pa_example_def)
  then show ?thesis using pa_alloc_dealloc_roundtrip[OF pa_example_inv, of 2] by auto
qed

text \<open>
  C3: boot-time initialisation on page-aligned RAM.  For a page-aligned region of
  at least one page every \<^verbatim>\<open>assert!\<close> of \<^verbatim>\<open>init\<close> about the split into status
  bytes and pages holds, and when the reserved areas are accepted, no page that
  holds a byte of one of them is free: the allocator never hands it out, and
  \<^verbatim>\<open>init\<close> writes none of it.
\<close>

theorem pa_init_protects_reserved:
  assumes "0 < b" "0 < k" "(b + k + 1) * PAGE_SIZE < 2 ^ 64" "\<forall>(lo, hi) \<in> set areas. lo < 2 ^ 64"
  shows "(\<exists>self'. pa_init self m (b * PAGE_SIZE) (k * PAGE_SIZE) [] = Some (self', m)
      \<and> pa_inv self' \<and> used_heap_pages self' = 0)
    \<and> (\<forall>self' m'. pa_init self m (b * PAGE_SIZE) (k * PAGE_SIZE) areas = Some (self', m') \<longrightarrow>
        pa_inv self' \<and> m' = m
        \<and> (\<forall>(lo, hi) \<in> set areas. \<forall>x. lo \<le> x \<and> x < hi \<longrightarrow> page_reserved self' (page_of self' x)))"
  using mark_reserved_areas[OF _ pa_init_closed(2)[OF assms(1-3) refl refl] assms(4)]
    pa_init_closed[OF assms(1-3) refl refl]
  by (auto simp: used_heap_pages_def)

text \<open>
  A region of three pages at \<^verbatim>\<open>0x1000\<close>: two pages remain, the first of which is
  reserved by an area of 100 bytes that starts inside it.
\<close>

lemma pa_init_example:
  "\<exists>self'. pa_init pa_new m (1 * PAGE_SIZE) (3 * PAGE_SIZE) [(8292, 8392)] = Some (self', m)"
proof -
  have "align_up 4098 4096 = Some 8192" "minimum_amount_of_pages 200 = Some 1"
    by (simp_all add: align_up_def urem_def uadd_def usub_def minimum_amount_of_pages_def PAGE_SIZE_def)
  then show ?thesis
    by (simp add: pa_init_def PAGE_SIZE_def mark_pointer_range_as_used_without_initialize_def
        range_to_start_aligned_and_number_of_pages_def align_down_ptr_page[unfolded PAGE_SIZE_def]
        usub_def page_pointer_to_page_idx_def is_range_free_def mark_range_as_used_def
        index_def index_set_def numeral_2_eq_2 del: replicate_Suc)
qed

theorem pa_init_protects_reserved_witness:
  "\<exists>self'. pa_init pa_new (\<lambda>_. 7) (1 * PAGE_SIZE) (3 * PAGE_SIZE) [(8292, 8392)] = Some (self', \<lambda>_. 7)
     \<and> pa_inv self' \<and> page_reserved self' (page_of self' 8300)"
proof -
  obtain self' where i: "pa_init pa_new (\<lambda>_. 7) (1 * PAGE_SIZE) (3 * PAGE_SIZE) [(8292, 8392)]
      = Some (self', \<lambda>_. 7)"
    using pa_init_example by blast
  have "pa_inv self' \<and> (\<forall>(lo, hi) \<in> set [(8292, 8392)]. \<forall>x. lo \<le> x \<and> x < hi
      \<longrightarrow> page_reserved self' (page_of self' x))"
    using pa_init_protects_reserved[of 1 3 "[(8292, 8392)]" pa_new "\<lambda>_. 7"] i
    by (simp add: PAGE_SIZE_def)
  then show ?thesis using i by simp
qed

end
