(* ===== verification/Heap.thy ===== *)
theory Heap
  imports PageAllocator
begin

text \<open>
  The kernel heap, \<^verbatim>\<open>crates/mm/src/heap.rs\<close>: an intrusive first-fit free list
  inside pages obtained from the page allocator.  Block headers live in memory,
  here the map from a block's address to its header; dereferencing an address
  without a header, and a traversal of a cyclic list, have no result.  The page
  allocator is the trait parameter, passed as its two operations.
\<close>

record free_block =
  fb_next :: "usize option"
  fb_size :: usize

record heap =
  genesis_block :: free_block
  allocated_memory :: usize

record layout =
  layout_size :: usize
  layout_align :: usize

type_synonym block_mem = "usize \<Rightarrow> free_block option"

definition METADATA_SIZE :: usize where "METADATA_SIZE = 16"

definition DATA_ALIGNMENT :: usize where "DATA_ALIGNMENT = 8"

definition MINIMUM_SIZE :: usize where "MINIMUM_SIZE = METADATA_SIZE + DATA_ALIGNMENT"

definition from_layout :: "layout \<Rightarrow> usize run" where
  "from_layout layout = do {
     check (DATA_ALIGNMENT \<ge> layout_align layout);
     align_up (max (layout_size layout) MINIMUM_SIZE) DATA_ALIGNMENT
   }"

definition from_pages :: "usize \<Rightarrow> usize run" where
  "from_pages pages = do { b \<leftarrow> umul pages PAGE_SIZE; align_up b DATA_ALIGNMENT }"

definition get_remaining_size :: "usize \<Rightarrow> usize \<Rightarrow> usize run" where
  "get_remaining_size sz needed_size = do {
     t \<leftarrow> uadd needed_size MINIMUM_SIZE;
     check (sz \<ge> t);
     usub sz needed_size
   }"

definition fb_initialize :: "block_mem \<Rightarrow> usize \<Rightarrow> usize \<Rightarrow> block_mem run" where
  "fb_initialize bm block_ptr sz = do {
     check (sz \<ge> MINIMUM_SIZE);
     check (sz \<ge> DATA_ALIGNMENT);
     check (sz mod DATA_ALIGNMENT = 0);
     Some (bm(block_ptr \<mapsto> \<lparr>fb_next = None, fb_size = sz\<rparr>))
   }"

definition fb_split :: "block_mem \<Rightarrow> usize \<Rightarrow> usize \<Rightarrow> (usize \<times> block_mem) run" where
  "fb_split bm block_ptr requested_size = do {
     block \<leftarrow> bm block_ptr;
     t \<leftarrow> uadd requested_size MINIMUM_SIZE;
     check (fb_size block \<ge> t);
     check (requested_size mod DATA_ALIGNMENT = 0);
     remaining_size \<leftarrow> get_remaining_size (fb_size block) requested_size;
     let new_block = block_ptr + requested_size;
     check (remaining_size mod DATA_ALIGNMENT = 0);
     let bm = bm(block_ptr \<mapsto> block\<lparr>fb_size := requested_size\<rparr>);
     bm \<leftarrow> fb_initialize bm new_block remaining_size;
     Some (new_block, bm)
   }"

definition heap_new :: heap where
  "heap_new = \<lparr>genesis_block = \<lparr>fb_next = None, fb_size = 0\<rparr>, allocated_memory = 0\<rparr>"

definition is_page_allocator_allocation :: "layout \<Rightarrow> bool" where
  "is_page_allocator_allocation layout \<longleftrightarrow>
     layout_size layout \<ge> PAGE_SIZE \<or> layout_align layout > DATA_ALIGNMENT"

definition heap_insert :: "heap \<Rightarrow> block_mem \<Rightarrow> usize \<Rightarrow> (heap \<times> block_mem) run" where
  "heap_insert self bm block_ptr = do {
     block \<leftarrow> bm block_ptr;
     check (fb_next block = None);
     let bm = bm(block_ptr \<mapsto> block\<lparr>fb_next := fb_next (genesis_block self)\<rparr>);
     Some (self\<lparr>genesis_block := (genesis_block self)\<lparr>fb_next := Some block_ptr\<rparr>\<rparr>, bm)
   }"

definition split_if_necessary :: "heap \<Rightarrow> block_mem \<Rightarrow> usize \<Rightarrow> usize \<Rightarrow> (heap \<times> block_mem) run" where
  "split_if_necessary self bm block_ptr requested_size = do {
     block \<leftarrow> bm block_ptr;
     let current_block_size = fb_size block;
     check (current_block_size \<ge> requested_size);
     if current_block_size - requested_size < MINIMUM_SIZE then Some (self, bm)
     else do {
       (new_block, bm) \<leftarrow> fb_split bm block_ptr requested_size;
       heap_insert self bm new_block
     }
   }"

text \<open>
  The cursor \<^verbatim>\<open>current\<close> of the search is the genesis block (\<^term>\<open>None\<close>) or a block
  in memory.
\<close>

definition cursor_next :: "heap \<Rightarrow> block_mem \<Rightarrow> usize option \<Rightarrow> usize option run" where
  "cursor_next self bm current = (case current of
       None \<Rightarrow> Some (fb_next (genesis_block self))
     | Some p \<Rightarrow> do { b \<leftarrow> bm p; Some (fb_next b) })"

definition cursor_set_next ::
    "heap \<Rightarrow> block_mem \<Rightarrow> usize option \<Rightarrow> usize option \<Rightarrow> (heap \<times> block_mem) run" where
  "cursor_set_next self bm current nxt = (case current of
       None \<Rightarrow> Some (self\<lparr>genesis_block := (genesis_block self)\<lparr>fb_next := nxt\<rparr>\<rparr>, bm)
     | Some p \<Rightarrow> do { b \<leftarrow> bm p; Some (self, bm(p \<mapsto> b\<lparr>fb_next := nxt\<rparr>)) })"

partial_function (option) find_loop ::
    "heap \<Rightarrow> block_mem \<Rightarrow> usize option \<Rightarrow> usize \<Rightarrow> (usize option \<times> heap \<times> block_mem) run" where
  "find_loop self bm current requested_size =
     Option.bind (cursor_next self bm current) (\<lambda>nxt. case nxt of
         None \<Rightarrow> Some (None, self, bm)
       | Some potential_block \<Rightarrow>
           Option.bind (bm potential_block) (\<lambda>b.
             if fb_size b < requested_size
             then find_loop self bm (Some potential_block) requested_size
             else Option.bind (cursor_set_next self bm current (fb_next b)) (\<lambda>(self, bm).
               Some (Some potential_block, self, bm(potential_block \<mapsto> b\<lparr>fb_next := None\<rparr>)))))"

definition find_and_remove ::
    "heap \<Rightarrow> block_mem \<Rightarrow> usize \<Rightarrow> (usize option \<times> heap \<times> block_mem) run" where
  "find_and_remove self bm requested_size = find_loop self bm None requested_size"

definition heap_alloc ::
    "('s \<Rightarrow> usize \<Rightarrow> ((usize \<times> usize) option \<times> 's) run) \<Rightarrow> 's \<times> heap \<times> block_mem \<Rightarrow> layout
     \<Rightarrow> (usize \<times> 's \<times> heap \<times> block_mem) run" where
  "heap_alloc allocator st layout = (case st of (s, self, bm) \<Rightarrow>
     if is_page_allocator_allocation layout then do {
       pages \<leftarrow> minimum_amount_of_pages (layout_size layout);
       (allocation, s) \<leftarrow> allocator s pages;
       case allocation of
         Some (start, _) \<Rightarrow> do {
           b \<leftarrow> umul pages PAGE_SIZE;
           t \<leftarrow> uadd (allocated_memory self) b;
           Some (start, s, self\<lparr>allocated_memory := t\<rparr>, bm) }
       | None \<Rightarrow> Some (0, s, self, bm)
     } else do {
       requested_size \<leftarrow> from_layout layout;
       (found, self, bm) \<leftarrow> find_and_remove self bm requested_size;
       (block, s, bm) \<leftarrow> (case found of
           Some block \<Rightarrow> Some (Some block, s, bm)
         | None \<Rightarrow> do {
             pages \<leftarrow> minimum_amount_of_pages requested_size;
             (allocation, s) \<leftarrow> allocator s pages;
             case allocation of
               None \<Rightarrow> Some (None, s, bm)
             | Some (start, _) \<Rightarrow> do {
                 size \<leftarrow> from_pages pages;
                 bm \<leftarrow> fb_initialize bm start size;
                 Some (Some start, s, bm) } });
       case block of
         None \<Rightarrow> Some (0, s, self, bm)
       | Some block \<Rightarrow> do {
           (self, bm) \<leftarrow> split_if_necessary self bm block requested_size;
           t \<leftarrow> uadd (allocated_memory self) requested_size;
           Some (block, s, self\<lparr>allocated_memory := t\<rparr>, bm) }
     })"

definition heap_dealloc ::
    "('s \<Rightarrow> usize \<Rightarrow> (usize \<times> 's) run) \<Rightarrow> 's \<times> heap \<times> block_mem \<Rightarrow> usize \<Rightarrow> layout
     \<Rightarrow> ('s \<times> heap \<times> block_mem) run" where
  "heap_dealloc dealloc st ptr layout = (case st of (s, self, bm) \<Rightarrow> do {
     check (ptr \<noteq> 0);
     if is_page_allocator_allocation layout then do {
       (pages, s) \<leftarrow> dealloc s ptr;
       b \<leftarrow> umul pages PAGE_SIZE;
       t \<leftarrow> usub (allocated_memory self) b;
       Some (s, self\<lparr>allocated_memory := t\<rparr>, bm)
     } else do {
       size \<leftarrow> from_layout layout;
       let bm = bm(ptr \<mapsto> \<lparr>fb_next = None, fb_size = size\<rparr>);
       (self, bm) \<leftarrow> heap_insert self bm ptr;
       t \<leftarrow> usub (allocated_memory self) size;
       Some (s, self\<lparr>allocated_memory := t\<rparr>, bm)
     }
   })"

section \<open>The free list\<close>

primrec seg :: "block_mem \<Rightarrow> usize option \<Rightarrow> usize list \<Rightarrow> usize option \<Rightarrow> bool" where
  "seg bm s [] e \<longleftrightarrow> s = e"
| "seg bm s (p # ps) e \<longleftrightarrow> s = Some p \<and> (\<exists>b. bm p = Some b \<and> seg bm (fb_next b) ps e)"

definition free_list :: "heap \<Rightarrow> block_mem \<Rightarrow> usize list \<Rightarrow> bool" where
  "free_list self bm ps \<longleftrightarrow> seg bm (fb_next (genesis_block self)) ps None \<and> distinct ps"

definition block_size :: "block_mem \<Rightarrow> usize \<Rightarrow> usize" where
  "block_size bm p = (case bm p of None \<Rightarrow> 0 | Some b \<Rightarrow> fb_size b)"

lemma seg_append: "seg bm s (xs @ ys) e \<longleftrightarrow> (\<exists>m. seg bm s xs m \<and> seg bm m ys e)"
  by (induction xs arbitrary: s) auto

lemma seg_update [simp]: "p \<notin> set ps \<Longrightarrow> seg (bm(p := x)) s ps e \<longleftrightarrow> seg bm s ps e"
  by (induction ps arbitrary: s) auto

lemma seg_dom: "seg bm s ps e \<Longrightarrow> p \<in> set ps \<Longrightarrow> \<exists>b. bm p = Some b"
  by (induction ps arbitrary: s) auto

text \<open>The predecessor of a position in the list, as the search's cursor.\<close>

definition cursor_at :: "usize list \<Rightarrow> usize option" where
  "cursor_at xs = (if xs = [] then None else Some (last xs))"

lemma find_loop_first_fit:
  assumes "seg bm nxt (us @ p # vs) None" "cursor_next self bm cur = Some nxt"
    and "\<forall>u\<in>set us. block_size bm u < req" "req \<le> block_size bm p" "bm p = Some b"
  shows "find_loop self bm cur req =
     Option.bind (cursor_set_next self bm (if us = [] then cur else Some (last us)) (fb_next b))
       (\<lambda>(self, bm). Some (Some p, self, bm(p \<mapsto> b\<lparr>fb_next := None\<rparr>)))"
  using assms(1-3)
proof (induction us arbitrary: cur nxt)
  case Nil
  then show ?case using assms(4,5)
    by (subst find_loop.simps) (auto simp: block_size_def)
next
  case (Cons u us)
  obtain bu where bu: "bm u = Some bu" "nxt = Some u" "seg bm (fb_next bu) (us @ p # vs) None"
    using Cons.prems(1) by auto
  have "fb_size bu < req" using Cons.prems(3) bu(1) by (simp add: block_size_def)
  moreover have "find_loop self bm (Some u) req =
     Option.bind (cursor_set_next self bm (if us = [] then Some u else Some (last us)) (fb_next b))
       (\<lambda>(self, bm). Some (Some p, self, bm(p \<mapsto> b\<lparr>fb_next := None\<rparr>)))"
    using Cons.prems bu by (intro Cons.IH[of "fb_next bu"]) (auto simp: cursor_next_def)
  ultimately show ?case using Cons.prems(2) bu(1,2)
    by (subst find_loop.simps) simp
qed

lemma find_loop_none:
  assumes "seg bm nxt ps None" "cursor_next self bm cur = Some nxt"
    "\<forall>p\<in>set ps. block_size bm p < req"
  shows "find_loop self bm cur req = Some (None, self, bm)"
  using assms
proof (induction ps arbitrary: cur nxt)
  case Nil
  then show ?case by (subst find_loop.simps) simp
next
  case (Cons p ps)
  obtain b where b: "bm p = Some b" "nxt = Some p" "seg bm (fb_next b) ps None"
    using Cons.prems(1) by auto
  have "fb_size b < req" using Cons.prems(3) b(1) by (simp add: block_size_def)
  moreover have "find_loop self bm (Some p) req = Some (None, self, bm)"
    using Cons.prems b by (intro Cons.IH[of "fb_next b"]) (auto simp: cursor_next_def)
  ultimately show ?case using Cons.prems(2) b by (subst find_loop.simps) simp
qed

lemma free_list_unlink:
  assumes "free_list self bm (us @ p # vs)" "bm p = Some b"
  shows "\<exists>self' bm'. cursor_set_next self bm (cursor_at us) (fb_next b) = Some (self', bm')
    \<and> free_list self' (bm'(p \<mapsto> x)) (us @ vs) \<and> allocated_memory self' = allocated_memory self
    \<and> (\<forall>q. block_size bm' q = block_size bm q)"
proof (cases us rule: rev_cases)
  case Nil
  then show ?thesis using assms
    by (auto simp: free_list_def cursor_at_def cursor_set_next_def)
next
  case (snoc us' u)
  have "distinct (us' @ [u] @ p # vs)" using assms(1) snoc by (simp add: free_list_def)
  moreover obtain bu where "seg bm (fb_next (genesis_block self)) us' (Some u)" "bm u = Some bu"
      "seg bm (fb_next b) vs None"
    using assms snoc by (auto simp: free_list_def seg_append)
  ultimately show ?thesis using assms(2) snoc
    by (auto simp: free_list_def cursor_at_def cursor_set_next_def seg_append block_size_def)
qed

lemma find_and_remove_some:
  assumes "free_list self bm (us @ p # vs)"
    and "\<forall>u\<in>set us. block_size bm u < req" "req \<le> block_size bm p"
  obtains self' bm' where "find_and_remove self bm req = Some (Some p, self', bm')"
    "free_list self' bm' (us @ vs)" "bm' p = Some \<lparr>fb_next = None, fb_size = block_size bm p\<rparr>"
    "allocated_memory self' = allocated_memory self" "\<And>q. block_size bm' q = block_size bm q"
proof -
  obtain b where b: "bm p = Some b"
    using assms(1) by (auto simp: free_list_def seg_append)
  obtain self' bm' where u: "cursor_set_next self bm (cursor_at us) (fb_next b) = Some (self', bm')"
    "free_list self' (bm'(p \<mapsto> b\<lparr>fb_next := None\<rparr>)) (us @ vs)"
    "allocated_memory self' = allocated_memory self" "\<forall>q. block_size bm' q = block_size bm q"
    using free_list_unlink[OF assms(1) b] by blast
  show ?thesis
  proof (rule that[of self' "bm'(p \<mapsto> b\<lparr>fb_next := None\<rparr>)"])
    show "find_and_remove self bm req = Some (Some p, self', bm'(p \<mapsto> b\<lparr>fb_next := None\<rparr>))"
      using find_loop_first_fit[of bm "fb_next (genesis_block self)" us p vs self None req b]
        assms u(1) b
      by (auto simp: find_and_remove_def free_list_def cursor_next_def cursor_at_def)
  qed (use u b in \<open>auto simp: block_size_def\<close>)
qed

lemma find_and_remove_none:
  assumes "free_list self bm ps" "\<forall>p\<in>set ps. block_size bm p < req"
  shows "find_and_remove self bm req = Some (None, self, bm)"
  using assms find_loop_none[of bm "fb_next (genesis_block self)" ps self None req]
  by (auto simp: find_and_remove_def free_list_def cursor_next_def)

lemma heap_insert_front:
  assumes "free_list self bm ps" "p \<notin> set ps" "bm p = Some \<lparr>fb_next = None, fb_size = n\<rparr>"
  obtains self' bm' where "heap_insert self bm p = Some (self', bm')" "free_list self' bm' (p # ps)"
    "allocated_memory self' = allocated_memory self" "\<And>q. block_size bm' q = block_size bm q"
  using assms by (auto simp: heap_insert_def free_list_def block_size_def)


section \<open>Blocks inside slabs\<close>

text \<open>
  \<^term>\<open>slabs\<close> are the page runs the heap holds for small blocks.  A block map sends
  the start of every block, free or handed out, to its size.
\<close>

definition block_ok :: "(usize \<times> usize) set \<Rightarrow> usize \<Rightarrow> usize \<Rightarrow> bool" where
  "block_ok slabs p n \<longleftrightarrow> MINIMUM_SIZE \<le> n \<and> DATA_ALIGNMENT dvd n \<and> DATA_ALIGNMENT dvd p
     \<and> (\<exists>(a, k) \<in> slabs. a \<le> p \<and> p + n \<le> a + k * PAGE_SIZE)"

definition blocks_ok :: "(usize \<times> usize) set \<Rightarrow> (usize \<rightharpoonup> usize) \<Rightarrow> bool" where
  "blocks_ok slabs blk \<longleftrightarrow> (\<forall>p n. blk p = Some n \<longrightarrow> block_ok slabs p n)
     \<and> (\<forall>p n q m. blk p = Some n \<longrightarrow> blk q = Some m \<longrightarrow> p \<noteq> q \<longrightarrow> p + n \<le> q \<or> q + m \<le> p)"

definition free_map :: "block_mem \<Rightarrow> usize list \<Rightarrow> usize \<rightharpoonup> usize" where
  "free_map bm ps = (\<lambda>p. if p \<in> set ps then Some (block_size bm p) else None)"

lemma blocks_okD:
  assumes "blocks_ok slabs blk" "blk p = Some n"
  shows "block_ok slabs p n" "blk q = Some m \<Longrightarrow> p \<noteq> q \<Longrightarrow> p + n \<le> q \<or> q + m \<le> p"
  using assms unfolding blocks_ok_def by blast+

lemma block_ok_pos: "block_ok slabs p n \<Longrightarrow> 0 < n"
  by (auto simp: block_ok_def MINIMUM_SIZE_def METADATA_SIZE_def)

lemma block_ok_sub:
  assumes "block_ok slabs p n" "p \<le> p'" "p' + n' \<le> p + n"
    "MINIMUM_SIZE \<le> n'" "DATA_ALIGNMENT dvd n'" "DATA_ALIGNMENT dvd p'"
  shows "block_ok slabs p' n'"
proof -
  obtain a k where "(a, k) \<in> slabs" "a \<le> p" "p + n \<le> a + k * PAGE_SIZE"
    using assms(1) by (auto simp: block_ok_def)
  then show ?thesis using assms(2-6)
    unfolding block_ok_def by (intro conjI bexI[of _ "(a, k)"]) auto
qed

lemma blocks_ok_mono: "blocks_ok slabs blk \<Longrightarrow> slabs \<subseteq> slabs' \<Longrightarrow> blocks_ok slabs' blk"
  unfolding blocks_ok_def block_ok_def by blast

lemma blocks_ok_shrink:
  assumes "blocks_ok slabs (blk(p \<mapsto> n))" "MINIMUM_SIZE \<le> q" "q \<le> n" "DATA_ALIGNMENT dvd q"
  shows "blocks_ok slabs (blk(p \<mapsto> q))"
proof -
  have n: "block_ok slabs p n" using blocks_okD(1)[OF assms(1)] by simp
  have "block_ok slabs p q"
    using assms n by (intro block_ok_sub[OF n]) (auto simp: block_ok_def)
  moreover have "p + q \<le> x \<or> x + m \<le> p" if "blk x = Some m" "x \<noteq> p" for x m
    using blocks_okD(2)[OF assms(1), of p n x m] that assms(3) by auto
  moreover have "block_ok slabs x m" if "blk x = Some m" "x \<noteq> p" for x m
    using blocks_okD(1)[OF assms(1), of x m] that by simp
  moreover have "x + m \<le> y \<or> y + l \<le> x" if "blk x = Some m" "blk y = Some l" "x \<noteq> p" "y \<noteq> p" "x \<noteq> y" for x m y l
    using blocks_okD(2)[OF assms(1), of x m y l] that by simp
  ultimately show ?thesis unfolding blocks_ok_def by (auto split: if_splits)
qed

lemma blocks_ok_add:
  assumes "blocks_ok slabs blk" "block_ok slabs p n"
    and "\<And>q m. blk q = Some m \<Longrightarrow> p + n \<le> q \<or> q + m \<le> p"
  shows "blocks_ok slabs (blk(p \<mapsto> n))" "blk p = None"
proof -
  have "False" if "blk p = Some m" for m
    using assms(3)[OF that] block_ok_pos[OF assms(2)] block_ok_pos[OF blocks_okD(1)[OF assms(1) that]]
    by simp
  then show "blk p = None" by (cases "blk p") auto
  show "blocks_ok slabs (blk(p \<mapsto> n))"
    using assms unfolding blocks_ok_def by (auto split: if_splits)
qed

lemma blocks_ok_split:
  assumes "blocks_ok slabs (blk(p \<mapsto> n))" "MINIMUM_SIZE \<le> q" "DATA_ALIGNMENT dvd q"
    "q + MINIMUM_SIZE \<le> n"
  shows "blocks_ok slabs (blk(p \<mapsto> q, p + q \<mapsto> n - q))" "(blk(p \<mapsto> q)) (p + q) = None"
proof -
  have n: "block_ok slabs p n" using blocks_okD(1)[OF assms(1)] by simp
  have q: "0 < q" using assms(2) by (simp add: MINIMUM_SIZE_def METADATA_SIZE_def)
  have 1: "blocks_ok slabs (blk(p \<mapsto> q))"
    using assms by (intro blocks_ok_shrink[OF assms(1)]) auto
  have 2: "block_ok slabs (p + q) (n - q)"
    using assms(2-4) n by (intro block_ok_sub[OF n]) (auto simp: block_ok_def)
  have 3: "p + q + (n - q) \<le> x \<or> x + m \<le> p + q" if "(blk(p \<mapsto> q)) x = Some m" for x m
    using blocks_okD(2)[OF assms(1), of p n x m] that assms(4) by (auto split: if_splits)
  show "blocks_ok slabs (blk(p \<mapsto> q, p + q \<mapsto> n - q))" "(blk(p \<mapsto> q)) (p + q) = None"
    using blocks_ok_add[OF 1 2 3] by auto
qed

lemma blocks_ok_slab:
  assumes "blocks_ok slabs blk" "0 < k" "PAGE_SIZE dvd a"
    and "\<And>b l. (b, l) \<in> slabs \<Longrightarrow> a + k * PAGE_SIZE \<le> b \<or> b + l * PAGE_SIZE \<le> a"
  shows "blocks_ok (insert (a, k) slabs) (blk(a \<mapsto> k * PAGE_SIZE))" "blk a = None"
proof -
  have 1: "blocks_ok (insert (a, k) slabs) blk" using assms(1) by (rule blocks_ok_mono) blast
  have 2: "block_ok (insert (a, k) slabs) a (k * PAGE_SIZE)"
    using assms(2,3) unfolding block_ok_def
    by (auto simp: PAGE_SIZE_def DATA_ALIGNMENT_def MINIMUM_SIZE_def METADATA_SIZE_def
        intro: dvd_trans[of 8 4096])
  have 3: "a + k * PAGE_SIZE \<le> q \<or> q + m \<le> a" if "blk q = Some m" for q m
    using blocks_okD(1)[OF assms(1) that] assms(4) by (fastforce simp: block_ok_def)
  show "blocks_ok (insert (a, k) slabs) (blk(a \<mapsto> k * PAGE_SIZE))" "blk a = None"
    using blocks_ok_add[OF 1 2 3] by auto
qed


section \<open>List invariant, with and without a block in hand\<close>

definition list_inv :: "(usize \<times> usize) set \<Rightarrow> heap \<Rightarrow> block_mem \<Rightarrow> (usize \<rightharpoonup> usize) \<Rightarrow> bool" where
  "list_inv slabs self bm small \<longleftrightarrow> (\<exists>fl. free_list self bm fl \<and> set fl \<inter> dom small = {}
     \<and> blocks_ok slabs (small ++ free_map bm fl))"

definition hand_inv ::
    "(usize \<times> usize) set \<Rightarrow> heap \<Rightarrow> block_mem \<Rightarrow> (usize \<rightharpoonup> usize) \<Rightarrow> usize \<Rightarrow> usize \<Rightarrow> bool" where
  "hand_inv slabs self bm small p sz \<longleftrightarrow> (\<exists>fl. free_list self bm fl \<and> set fl \<inter> dom small = {}
     \<and> p \<notin> set fl \<and> p \<notin> dom small \<and> bm p = Some \<lparr>fb_next = None, fb_size = sz\<rparr>
     \<and> blocks_ok slabs ((small ++ free_map bm fl)(p \<mapsto> sz)))"

lemma free_map_cong:
  "(\<And>q. q \<in> set ps \<Longrightarrow> block_size bm q = block_size bm' q) \<Longrightarrow> free_map bm ps = free_map bm' ps"
  by (auto simp: free_map_def)

lemma find_and_remove_cases:
  assumes "list_inv slabs self bm small"
  shows "find_and_remove self bm req = Some (None, self, bm)
    \<or> (\<exists>p sz self' bm'. find_and_remove self bm req = Some (Some p, self', bm') \<and> req \<le> sz
        \<and> hand_inv slabs self' bm' small p sz \<and> allocated_memory self' = allocated_memory self)"
proof -
  obtain fl where fl: "free_list self bm fl" "set fl \<inter> dom small = {}"
      "blocks_ok slabs (small ++ free_map bm fl)"
    using assms by (auto simp: list_inv_def)
  show ?thesis
  proof (cases "\<exists>p\<in>set fl. req \<le> block_size bm p")
    case False
    then show ?thesis using find_and_remove_none[OF fl(1)] by (auto simp: not_le)
  next
    case True
    then obtain us p vs where sp: "fl = us @ p # vs" "req \<le> block_size bm p"
        "\<forall>u\<in>set us. \<not> req \<le> block_size bm u"
      using split_list_first_prop[of fl "\<lambda>p. req \<le> block_size bm p"] by blast
    have d: "distinct (us @ p # vs)" using fl(1) sp(1) by (simp add: free_list_def)
    obtain self' bm' where f: "find_and_remove self bm req = Some (Some p, self', bm')"
        "free_list self' bm' (us @ vs)" "bm' p = Some \<lparr>fb_next = None, fb_size = block_size bm p\<rparr>"
        "allocated_memory self' = allocated_memory self" "\<And>q. block_size bm' q = block_size bm q"
      using find_and_remove_some[of self bm us p vs req] fl(1) sp by (auto simp: not_le)
    have "(small ++ free_map bm' (us @ vs))(p \<mapsto> block_size bm p) = small ++ free_map bm fl"
      using d sp(1) f(5) by (auto simp: free_map_def map_add_def fun_eq_iff)
    then have "hand_inv slabs self' bm' small p (block_size bm p)"
      unfolding hand_inv_def using f d fl(2,3) sp(1) by (intro exI[of _ "us @ vs"]) auto
    then show ?thesis using f sp(2) by blast
  qed
qed

lemma hand_inv_fresh_slab:
  assumes "list_inv slabs self bm small" "0 < k" "PAGE_SIZE dvd a"
    and "\<And>b l. (b, l) \<in> slabs \<Longrightarrow> a + k * PAGE_SIZE \<le> b \<or> b + l * PAGE_SIZE \<le> a"
  shows "hand_inv (insert (a, k) slabs) self (bm(a \<mapsto> \<lparr>fb_next = None, fb_size = k * PAGE_SIZE\<rparr>)) small
      a (k * PAGE_SIZE)"
proof -
  obtain fl where fl: "free_list self bm fl" "set fl \<inter> dom small = {}"
      "blocks_ok slabs (small ++ free_map bm fl)"
    using assms by (auto simp: list_inv_def)
  note new = blocks_ok_slab[OF fl(3) assms(2-4)]
  have "a \<notin> set fl" "a \<notin> dom small" using new(2) by (auto simp: free_map_def split: if_splits)
  moreover from this have "free_map (bm(a \<mapsto> \<lparr>fb_next = None, fb_size = k * PAGE_SIZE\<rparr>)) fl = free_map bm fl"
    by (auto simp: free_map_def block_size_def)
  ultimately show ?thesis unfolding hand_inv_def using fl new
    by (intro exI[of _ fl]) (auto simp: free_list_def)
qed

lemma split_if_necessary_ok:
  assumes "hand_inv slabs self bm small p sz" "req \<le> sz" "sz < 2 ^ 64"
    "MINIMUM_SIZE \<le> req" "DATA_ALIGNMENT dvd req"
  shows "\<exists>self' bm'. split_if_necessary self bm p req = Some (self', bm')
    \<and> list_inv slabs self' bm' (small(p \<mapsto> req)) \<and> allocated_memory self' = allocated_memory self"
proof -
  obtain fl where fl: "free_list self bm fl" "set fl \<inter> dom small = {}" "p \<notin> set fl" "p \<notin> dom small"
      "bm p = Some \<lparr>fb_next = None, fb_size = sz\<rparr>"
      "blocks_ok slabs ((small ++ free_map bm fl)(p \<mapsto> sz))"
    using assms(1) by (auto simp: hand_inv_def)
  have upd: "small(p \<mapsto> req) ++ free_map bm fl = (small ++ free_map bm fl)(p \<mapsto> req)"
    using fl(3) by (auto simp: free_map_def map_add_def fun_eq_iff)
  show ?thesis
  proof (cases "sz - req < MINIMUM_SIZE")
    case True
    have "blocks_ok slabs (small(p \<mapsto> req) ++ free_map bm fl)"
      unfolding upd using assms by (intro blocks_ok_shrink[OF fl(6)]) auto
    then have "list_inv slabs self bm (small(p \<mapsto> req))"
      unfolding list_inv_def using fl by (intro exI[of _ fl]) auto
    then show ?thesis using True assms(2) fl(5) by (simp add: split_if_necessary_def)
  next
    case False
    let ?bm = "bm(p \<mapsto> \<lparr>fb_next = None, fb_size = req\<rparr>, p + req \<mapsto> \<lparr>fb_next = None, fb_size = sz - req\<rparr>)"
    have le: "req + MINIMUM_SIZE \<le> sz" using False assms(2) by linarith
    note sp = blocks_ok_split[OF fl(6) assms(4,5) le]
    have al: "DATA_ALIGNMENT dvd sz" using blocks_okD(1)[OF fl(6), of p sz] by (simp add: block_ok_def)
    have ne: "p + req \<notin> set fl" "p + req \<notin> dom small" "p + req \<noteq> p"
      using sp(2) by (auto simp: free_map_def split: if_splits)
    have "MINIMUM_SIZE \<le> sz - req" "DATA_ALIGNMENT \<le> sz - req"
      using le by (auto simp: MINIMUM_SIZE_def)
    then have "fb_split bm p req = Some (p + req, ?bm)"
      using le fl(5) assms al
      by (simp add: fb_split_def get_remaining_size_def uadd_def usub_def fb_initialize_def Let_def
          dvd_eq_mod_eq_0[symmetric] dvd_diff_nat)
    moreover have "free_list self ?bm fl" using fl(1,3) ne(1) by (simp add: free_list_def)
    then obtain self' bm' where i: "heap_insert self ?bm (p + req) = Some (self', bm')"
        "free_list self' bm' ((p + req) # fl)" "allocated_memory self' = allocated_memory self"
        "\<And>q. block_size bm' q = block_size ?bm q"
      using heap_insert_front[of self ?bm fl "p + req" "sz - req"] ne(1) by auto
    moreover have "small(p \<mapsto> req) ++ free_map bm' ((p + req) # fl)
        = (small ++ free_map bm fl)(p \<mapsto> req, p + req \<mapsto> sz - req)"
      using fl(3) ne i(4) by (auto simp: free_map_def map_add_def fun_eq_iff block_size_def)
    then have "list_inv slabs self' bm' (small(p \<mapsto> req))"
      unfolding list_inv_def using i(2) sp(1) fl ne
      by (intro exI[of _ "(p + req) # fl"]) auto
    ultimately show ?thesis using False fl(5) assms(2) i by (simp add: split_if_necessary_def)
  qed
qed

lemma heap_insert_free:
  assumes "list_inv slabs self bm small" "small p = Some n"
  shows "\<exists>self' bm'. heap_insert self (bm(p \<mapsto> \<lparr>fb_next = None, fb_size = n\<rparr>)) p = Some (self', bm')
    \<and> list_inv slabs self' bm' (small(p := None)) \<and> allocated_memory self' = allocated_memory self"
proof -
  obtain fl where fl: "free_list self bm fl" "set fl \<inter> dom small = {}"
      "blocks_ok slabs (small ++ free_map bm fl)"
    using assms(1) by (auto simp: list_inv_def)
  have p: "p \<notin> set fl" using fl(2) assms(2) by auto
  let ?bm = "bm(p \<mapsto> \<lparr>fb_next = None, fb_size = n\<rparr>)"
  have "free_list self ?bm fl" using fl(1) p by (simp add: free_list_def)
  then obtain self' bm' where i: "heap_insert self ?bm p = Some (self', bm')"
      "free_list self' bm' (p # fl)" "allocated_memory self' = allocated_memory self"
      "\<And>q. block_size bm' q = block_size ?bm q"
    using heap_insert_front[of self ?bm fl p n] p by auto
  have "small(p := None) ++ free_map bm' (p # fl) = small ++ free_map bm fl"
    using p i(4) assms(2) by (auto simp: free_map_def map_add_def fun_eq_iff block_size_def)
  then have "list_inv slabs self' bm' (small(p := None))"
    unfolding list_inv_def using i(2) fl(2,3) by (intro exI[of _ "p # fl"]) auto
  then show ?thesis using i by auto
qed


lemma small_in_blocks:
  "set fl \<inter> dom small = {} \<Longrightarrow> small p = Some n \<Longrightarrow> (small ++ free_map bm fl) p = Some n"
  by (auto simp: map_add_def free_map_def)

section \<open>Accounting\<close>

definition live_bytes :: "(usize \<rightharpoonup> usize) \<Rightarrow> (usize \<times> usize) set \<Rightarrow> nat" where
  "live_bytes small big = (\<Sum>p\<in>dom small. the (small p)) + (\<Sum>(a, n)\<in>big. n * PAGE_SIZE)"

lemma live_bytes_bound:
  assumes ok: "blocks_ok (LP - big) blk" and sub: "\<And>p n. small p = Some n \<Longrightarrow> blk p = Some n"
    and fin: "finite (dom small)" "finite big" and big: "big \<subseteq> LP"
    and bounds: "\<And>a n. (a, n) \<in> LP \<Longrightarrow> 0 < a \<and> a + n * PAGE_SIZE < 2 ^ 64"
    and disj: "\<And>a n b k. (a, n) \<in> LP \<Longrightarrow> (b, k) \<in> LP \<Longrightarrow> (a, n) \<noteq> (b, k) \<Longrightarrow>
      a + n * PAGE_SIZE \<le> b \<or> b + k * PAGE_SIZE \<le> a"
  shows "live_bytes small big < 2 ^ 64"
proof -
  define S where "S = (\<Union>p\<in>dom small. {p..<p + the (small p)})"
  define B where "B = (\<Union>(a, n)\<in>big. {a..<a + n * PAGE_SIZE})"
  have in_slab: "\<exists>a k. (a, k) \<in> LP - big \<and> a \<le> p \<and> p + n \<le> a + k * PAGE_SIZE" if "small p = Some n" for p n
    using blocks_okD(1)[OF ok sub[OF that]] by (auto simp: block_ok_def)
  have "card S = (\<Sum>p\<in>dom small. card {p..<p + the (small p)})"
    unfolding S_def
  proof (rule card_UN_disjoint)
    show "\<forall>p\<in>dom small. \<forall>q\<in>dom small. p \<noteq> q \<longrightarrow> {p..<p + the (small p)} \<inter> {q..<q + the (small q)} = {}"
      using blocks_okD(2)[OF ok sub sub] by fastforce
  qed (use fin in auto)
  moreover have "card B = (\<Sum>x\<in>big. card (case x of (a, n) \<Rightarrow> {a..<a + n * PAGE_SIZE}))"
    unfolding B_def
  proof (rule card_UN_disjoint)
    show "\<forall>x\<in>big. \<forall>y\<in>big. x \<noteq> y \<longrightarrow> (case x of (a, n) \<Rightarrow> {a..<a + n * PAGE_SIZE}) \<inter>
        (case y of (a, n) \<Rightarrow> {a..<a + n * PAGE_SIZE}) = {}"
      using disj big by fastforce
  qed (use fin in auto)
  moreover have "S \<inter> B = {}"
  proof -
    have "p + n \<le> b \<or> b + l * PAGE_SIZE \<le> p" if p: "small p = Some n" and b: "(b, l) \<in> big" for p n b l
    proof -
      obtain a k where a: "(a, k) \<in> LP - big" "a \<le> p" "p + n \<le> a + k * PAGE_SIZE"
        using in_slab[OF p] by blast
      then show ?thesis using disj[of a k b l] b big by fastforce
    qed
    then show ?thesis unfolding S_def B_def by fastforce
  qed
  moreover have "finite S" "finite B" using fin by (auto simp: S_def B_def)
  ultimately have "card (S \<union> B) = live_bytes small big"
    by (simp add: card_Un_disjoint live_bytes_def case_prod_unfold)
  moreover have "S \<union> B \<subseteq> {1..<2 ^ 64}"
    using in_slab bounds big unfolding S_def B_def by fastforce
  then have "card (S \<union> B) \<le> card {1..<2 ^ 64 :: nat}" by (intro card_mono) auto
  ultimately show ?thesis by simp
qed


definition heap_inv ::
    "(usize \<times> usize) set \<Rightarrow> heap \<Rightarrow> block_mem \<Rightarrow> (usize \<rightharpoonup> usize) \<Rightarrow> (usize \<times> usize) set \<Rightarrow> bool" where
  "heap_inv LP self bm small big \<longleftrightarrow> finite (dom small) \<and> finite big \<and> big \<subseteq> LP
     \<and> list_inv (LP - big) self bm small \<and> allocated_memory self = live_bytes small big"

text \<open>
  What \<^verbatim>\<open>core::alloc::Layout\<close> and \<^verbatim>\<open>GlobalAlloc\<close> guarantee of a request: a non-zero size
  of at most \<^verbatim>\<open>isize::MAX\<close> and a power-of-two alignment.
\<close>

definition layout_ok :: "layout \<Rightarrow> bool" where
  "layout_ok l \<longleftrightarrow> 0 < layout_size l \<and> layout_size l < 2 ^ 63 \<and> is_power_of_two (layout_align l)"

lemma from_layout_ok:
  assumes "layout_ok l" "\<not> is_page_allocator_allocation l"
  obtains req where "from_layout l = Some req" "layout_size l \<le> req" "MINIMUM_SIZE \<le> req"
    "DATA_ALIGNMENT dvd req" "req \<le> PAGE_SIZE"
proof -
  define v where "v = max (layout_size l) MINIMUM_SIZE"
  have v: "v < PAGE_SIZE" "layout_align l \<le> DATA_ALIGNMENT"
    using assms(2)
    by (auto simp: is_page_allocator_allocation_def v_def MINIMUM_SIZE_def METADATA_SIZE_def
        DATA_ALIGNMENT_def PAGE_SIZE_def)
  obtain req where req: "align_up v DATA_ALIGNMENT = Some req"
    using align_up_defined[of DATA_ALIGNMENT v] v by (auto simp: DATA_ALIGNMENT_def PAGE_SIZE_def)
  note al = align_up_SomeD[OF req]
  have "req \<le> PAGE_SIZE"
  proof -
    obtain c where "req = 8 * c" using al(1) by (auto simp: DATA_ALIGNMENT_def)
    then show ?thesis using al(3) v(1) by (simp add: DATA_ALIGNMENT_def PAGE_SIZE_def)
  qed
  then show ?thesis using that[of req] al v req by (auto simp: from_layout_def v_def)
qed

lemma from_pages_eq:
  assumes "n * PAGE_SIZE < 2 ^ 64" shows "from_pages n = Some (n * PAGE_SIZE)"
  using assms
  by (auto simp: from_pages_def umul_def PAGE_SIZE_def DATA_ALIGNMENT_def intro!: align_up_exact)

lemma live_bytes_small:
  assumes "finite (dom small)" "p \<notin> dom small"
  shows "live_bytes (small(p \<mapsto> n)) big = live_bytes small big + n"
proof -
  have "(\<Sum>q\<in>dom small. the ((small(p \<mapsto> n)) q)) = (\<Sum>q\<in>dom small. the (small q))"
    using assms(2) by (intro sum.cong) auto
  then show ?thesis using assms by (simp add: live_bytes_def)
qed

lemma live_bytes_small_remove:
  assumes "finite (dom small)" "small p = Some n"
  shows "live_bytes small big = live_bytes (small(p := None)) big + n"
  using live_bytes_small[of "small(p := None)" p n big] assms by (simp add: fun_upd_idem)

lemma live_bytes_big:
  assumes "finite big" "(a, n) \<notin> big"
  shows "live_bytes small (insert (a, n) big) = live_bytes small big + n * PAGE_SIZE"
  using assms by (simp add: live_bytes_def)

lemma layout_pages:
  assumes "layout_ok l"
  obtains n where "minimum_amount_of_pages (layout_size l) = Some n" "0 < n"
    "layout_size l \<le> n * PAGE_SIZE"
proof -
  obtain n where n: "minimum_amount_of_pages (layout_size l) = Some n"
    using minimum_amount_of_pages_defined[of "layout_size l"] assms
    by (auto simp: layout_ok_def PAGE_SIZE_def)
  show ?thesis
    using that[OF n] minimum_amount_of_pages_SomeD[OF n] assms
    by (cases n) (auto simp: layout_ok_def)
qed

context page_provider
begin

lemma heap_live_bytes_bound:
  assumes "inv s" "big \<subseteq> live s" "finite big" "finite (dom small)" "list_inv (live s - big) self bm small"
  shows "live_bytes small big < 2 ^ 64"
proof -
  obtain fl where fl: "set fl \<inter> dom small = {}" "blocks_ok (live s - big) (small ++ free_map bm fl)"
    using assms(5) by (auto simp: list_inv_def)
  show ?thesis
    by (rule live_bytes_bound[OF fl(2) small_in_blocks[OF fl(1)] assms(4,3,2)])
      (use live_bounds[OF assms(1)] live_disjoint[OF assms(1)] in blast)+
qed

lemma page_alloc_case:
  assumes "inv s" "heap_inv (live s) self bm small big" "0 < n" "palloc s n = Some (Some (a, e), s')"
  shows "heap_inv (live s') (self\<lparr>allocated_memory := allocated_memory self + n * PAGE_SIZE\<rparr>) bm small
      (insert (a, n) big)" "(a, n) \<notin> big" "allocated_memory self + n * PAGE_SIZE < 2 ^ 64"
    "n * PAGE_SIZE < 2 ^ 64"
proof -
  note al = alloc_some[OF assms(1,3,4)]
  have fin: "finite big" "finite (dom small)" "big \<subseteq> live s" using assms(2) by (auto simp: heap_inv_def)
  show new: "(a, n) \<notin> big" using al fin by blast
  have "live s' - insert (a, n) big = live s - big" using al by auto
  then have li: "list_inv (live s' - insert (a, n) big) self bm small"
    using assms(2) by (simp add: heap_inv_def)
  have "live_bytes small (insert (a, n) big) < 2 ^ 64"
    using al fin li by (intro heap_live_bytes_bound[of s']) auto
  then show "allocated_memory self + n * PAGE_SIZE < 2 ^ 64"
    using assms(2) fin new by (simp add: heap_inv_def live_bytes_big)
  show "heap_inv (live s') (self\<lparr>allocated_memory := allocated_memory self + n * PAGE_SIZE\<rparr>) bm small
      (insert (a, n) big)"
    using assms(2) fin new al li by (auto simp: heap_inv_def live_bytes_big list_inv_def free_list_def)
  show "n * PAGE_SIZE < 2 ^ 64" using al by linarith
qed

lemma block_taken:
  assumes "inv s" "hand_inv (live s - big) self bm small p sz" "finite (dom small)" "finite big"
    "big \<subseteq> live s" "allocated_memory self = live_bytes small big"
    "req \<le> sz" "MINIMUM_SIZE \<le> req" "DATA_ALIGNMENT dvd req"
  shows "\<exists>self' bm'. split_if_necessary self bm p req = Some (self', bm')
    \<and> allocated_memory self' + req < 2 ^ 64 \<and> small p = None
    \<and> heap_inv (live s) (self'\<lparr>allocated_memory := allocated_memory self' + req\<rparr>) bm' (small(p \<mapsto> req)) big"
proof -
  have p: "p \<notin> dom small" and sz: "block_ok (live s - big) p sz"
    using assms(2) blocks_okD(1)[of _ _ p sz] by (fastforce simp: hand_inv_def)+
  have "sz < 2 ^ 64"
  proof -
    obtain a k where "(a, k) \<in> live s" "p + sz \<le> a + k * PAGE_SIZE" using sz by (auto simp: block_ok_def)
    then show ?thesis using live_bounds[OF assms(1), of a k] by linarith
  qed
  then obtain self' bm' where s: "split_if_necessary self bm p req = Some (self', bm')"
      "list_inv (live s - big) self' bm' (small(p \<mapsto> req))" "allocated_memory self' = allocated_memory self"
    using split_if_necessary_ok[OF assms(2,7) _ assms(8,9)] by blast
  have "live_bytes (small(p \<mapsto> req)) big < 2 ^ 64"
    using assms s(2) by (intro heap_live_bytes_bound[of s]) auto
  then show ?thesis using s p assms
    by (auto simp: live_bytes_small heap_inv_def list_inv_def free_list_def)
qed

lemma heap_alloc_pages:
  assumes "inv s" "heap_inv (live s) self bm small big" "layout_ok l" "is_page_allocator_allocation l"
  shows "\<exists>r s' self' bm'. heap_alloc palloc (s, self, bm) l = Some (r, s', self', bm') \<and> inv s'
    \<and> (if r = 0 then s' = s \<and> self' = self \<and> bm' = bm
       else \<exists>n. layout_size l \<le> n * PAGE_SIZE \<and> (r, n) \<notin> big \<and> PAGE_SIZE dvd r
         \<and> heap_inv (live s') self' bm' small (insert (r, n) big))"
proof -
  obtain n where n: "minimum_amount_of_pages (layout_size l) = Some n" "0 < n"
      "layout_size l \<le> n * PAGE_SIZE"
    using layout_pages[OF assms(3)] .
  obtain r s' where r: "palloc s n = Some (r, s')" using alloc_returns[OF assms(1) n(2)] by blast
  show ?thesis
  proof (cases r)
    case None
    then show ?thesis using r n assms alloc_none[OF assms(1) n(2)] by (simp add: heap_alloc_def)
  next
    case (Some ae)
    then obtain a e where ae: "palloc s n = Some (Some (a, e), s')" using r by (cases ae) auto
    note pa = page_alloc_case[OF assms(1,2) n(2) ae] and al = alloc_some[OF assms(1) n(2) ae]
    then show ?thesis using n ae assms(4)
      by (auto simp: heap_alloc_def umul_def uadd_def)
  qed
qed

lemma heap_alloc_block:
  assumes "inv s" "heap_inv (live s) self bm small big" "layout_ok l" "\<not> is_page_allocator_allocation l"
  shows "\<exists>r s' self' bm'. heap_alloc palloc (s, self, bm) l = Some (r, s', self', bm') \<and> inv s'
    \<and> (if r = 0 then s' = s \<and> self' = self \<and> bm' = bm
       else \<exists>req. from_layout l = Some req \<and> layout_size l \<le> req \<and> small r = None
         \<and> DATA_ALIGNMENT dvd r \<and> heap_inv (live s') self' bm' (small(r \<mapsto> req)) big)"
proof -
  have hi: "finite (dom small)" "finite big" "big \<subseteq> live s" "list_inv (live s - big) self bm small"
      "allocated_memory self = live_bytes small big"
    using assms(2) by (auto simp: heap_inv_def)
  obtain req where req: "from_layout l = Some req" "layout_size l \<le> req" "MINIMUM_SIZE \<le> req"
      "DATA_ALIGNMENT dvd req" "req \<le> PAGE_SIZE"
    using from_layout_ok[OF assms(3,4)] .
  have finish: ?thesis
    if inv': "inv s'" and big: "big \<subseteq> live s'" and hand: "hand_inv (live s' - big) self1 bm1 small p sz"
      and mem: "allocated_memory self1 = allocated_memory self" and le: "req \<le> sz"
      and run: "heap_alloc palloc (s, self, bm) l = do {
           (self, bm) \<leftarrow> split_if_necessary self1 bm1 p req;
           t \<leftarrow> uadd (allocated_memory self) req;
           Some (p, s', self\<lparr>allocated_memory := t\<rparr>, bm) }"
    for s' self1 bm1 p sz
  proof -
    obtain self' bm' where t: "split_if_necessary self1 bm1 p req = Some (self', bm')"
      "allocated_memory self' + req < 2 ^ 64" "small p = None"
      "heap_inv (live s') (self'\<lparr>allocated_memory := allocated_memory self' + req\<rparr>) bm' (small(p \<mapsto> req)) big"
      using block_taken[OF inv' hand hi(1,2) big _ le req(3,4)] mem hi(5) by auto
    have "block_ok (live s' - big) p sz"
      using hand blocks_okD(1)[of _ _ p sz] by (fastforce simp: hand_inv_def)
    then have "0 < p" "DATA_ALIGNMENT dvd p"
      using live_bounds[OF inv'] by (fastforce simp: block_ok_def)+
    then show ?thesis using t run inv' req by (auto simp: uadd_def)
  qed
  from find_and_remove_cases[OF hi(4), of req] show ?thesis
  proof (elim disjE exE conjE)
    fix p sz self1 bm1
    assume "find_and_remove self bm req = Some (Some p, self1, bm1)" "req \<le> sz"
      "hand_inv (live s - big) self1 bm1 small p sz" "allocated_memory self1 = allocated_memory self"
    then show ?thesis using assms(1,4) hi(3) req(1)
      by (intro finish[of s self1 bm1 p sz]) (auto simp: heap_alloc_def)
  next
    assume none: "find_and_remove self bm req = Some (None, self, bm)"
    have "req + PAGE_SIZE < 2 ^ 64" using req(5) by (simp add: PAGE_SIZE_def)
    then obtain n where n: "minimum_amount_of_pages req = Some n"
      using minimum_amount_of_pages_defined by blast
    have n0: "0 < n" "req \<le> n * PAGE_SIZE"
      using minimum_amount_of_pages_SomeD[OF n] req(3)
      by (cases n; auto simp: MINIMUM_SIZE_def METADATA_SIZE_def)+
    obtain r s' where r: "palloc s n = Some (r, s')" using alloc_returns[OF assms(1) n0(1)] by blast
    show ?thesis
    proof (cases r)
      case None
      then show ?thesis using r n none assms req(1) alloc_none[OF assms(1) n0(1)]
        by (simp add: heap_alloc_def)
    next
      case (Some ae)
      then obtain a e where ae: "palloc s n = Some (Some (a, e), s')" using r by (cases ae) auto
      note al = alloc_some[OF assms(1) n0(1) ae]
      have "hand_inv (insert (a, n) (live s - big)) self
          (bm(a \<mapsto> \<lparr>fb_next = None, fb_size = n * PAGE_SIZE\<rparr>)) small a (n * PAGE_SIZE)"
        using al alloc_apart[OF assms(1) n0(1) ae] by (intro hand_inv_fresh_slab[OF hi(4) n0(1)]) auto
      moreover have "insert (a, n) (live s - big) = live s' - big" using al hi(3) by auto
      moreover have "n * PAGE_SIZE < 2 ^ 64" using al by linarith
      then have "from_pages n = Some (n * PAGE_SIZE)" by (rule from_pages_eq)
      moreover have "fb_initialize bm a (n * PAGE_SIZE)
          = Some (bm(a \<mapsto> \<lparr>fb_next = None, fb_size = n * PAGE_SIZE\<rparr>))"
        using n0 req(3)
        by (auto simp: fb_initialize_def MINIMUM_SIZE_def METADATA_SIZE_def DATA_ALIGNMENT_def PAGE_SIZE_def)
      ultimately show ?thesis using al hi(3) none ae n n0 req(1) assms(4)
        by (intro finish[of s' self "bm(a \<mapsto> \<lparr>fb_next = None, fb_size = n * PAGE_SIZE\<rparr>)" a "n * PAGE_SIZE"])
          (auto simp: heap_alloc_def)
    qed
  qed
qed

lemma heap_dealloc_pages:
  assumes "inv s" "heap_inv (live s) self bm small big" "is_page_allocator_allocation l" "(p, n) \<in> big"
  shows "\<exists>s' self' bm'. heap_dealloc pdealloc (s, self, bm) p l = Some (s', self', bm') \<and> inv s'
    \<and> heap_inv (live s') self' bm' small (big - {(p, n)})"
proof -
  have hi: "finite (dom small)" "finite big" "big \<subseteq> live s" "list_inv (live s - big) self bm small"
      "allocated_memory self = live_bytes small big"
    using assms(2) by (auto simp: heap_inv_def)
  then have live: "(p, n) \<in> live s" using assms(4) by blast
  obtain s' where s': "pdealloc s p = Some (n, s')" "inv s'" "live s' = live s - {(p, n)}"
    using dealloc_live[OF assms(1) live] by blast
  have "live s' - (big - {(p, n)}) = live s - big" using s'(3) assms(4) by auto
  moreover have "live_bytes small big = live_bytes small (big - {(p, n)}) + n * PAGE_SIZE"
    using live_bytes_big[of "big - {(p, n)}" p n small] hi(2) assms(4) by (simp add: insert_absorb)
  ultimately show ?thesis using s' hi assms(3) live_bounds[OF assms(1) live]
    by (auto simp: heap_dealloc_def umul_def usub_def heap_inv_def list_inv_def free_list_def)
qed

lemma heap_dealloc_block:
  assumes "inv s" "heap_inv (live s) self bm small big" "\<not> is_page_allocator_allocation l"
    "from_layout l = Some req" "small p = Some req"
  shows "\<exists>self' bm'. heap_dealloc pdealloc (s, self, bm) p l = Some (s, self', bm')
    \<and> heap_inv (live s) self' bm' (small(p := None)) big"
proof -
  have hi: "finite (dom small)" "finite big" "big \<subseteq> live s" "list_inv (live s - big) self bm small"
      "allocated_memory self = live_bytes small big"
    using assms(2) by (auto simp: heap_inv_def)
  obtain fl where fl: "set fl \<inter> dom small = {}" "blocks_ok (live s - big) (small ++ free_map bm fl)"
    using hi(4) by (auto simp: list_inv_def)
  have "block_ok (live s - big) p req"
    using blocks_okD(1)[OF fl(2)] small_in_blocks[OF fl(1), of p req] assms(5) by blast
  then have "0 < p" using live_bounds[OF assms(1)] by (fastforce simp: block_ok_def)
  moreover obtain self' bm' where
    "heap_insert self (bm(p \<mapsto> \<lparr>fb_next = None, fb_size = req\<rparr>)) p = Some (self', bm')"
    "list_inv (live s - big) self' bm' (small(p := None))" "allocated_memory self' = allocated_memory self"
    using heap_insert_free[OF hi(4) assms(5)] by blast
  ultimately show ?thesis
    using assms(3,4) hi live_bytes_small_remove[OF hi(1) assms(5), of big]
    by (auto simp: heap_dealloc_def usub_def heap_inv_def list_inv_def free_list_def)
qed

end


section \<open>Properties\<close>

text \<open>Bytes handed out: the small blocks and the page allocations.\<close>

definition handed_out :: "(usize \<rightharpoonup> usize) \<Rightarrow> (usize \<times> usize) set \<Rightarrow> (usize \<times> usize) set" where
  "handed_out small big = {(p, n). small p = Some n} \<union> (\<lambda>(a, n). (a, n * PAGE_SIZE)) ` big"

lemma heap_inv_mixed:
  assumes "heap_inv LP self bm small big" "small x = Some y" "(a, k) \<in> big"
    and "\<And>a n b k. (a, n) \<in> LP \<Longrightarrow> (b, k) \<in> LP \<Longrightarrow> (a, n) \<noteq> (b, k) \<Longrightarrow>
      a + n * PAGE_SIZE \<le> b \<or> b + k * PAGE_SIZE \<le> a"
  shows "x + y \<le> a \<or> a + k * PAGE_SIZE \<le> x"
proof -
  obtain fl where fl: "set fl \<inter> dom small = {}" "blocks_ok (LP - big) (small ++ free_map bm fl)"
    and big: "big \<subseteq> LP"
    using assms(1) by (auto simp: heap_inv_def list_inv_def)
  have "block_ok (LP - big) x y"
    using blocks_okD(1)[OF fl(2)] small_in_blocks[OF fl(1), of x y] assms(2) by blast
  then obtain b l where "(b, l) \<in> LP - big" "b \<le> x" "x + y \<le> b + l * PAGE_SIZE"
    by (auto simp: block_ok_def)
  then show ?thesis using assms(3) assms(4)[of b l a k] big by fastforce
qed

lemma heap_inv_apart_small:
  assumes "heap_inv LP self bm (small(p \<mapsto> n)) big" "small p = None" "(q, m) \<in> handed_out small big"
    and disj: "\<And>a n b k. (a, n) \<in> LP \<Longrightarrow> (b, k) \<in> LP \<Longrightarrow> (a, n) \<noteq> (b, k) \<Longrightarrow>
      a + n * PAGE_SIZE \<le> b \<or> b + k * PAGE_SIZE \<le> a"
  shows "p + n \<le> q \<or> q + m \<le> p"
proof -
  obtain fl where fl: "set fl \<inter> dom (small(p \<mapsto> n)) = {}"
      "blocks_ok (LP - big) (small(p \<mapsto> n) ++ free_map bm fl)"
    using assms(1) by (auto simp: heap_inv_def list_inv_def)
  note in_blk = small_in_blocks[OF fl(1), of _ _ bm]
  show ?thesis
  proof (cases "small q = Some m")
    case True
    then have "q \<noteq> p" using assms(2) by auto
    then show ?thesis
      using blocks_okD(2)[OF fl(2) in_blk[of p n] in_blk[of q m]] True by auto
  next
    case False
    then show ?thesis
      using assms(3) heap_inv_mixed[OF assms(1) _ _ disj, of p n q] by (auto simp: handed_out_def)
  qed
qed

lemma heap_inv_apart_big:
  assumes "heap_inv LP self bm small (insert (a, k) big)" "(a, k) \<notin> big" "(q, m) \<in> handed_out small big"
    and disj: "\<And>a n b k. (a, n) \<in> LP \<Longrightarrow> (b, k) \<in> LP \<Longrightarrow> (a, n) \<noteq> (b, k) \<Longrightarrow>
      a + n * PAGE_SIZE \<le> b \<or> b + k * PAGE_SIZE \<le> a"
  shows "a + k * PAGE_SIZE \<le> q \<or> q + m \<le> a"
proof (cases "small q = Some m")
  case True
  then show ?thesis using heap_inv_mixed[OF assms(1) True _ disj, of a k] by auto
next
  case False
  then obtain l where "(q, l) \<in> big" "m = l * PAGE_SIZE"
    using assms(3) by (auto simp: handed_out_def)
  then show ?thesis using disj[of a k q l] assms(1,2) by (auto simp: heap_inv_def)
qed

lemma handed_out_small: "small p = None \<Longrightarrow>
    handed_out (small(p \<mapsto> n)) big = insert (p, n) (handed_out small big)"
  by (auto simp: handed_out_def split: if_splits)

lemma handed_out_big: "handed_out small (insert (a, n) big) = insert (a, n * PAGE_SIZE) (handed_out small big)"
  by (auto simp: handed_out_def)

lemma power_of_two_dvd_page:
  assumes "is_power_of_two a" "a \<le> PAGE_SIZE"
  shows "a dvd PAGE_SIZE"
proof -
  obtain k where k: "a = 2 ^ k" using assms(1) by (auto simp: is_power_of_two_def)
  have "(2 :: nat) ^ k \<le> 2 ^ 12" using assms(2) k by (simp add: PAGE_SIZE_def)
  then have "k \<le> 12" by (rule power_le_imp_le_exp[rotated]) simp
  then have "(2 :: nat) ^ k dvd 2 ^ 12" by (rule le_imp_power_dvd)
  then show ?thesis using k by (simp add: PAGE_SIZE_def)
qed

lemma power_of_two_dvd_word:
  assumes "is_power_of_two a" "a \<le> DATA_ALIGNMENT"
  shows "a dvd DATA_ALIGNMENT"
proof -
  obtain k where k: "a = 2 ^ k" using assms(1) by (auto simp: is_power_of_two_def)
  have "(2 :: nat) ^ k \<le> 2 ^ 3" using assms(2) k by (simp add: DATA_ALIGNMENT_def)
  then have "k \<le> 3" by (rule power_le_imp_le_exp[rotated]) simp
  then have "(2 :: nat) ^ k dvd 2 ^ 3" by (rule le_imp_power_dvd)
  then show ?thesis using k by (simp add: DATA_ALIGNMENT_def)
qed



text \<open>A fresh heap over the page allocator of the example: nothing is handed out.\<close>

lemma heap_new_inv: "heap_inv LP heap_new bm Map.empty {}"
  by (simp add: heap_inv_def live_bytes_def list_inv_def heap_new_def free_list_def exI[of _ "[]"]
      blocks_ok_def free_map_def)


text \<open>
  C5: releasing is safe and exact.  Freeing a small block with the layout it was
  allocated for, or a page allocation, never panics, removes exactly this region
  from the handed-out set and keeps the invariant, so its bytes can be handed out
  again and \<^verbatim>\<open>allocated_memory\<close> stays the sum of what is handed out.
\<close>

theorem heap_dealloc_safe:
  assumes "pa_inv (fst s)" "heap_inv (live_pages (fst s)) self bm small big"
  shows "(is_page_allocator_allocation l \<longrightarrow> (p, n) \<in> big \<longrightarrow>
      (\<exists>s' self' bm'. heap_dealloc static_dealloc (s, self, bm) p l = Some (s', self', bm')
         \<and> pa_inv (fst s') \<and> heap_inv (live_pages (fst s')) self' bm' small (big - {(p, n)})))
    \<and> (\<not> is_page_allocator_allocation l \<longrightarrow> from_layout l = Some n \<longrightarrow> small p = Some n \<longrightarrow>
      (\<exists>self' bm'. heap_dealloc static_dealloc (s, self, bm) p l = Some (s, self', bm')
         \<and> heap_inv (live_pages (fst s)) self' bm' (small(p := None)) big))"
  using pages.heap_dealloc_pages[of s self bm small big l p n]
    pages.heap_dealloc_block[of s self bm small big l n p] assms
  by (auto simp: case_prod_unfold)

lemma heap_example_inv: "heap_inv (live_pages pa_example)
    (heap_new\<lparr>allocated_memory := 2 * PAGE_SIZE\<rparr>) Map.empty Map.empty {(8192, 2)}"
proof -
  have "run_at [Free, Used, Last, Free, Free, Free] 1 2"
    by (auto simp: run_at_def run_status_def less_Suc_eq numeral_3_eq_3)
  then have "(8192, 2) \<in> live_pages pa_example"
    by (auto simp: live_pages_def pa_example_def PAGE_SIZE_def intro!: exI[of _ 1])
  then show ?thesis
    by (simp add: heap_inv_def live_bytes_def list_inv_def heap_new_def free_list_def exI[of _ "[]"]
      blocks_ok_def free_map_def)
qed

theorem heap_dealloc_safe_witness:
  "is_page_allocator_allocation \<lparr>layout_size = 8192, layout_align = 8\<rparr> \<and>
   (\<exists>s' self' bm'. heap_dealloc static_dealloc ((pa_example, \<lambda>_. 0),
        heap_new\<lparr>allocated_memory := 2 * PAGE_SIZE\<rparr>, Map.empty) 8192
      \<lparr>layout_size = 8192, layout_align = 8\<rparr> = Some (s', self', bm')
    \<and> heap_inv (live_pages (fst s')) self' bm' Map.empty {})"
  using heap_dealloc_safe[of "(pa_example, \<lambda>_. 0)"
      "heap_new\<lparr>allocated_memory := 2 * PAGE_SIZE\<rparr>" Map.empty Map.empty "{(8192, 2)}"
      "\<lparr>layout_size = 8192, layout_align = 8\<rparr>" 8192 2] pa_example_inv heap_example_inv
  by (auto simp: is_page_allocator_allocation_def PAGE_SIZE_def)

end
