(* ===== verification/PageTableEntry.thy ===== *)
theory PageTableEntry
  imports Klib
begin

text \<open>
  Sv39 page table entries, \<^verbatim>\<open>crates/hal/src/memory/page_table.rs\<close>.  An entry is a
  64-bit word; its setters and getters are the bit operations of the source.  The
  lemmas give each field's value after each setter, so clients never look at bits.
\<close>

datatype xwr_mode = PointerToNextLevel | ReadOnly | ReadWrite | ExecuteOnly | ReadExecute
  | ReadWriteExecute

fun xwr_bits :: "xwr_mode \<Rightarrow> byte" where
  "xwr_bits PointerToNextLevel = 0"
| "xwr_bits ReadOnly = 1"
| "xwr_bits ReadWrite = 3"
| "xwr_bits ExecuteOnly = 4"
| "xwr_bits ReadExecute = 5"
| "xwr_bits ReadWriteExecute = 7"

definition xwr_of :: "byte \<Rightarrow> xwr_mode run" where
  "xwr_of value =
     (if value = 0 then Some PointerToNextLevel
      else if value = 1 then Some ReadOnly
      else if value = 3 then Some ReadWrite
      else if value = 4 then Some ExecuteOnly
      else if value = 5 then Some ReadExecute
      else if value = 7 then Some ReadWriteExecute
      else None)"

fun is_writable :: "xwr_mode \<Rightarrow> bool" where
  "is_writable ReadWrite = True"
| "is_writable ReadWriteExecute = True"
| "is_writable _ = False"

fun as_readonly :: "xwr_mode \<Rightarrow> xwr_mode" where
  "as_readonly ReadWrite = ReadOnly"
| "as_readonly ReadWriteExecute = ReadExecute"
| "as_readonly other = other"

text \<open>The \<^verbatim>\<open>PROT_*\<close> constants come from generated headers and are parameters.\<close>

record prot_consts =
  PROT_NONE :: "32 word"
  PROT_READ :: "32 word"
  PROT_WRITE :: "32 word"
  PROT_EXEC :: "32 word"

definition from_prot :: "prot_consts \<Rightarrow> 32 word \<Rightarrow> errno + xwr_mode" where
  "from_prot k prot =
     (if prot = PROT_NONE k \<or> prot = PROT_READ k then Inr ReadOnly
      else if prot = PROT_EXEC k then Inr ExecuteOnly
      else if prot = (PROT_READ k OR PROT_WRITE k) then Inr ReadWrite
      else if prot = (PROT_READ k OR PROT_EXEC k) then Inr ReadExecute
      else if prot = (PROT_READ k OR PROT_WRITE k OR PROT_EXEC k) then Inr ReadWriteExecute
      else Inl EINVAL)"

type_synonym pte = "64 word"

definition VALID_BIT_POS :: usize where "VALID_BIT_POS = 0"
definition READ_BIT_POS :: usize where "READ_BIT_POS = 1"
definition USER_MODE_ACCESSIBLE_BIT_POS :: usize where "USER_MODE_ACCESSIBLE_BIT_POS = 4"
definition ACCESSED_BIT_POS :: usize where "ACCESSED_BIT_POS = 6"
definition DIRTY_BIT_POS :: usize where "DIRTY_BIT_POS = 7"
definition PHYSICAL_PAGE_BIT_POS :: usize where "PHYSICAL_PAGE_BIT_POS = 10"
definition PHYSICAL_PAGE_BITS :: "64 word" where "PHYSICAL_PAGE_BITS = 0xfffffffffff"
definition PBMT_BIT_POS :: usize where "PBMT_BIT_POS = 61"

lemmas pte_positions = VALID_BIT_POS_def READ_BIT_POS_def USER_MODE_ACCESSIBLE_BIT_POS_def
  ACCESSED_BIT_POS_def DIRTY_BIT_POS_def PHYSICAL_PAGE_BIT_POS_def PBMT_BIT_POS_def

definition is_page_aligned :: "64 word \<Rightarrow> bool" where
  "is_page_aligned a \<longleftrightarrow> a AND 0xFFF = 0"

definition set_validity :: "bool \<Rightarrow> pte \<Rightarrow> pte run" where
  "set_validity is_valid e = set_or_clear_bit e is_valid VALID_BIT_POS"

definition get_validity :: "pte \<Rightarrow> bool run" where
  "get_validity e = get_bit e VALID_BIT_POS"

definition set_user_mode_accessible :: "bool \<Rightarrow> pte \<Rightarrow> pte run" where
  "set_user_mode_accessible b e = set_or_clear_bit e b USER_MODE_ACCESSIBLE_BIT_POS"

definition get_user_mode_accessible :: "pte \<Rightarrow> bool run" where
  "get_user_mode_accessible e = get_bit e USER_MODE_ACCESSIBLE_BIT_POS"

definition set_accessed_and_dirty :: "pte \<Rightarrow> pte run" where
  "set_accessed_and_dirty e = do {
     e \<leftarrow> set_or_clear_bit e True ACCESSED_BIT_POS;
     set_or_clear_bit e True DIRTY_BIT_POS
   }"

definition set_pbmt_io :: "pte \<Rightarrow> pte run" where
  "set_pbmt_io e = set_multiple_bits e (2 :: byte) 2 PBMT_BIT_POS"

definition set_xwr_mode :: "xwr_mode \<Rightarrow> pte \<Rightarrow> pte run" where
  "set_xwr_mode mode e = set_multiple_bits e (xwr_bits mode) 3 READ_BIT_POS"

definition get_xwr_mode :: "pte \<Rightarrow> xwr_mode run" where
  "get_xwr_mode e = do {
     bits \<leftarrow> get_multiple_bits e 3 READ_BIT_POS;
     check (unat bits < 256);
     xwr_of (ucast bits)
   }"

definition is_leaf :: "pte \<Rightarrow> bool run" where
  "is_leaf e = do { m \<leftarrow> get_xwr_mode e; Some (m \<noteq> PointerToNextLevel) }"

definition set_page_bits :: "64 word \<Rightarrow> pte \<Rightarrow> pte" where
  "set_page_bits address original =
     (original AND NOT (push_bit PHYSICAL_PAGE_BIT_POS PHYSICAL_PAGE_BITS))
     OR push_bit PHYSICAL_PAGE_BIT_POS (drop_bit 12 address AND PHYSICAL_PAGE_BITS)"

definition set_physical_address :: "64 word \<Rightarrow> pte \<Rightarrow> pte" where
  "set_physical_address address e = set_page_bits address e"

definition set_leaf_address :: "64 word \<Rightarrow> pte \<Rightarrow> pte run" where
  "set_leaf_address address e = do {
     check (is_page_aligned address);
     Some (set_page_bits address e)
   }"

definition get_physical_address :: "pte \<Rightarrow> 64 word" where
  "get_physical_address e = push_bit 12 (drop_bit PHYSICAL_PAGE_BIT_POS e AND PHYSICAL_PAGE_BITS)"

definition target_page_table :: "pte \<Rightarrow> 64 word run" where
  "target_page_table e = do {
     l \<leftarrow> is_leaf e;
     check (\<not> l);
     let addr = get_physical_address e;
     check (addr \<noteq> 0);
     Some addr
   }"

definition page_table_index :: "usize \<Rightarrow> nat \<Rightarrow> nat run" where
  "page_table_index virtual_address level = do {
     check (level \<le> 2);
     Some (drop_bit (12 + 9 * level) virtual_address AND 0x1ff)
   }"

section \<open>Fields\<close>

text \<open>The fields of an entry as the hardware reads them.\<close>

definition pte_valid :: "pte \<Rightarrow> bool" where "pte_valid e = bit e 0"
definition pte_user :: "pte \<Rightarrow> bool" where "pte_user e = bit e 4"
definition pte_xwr :: "pte \<Rightarrow> 64 word" where "pte_xwr e = take_bit 3 (drop_bit 1 e)"
definition pte_addr :: "pte \<Rightarrow> 64 word" where "pte_addr e = push_bit 12 (take_bit 44 (drop_bit 10 e))"

definition pte_leaf :: "pte \<Rightarrow> bool" where "pte_leaf e \<longleftrightarrow> pte_xwr e \<noteq> 0"

lemmas pte_fields = pte_valid_def pte_user_def pte_xwr_def pte_addr_def

lemma page_bits_mask: "PHYSICAL_PAGE_BITS = mask 44"
  by (simp add: PHYSICAL_PAGE_BITS_def mask_eq_exp_minus_1)

lemma get_validity_eq [simp]: "get_validity e = Some (pte_valid e)"
  by (simp add: get_validity_def get_bit_eq pte_positions pte_fields)

lemma get_user_mode_accessible_eq [simp]: "get_user_mode_accessible e = Some (pte_user e)"
  by (simp add: get_user_mode_accessible_def get_bit_eq pte_positions pte_fields)

lemma get_physical_address_eq [simp]: "get_physical_address e = pte_addr e"
  by (simp add: get_physical_address_def pte_fields page_bits_mask pte_positions take_bit_eq_mask)

lemma set_validity_eq [simp]: "set_validity b e = Some (if b then set_bit 0 e else unset_bit 0 e)"
  by (simp add: set_validity_def set_or_clear_bit_eq pte_positions)

lemma set_user_eq [simp]:
  "set_user_mode_accessible b e = Some (if b then set_bit 4 e else unset_bit 4 e)"
  by (simp add: set_user_mode_accessible_def set_or_clear_bit_eq pte_positions)

lemma pte_xwr_small: "unat (pte_xwr e) < 8"
proof -
  have "unat (pte_xwr e) = take_bit 3 (unat (drop_bit 1 e))"
    by (simp add: pte_xwr_def unsigned_take_bit_eq)
  then show ?thesis using take_bit_nat_less_exp[of 3] by simp
qed

lemma get_xwr_mode_eq: "get_xwr_mode e = xwr_of (ucast (pte_xwr e))"
proof -
  have "get_multiple_bits e 3 READ_BIT_POS = Some (pte_xwr e)"
    by (simp add: get_multiple_bits_eq pte_positions pte_xwr_def)
  moreover have "unat (pte_xwr e) < 256" using pte_xwr_small[of e] by simp
  ultimately show ?thesis by (simp add: get_xwr_mode_def)
qed

lemma xwr_of_bits [simp]: "xwr_of (xwr_bits m) = Some m"
  by (cases m) (simp_all add: xwr_of_def)

lemma xwr_of_ucast:
  "xwr_of (ucast (pte_xwr e)) = Some PointerToNextLevel \<longleftrightarrow> pte_xwr e = 0"
proof -
  have "unat (ucast (pte_xwr e) :: byte) = unat (pte_xwr e)"
    using pte_xwr_small[of e] by (simp add: unsigned_ucast_eq take_bit_nat_eq_self)
  then have "(ucast (pte_xwr e) :: byte) = 0 \<longleftrightarrow> pte_xwr e = 0"
    by (metis unsigned_0 unsigned_eq_0_iff)
  then show ?thesis by (auto simp: xwr_of_def)
qed

lemma set_xwr_mode_spec:
  obtains e' where "set_xwr_mode m e = Some e'" "pte_valid e' = pte_valid e"
    "pte_user e' = pte_user e" "pte_addr e' = pte_addr e" "get_xwr_mode e' = Some m"
proof -
  obtain e' where e': "set_xwr_mode m e = Some e'"
    "\<And>k. k < 64 \<Longrightarrow> bit e' k = (if 1 \<le> k \<and> k < 4 then bit (xwr_bits m) (k - 1) else bit e k)"
    using set_multiple_bits_spec[of 1 3, where 'w = 64 and 'v = 8, of e "xwr_bits m"]
    by (auto simp: set_xwr_mode_def pte_positions)
  have "(ucast (pte_xwr e') :: byte) = xwr_bits m"
  proof (rule bit_word_eqI)
    fix n assume "n < LENGTH(8)"
    have "\<not> bit (xwr_bits m) n" if "3 \<le> n"
      using that \<open>n < LENGTH(8)\<close> by (cases m) (auto simp: bit_simps numeral_3_eq_3 le_Suc_eq bit_1_iff less_Suc_eq eval_nat_numeral bit_numeral_simps)
    then show "bit (ucast (pte_xwr e') :: byte) n = bit (xwr_bits m) n"
      using \<open>n < LENGTH(8)\<close> e'(2)[of "Suc n"] by (auto simp: pte_xwr_def bit_simps)
  qed
  then have "get_xwr_mode e' = Some m" by (simp add: get_xwr_mode_eq)
  moreover have "pte_addr e' = pte_addr e"
    by (rule bit_word_eqI) (use e'(2) in \<open>auto simp: pte_addr_def bit_simps\<close>)
  ultimately show ?thesis using that[OF e'(1)] e'(2)[of 0] e'(2)[of 4] by (simp add: pte_fields)
qed

lemma set_bit_fields [simp]:
  "pte_valid (set_bit 0 e)" "pte_user (set_bit 0 e) = pte_user e"
  "pte_addr (set_bit 0 e) = pte_addr e" "pte_xwr (set_bit 0 e) = pte_xwr e"
  "pte_user (set_bit 4 e)" "pte_valid (set_bit 4 e) = pte_valid e"
  "pte_addr (set_bit 4 e) = pte_addr e" "pte_xwr (set_bit 4 e) = pte_xwr e"
  "\<not> pte_user (unset_bit 4 e)" "pte_valid (unset_bit 4 e) = pte_valid e"
  "pte_addr (unset_bit 4 e) = pte_addr e" "pte_xwr (unset_bit 4 e) = pte_xwr e"
  by (auto simp: pte_fields bit_simps intro!: bit_word_eqI)

lemma set_page_bits_fields [simp]:
  "pte_valid (set_page_bits a e) = pte_valid e" "pte_user (set_page_bits a e) = pte_user e"
  "pte_xwr (set_page_bits a e) = pte_xwr e"
  by (auto simp: set_page_bits_def pte_fields bit_simps page_bits_mask pte_positions intro!: bit_word_eqI)

lemma page_aligned_bits: "is_page_aligned a \<Longrightarrow> k < 12 \<Longrightarrow> \<not> bit a k"
proof -
  assume "is_page_aligned a" "k < 12"
  moreover have "(0xFFF :: 64 word) = mask 12" by (simp add: mask_eq_exp_minus_1)
  ultimately have "bit (a AND mask 12) k = False" by (simp add: is_page_aligned_def)
  then show ?thesis using \<open>k < 12\<close> by (simp add: bit_simps)
qed

lemma word_high_bits:
  assumes "unat (a :: 64 word) < 2 ^ n" "bit a k" shows "k < n"
proof -
  have "bit (take_bit n (unat a)) k"
    using assms by (simp add: take_bit_nat_eq_self bit_unsigned_iff)
  then show ?thesis by (simp add: bit_take_bit_iff)
qed

lemma set_page_bits_addr:
  assumes "is_page_aligned a" "unat a < 2 ^ 56"
  shows "pte_addr (set_page_bits a e) = a"
proof (rule bit_word_eqI)
  fix n assume "n < LENGTH(64)"
  show "bit (pte_addr (set_page_bits a e)) n = bit a n"
  proof (cases "12 \<le> n \<and> n < 56")
    case True
    then show ?thesis using \<open>n < LENGTH(64)\<close>
      by (auto simp: set_page_bits_def pte_fields bit_simps page_bits_mask pte_positions)
  next
    case False
    then have "\<not> bit a n"
      using page_aligned_bits[OF assms(1), of n] word_high_bits[OF assms(2), of n] by auto
    then show ?thesis using False by (auto simp: pte_addr_def bit_simps)
  qed
qed

text \<open>An entry turned into a leaf, and an empty entry turned into a pointer to a table.\<close>

lemma make_leaf_spec:
  assumes "is_page_aligned a" "unat a < 2 ^ 56"
  obtains e' where "do { e \<leftarrow> set_xwr_mode m e; e \<leftarrow> set_validity True e; e \<leftarrow> set_leaf_address a e;
      set_user_mode_accessible u e } = Some e'"
    "pte_valid e'" "pte_user e' = u" "pte_addr e' = a" "get_xwr_mode e' = Some m"
proof -
  obtain e1 where e1: "set_xwr_mode m e = Some e1" "get_xwr_mode e1 = Some m"
    using set_xwr_mode_spec[of m e] by metis
  show ?thesis
    using e1 assms
    by (intro that[of "if u then set_bit 4 (set_page_bits a (set_bit 0 e1))
          else unset_bit 4 (set_page_bits a (set_bit 0 e1))"])
      (auto simp: set_leaf_address_def set_page_bits_addr get_xwr_mode_eq)
qed

lemma make_table_entry:
  assumes "is_page_aligned t" "unat t < 2 ^ 56"
  shows "pte_valid (set_bit 0 (set_page_bits t 0))" "pte_addr (set_bit 0 (set_page_bits t 0)) = t"
    "get_xwr_mode (set_bit 0 (set_page_bits t 0)) = Some PointerToNextLevel"
proof -
  have "pte_xwr 0 = 0" by (simp add: pte_xwr_def)
  then show "pte_valid (set_bit 0 (set_page_bits t 0))" "pte_addr (set_bit 0 (set_page_bits t 0)) = t"
    "get_xwr_mode (set_bit 0 (set_page_bits t 0)) = Some PointerToNextLevel"
    using assms by (auto simp: set_page_bits_addr get_xwr_mode_eq xwr_of_def)
qed

lemma is_leaf_eq: "get_xwr_mode e = Some m \<Longrightarrow> is_leaf e = Some (m \<noteq> PointerToNextLevel)"
  by (simp add: is_leaf_def)

lemma pte_leaf_iff: "get_xwr_mode e = Some m \<Longrightarrow> pte_leaf e \<longleftrightarrow> m \<noteq> PointerToNextLevel"
  using xwr_of_ucast[of e] by (auto simp: pte_leaf_def get_xwr_mode_eq)

lemma target_page_table_eq:
  "get_xwr_mode e = Some PointerToNextLevel \<Longrightarrow> pte_addr e \<noteq> 0 \<Longrightarrow> target_page_table e = Some (pte_addr e)"
  by (simp add: target_page_table_def is_leaf_def)

lemma page_table_index_eq:
  "level \<le> 2 \<Longrightarrow> page_table_index va level = Some (va div 2 ^ (12 + 9 * level) mod 512)"
proof -
  have "(0x1ff :: nat) = mask 9" by (simp add: mask_eq_exp_minus_1)
  then have "drop_bit k va AND 0x1ff = take_bit 9 (drop_bit k va)" for k
    by (simp only: take_bit_eq_mask)
  then show "level \<le> 2 \<Longrightarrow> ?thesis"
    by (simp add: page_table_index_def take_bit_eq_mod drop_bit_eq_div)
qed

end
