(* ===== verification/PageTables.thy ===== *)
theory PageTables
  imports PageTableEntry
begin

text \<open>
  The three-level page tables of an address space, \<^verbatim>\<open>RootPageTableHolder\<close> in
  \<^verbatim>\<open>crates/kernel/src/memory/page_tables.rs\<close>.  The tables are an explicit store from
  physical address to 512 entries.  \<^verbatim>\<open>Box::new(PageTable::zero())\<close> takes its address
  from \<^verbatim>\<open>boxes\<close>, the addresses the heap will answer with; an empty list is the
  allocation failure that aborts.
\<close>

record mapping_entry =
  range_start :: usize
  range_end :: usize
  mapping_name :: string
  privileges :: xwr_mode

record root_page_table_holder =
  root_table :: "64 word"
  already_mapped :: "mapping_entry list"
  tables :: "64 word \<rightharpoonup> pte list"
  boxes :: "64 word list"

definition GiB :: "nat \<Rightarrow> nat" where "GiB n = n * 2 ^ 30"
definition MiB :: "nat \<Rightarrow> nat" where "MiB n = n * 2 ^ 20"

definition mapping_contains :: "mapping_entry \<Rightarrow> usize \<times> usize \<Rightarrow> bool" where
  "mapping_contains m rng \<longleftrightarrow> range_start m \<le> snd rng \<and> fst rng \<le> range_end m"

definition va_page_aligned :: "usize \<Rightarrow> bool" where
  "va_page_aligned a \<longleftrightarrow> a AND 0xFFF = 0"

definition box_page_table :: "root_page_table_holder \<Rightarrow> (64 word \<times> root_page_table_holder) run" where
  "box_page_table self = (case boxes self of
       [] \<Rightarrow> None
     | t # ts \<Rightarrow> Some (t, self\<lparr>tables := (tables self)(t \<mapsto> replicate 512 0), boxes := ts\<rparr>))"

definition holder_empty :: "64 word list \<Rightarrow> root_page_table_holder run" where
  "holder_empty pool = do {
     (t, self) \<leftarrow> box_page_table \<lparr>root_table = 0, already_mapped = [], tables = Map.empty, boxes = pool\<rparr>;
     Some (self\<lparr>root_table := t\<rparr>)
   }"

definition get_entry :: "root_page_table_holder \<Rightarrow> 64 word \<Rightarrow> usize \<Rightarrow> nat \<Rightarrow> pte run" where
  "get_entry self table virtual_address level = do {
     i \<leftarrow> page_table_index virtual_address level;
     xs \<leftarrow> tables self table;
     index xs i
   }"

definition put_entry ::
    "root_page_table_holder \<Rightarrow> 64 word \<Rightarrow> usize \<Rightarrow> nat \<Rightarrow> pte \<Rightarrow> root_page_table_holder run" where
  "put_entry self table virtual_address level e = do {
     i \<leftarrow> page_table_index virtual_address level;
     xs \<leftarrow> tables self table;
     ys \<leftarrow> index_set xs i e;
     Some (self\<lparr>tables := (tables self)(table \<mapsto> ys)\<rparr>)
   }"

text \<open>The third-level table that \<^verbatim>\<open>walk_to_entry\<close> ends in, if the entry there is valid.\<close>

definition walk_to_table :: "root_page_table_holder \<Rightarrow> usize \<Rightarrow> 64 word option run" where
  "walk_to_table self address = do {
     first \<leftarrow> get_entry self (root_table self) address 2;
     v \<leftarrow> get_validity first;
     if \<not> v then Some None else do {
     second_table \<leftarrow> target_page_table first;
     second \<leftarrow> get_entry self second_table address 1;
     v \<leftarrow> get_validity second;
     if \<not> v then Some None else do {
     third_table \<leftarrow> target_page_table second;
     third \<leftarrow> get_entry self third_table address 0;
     v \<leftarrow> get_validity third;
     if \<not> v then Some None else Some (Some third_table) }}
   }"

definition walk_to_entry :: "root_page_table_holder \<Rightarrow> usize \<Rightarrow> pte option run" where
  "walk_to_entry self address = do {
     t \<leftarrow> walk_to_table self address;
     case t of None \<Rightarrow> Some None
     | Some table \<Rightarrow> do { e \<leftarrow> get_entry self table address 0; Some (Some e) }
   }"

definition update_leaf ::
    "root_page_table_holder \<Rightarrow> usize \<Rightarrow> (pte \<Rightarrow> pte run) \<Rightarrow> root_page_table_holder run" where
  "update_leaf self address f = do {
     t \<leftarrow> walk_to_table self address;
     case t of None \<Rightarrow> None
     | Some table \<Rightarrow> do {
         e \<leftarrow> get_entry self table address 0;
         e \<leftarrow> f e;
         put_entry self table address 0 e }
   }"

function mprotect_loop ::
    "root_page_table_holder \<Rightarrow> usize \<Rightarrow> usize \<Rightarrow> xwr_mode \<Rightarrow> usize \<Rightarrow> root_page_table_holder run" where
  "mprotect_loop self addr sz mode offset =
     (if offset < sz then do {
        page_addr \<leftarrow> uadd addr offset;
        self \<leftarrow> update_leaf self page_addr (set_xwr_mode mode);
        mprotect_loop self addr sz mode (offset + PAGE_SIZE)
      } else Some self)"
  by pat_completeness auto
termination
  by (relation "measure (\<lambda>(_, _, sz, _, offset). sz - offset)") (auto simp: PAGE_SIZE_def)

declare mprotect_loop.simps [simp del]

primrec reprotect_first :: "mapping_entry list \<Rightarrow> usize \<Rightarrow> xwr_mode \<Rightarrow> mapping_entry list" where
  "reprotect_first [] addr mode = []"
| "reprotect_first (m # ms) addr mode =
     (if range_start m \<le> addr \<and> addr < range_end m then m\<lparr>privileges := mode\<rparr> # ms
      else m # reprotect_first ms addr mode)"

definition mprotect ::
    "root_page_table_holder \<Rightarrow> usize \<Rightarrow> usize \<Rightarrow> xwr_mode \<Rightarrow> root_page_table_holder run" where
  "mprotect self addr sz mode = do {
     check (va_page_aligned addr);
     check (sz > 0 \<and> sz mod PAGE_SIZE = 0);
     self \<leftarrow> mprotect_loop self addr sz mode 0;
     Some (self\<lparr>already_mapped := reprotect_first (already_mapped self) addr mode\<rparr>)
   }"

section \<open>Mapping\<close>

text \<open>
  The step ``if the entry has no table yet, allocate one'' of \<^verbatim>\<open>map\<close>, followed by
  \<^verbatim>\<open>target_page_table_mut\<close>.
\<close>

definition ensure_table ::
    "root_page_table_holder \<Rightarrow> 64 word \<Rightarrow> usize \<Rightarrow> nat \<Rightarrow> (64 word \<times> root_page_table_holder) run" where
  "ensure_table self table va level = do {
     e \<leftarrow> get_entry self table va level;
     self \<leftarrow> (if get_physical_address e = 0 then do {
               (page, self) \<leftarrow> box_page_table self;
               let e = set_physical_address page e;
               e \<leftarrow> set_validity True e;
               put_entry self table va level e }
             else Some self);
     e \<leftarrow> get_entry self table va level;
     t \<leftarrow> target_page_table e;
     Some (t, self)
   }"

definition write_leaf ::
    "root_page_table_holder \<Rightarrow> 64 word \<Rightarrow> usize \<Rightarrow> nat \<Rightarrow> usize \<Rightarrow> xwr_mode \<Rightarrow> bool
     \<Rightarrow> root_page_table_holder run" where
  "write_leaf self table va level pa mode user = do {
     e \<leftarrow> get_entry self table va level;
     e \<leftarrow> do { e \<leftarrow> set_xwr_mode mode e; e \<leftarrow> set_validity True e;
              e \<leftarrow> set_leaf_address (word_of_nat pa) e; set_user_mode_accessible user e };
     put_entry self table va level e
   }"

definition check_unused :: "root_page_table_holder \<Rightarrow> 64 word \<Rightarrow> usize \<Rightarrow> nat \<Rightarrow> unit run" where
  "check_unused self table va level = do {
     e \<leftarrow> get_entry self table va level;
     v \<leftarrow> get_validity e;
     check (\<not> v \<and> get_physical_address e = 0)
   }"

definition can_be_mapped_with :: "usize \<Rightarrow> usize \<Rightarrow> usize \<Rightarrow> usize \<Rightarrow> usize \<Rightarrow> bool run" where
  "can_be_mapped_with va pa sz mapped_bytes offset =
     (if mapped_bytes \<le> sz - offset then do {
        v \<leftarrow> uadd va offset;
        a \<leftarrow> is_aligned v mapped_bytes;
        if a then do { p \<leftarrow> uadd pa offset; is_aligned p mapped_bytes } else Some False
      } else Some False)"

definition map_step ::
    "root_page_table_holder \<Rightarrow> usize \<Rightarrow> usize \<Rightarrow> usize \<Rightarrow> xwr_mode \<Rightarrow> bool \<Rightarrow> usize
     \<Rightarrow> (usize \<times> root_page_table_holder) run" where
  "map_step self va pa sz mode user offset = do {
     v \<leftarrow> uadd va offset;
     p \<leftarrow> uadd pa offset;
     gib \<leftarrow> can_be_mapped_with va pa sz (GiB 1) offset;
     if gib then do {
       check_unused self (root_table self) v 2;
       self \<leftarrow> write_leaf self (root_table self) v 2 p mode user;
       Some (offset + GiB 1, self)
     } else do {
     mib \<leftarrow> can_be_mapped_with va pa sz (MiB 2) offset;
     if mib then do {
       (second, self) \<leftarrow> ensure_table self (root_table self) v 2;
       check_unused self second v 1;
       self \<leftarrow> write_leaf self second v 1 p mode user;
       Some (offset + MiB 2, self)
     } else do {
       a \<leftarrow> is_aligned v PAGE_SIZE;
       check a;
       a \<leftarrow> is_aligned p PAGE_SIZE;
       check a;
       (second, self) \<leftarrow> ensure_table self (root_table self) v 2;
       (third, self) \<leftarrow> ensure_table self second v 1;
       e \<leftarrow> get_entry self third v 0;
       valid \<leftarrow> get_validity e;
       check (\<not> valid);
       self \<leftarrow> write_leaf self third v 0 p mode user;
       Some (offset + PAGE_SIZE, self)
     }}
   }"

lemma map_step_progress:
  "map_step self va pa sz mode user offset = Some (offset', self') \<Longrightarrow> offset < offset'"
  by (auto simp: map_step_def run_simps GiB_def MiB_def PAGE_SIZE_def split: if_splits prod.splits)

function map_loop ::
    "root_page_table_holder \<Rightarrow> usize \<Rightarrow> usize \<Rightarrow> usize \<Rightarrow> xwr_mode \<Rightarrow> bool \<Rightarrow> usize
     \<Rightarrow> root_page_table_holder run" where
  "map_loop self va pa sz mode user offset =
     (if offset < sz then do {
        (offset, self) \<leftarrow> map_step self va pa sz mode user offset;
        map_loop self va pa sz mode user offset
      } else Some self)"
  by pat_completeness auto
termination
  by (relation "measure (\<lambda>(_, _, _, sz, _, _, offset). sz - offset)")
    (auto dest: map_step_progress)

declare map_loop.simps [simp del]

definition pt_map ::
    "root_page_table_holder \<Rightarrow> usize \<Rightarrow> usize \<Rightarrow> usize \<Rightarrow> xwr_mode \<Rightarrow> bool \<Rightarrow> string
     \<Rightarrow> root_page_table_holder run" where
  "pt_map self va pa sz mode user name = do {
     check (va_page_aligned va);
     check (va_page_aligned pa);
     check (va \<noteq> 0);
     check (sz > 0);
     sz \<leftarrow> align_up sz PAGE_SIZE;
     virtual_end \<leftarrow> uadd va (sz - 1);
     physical_end \<leftarrow> uadd pa (sz - 1);
     check (\<not> list_ex (\<lambda>m. mapping_contains m (va, virtual_end)) (already_mapped self));
     let self = self\<lparr>already_mapped := already_mapped self @
       [\<lparr>range_start = va, range_end = virtual_end, mapping_name = name, privileges = mode\<rparr>]\<rparr>;
     map_loop self va pa sz mode user 0
   }"

definition map_userspace ::
    "root_page_table_holder \<Rightarrow> usize \<Rightarrow> usize \<Rightarrow> usize \<Rightarrow> xwr_mode \<Rightarrow> string
     \<Rightarrow> root_page_table_holder run" where
  "map_userspace self va pa sz mode name = pt_map self va pa sz mode True name"

definition map_identity ::
    "root_page_table_holder \<Rightarrow> usize \<Rightarrow> usize \<Rightarrow> xwr_mode \<Rightarrow> bool \<Rightarrow> string
     \<Rightarrow> root_page_table_holder run" where
  "map_identity self va sz mode user name = pt_map self va va sz mode user name"

definition map_identity_kernel ::
    "root_page_table_holder \<Rightarrow> usize \<Rightarrow> usize \<Rightarrow> xwr_mode \<Rightarrow> string \<Rightarrow> root_page_table_holder run" where
  "map_identity_kernel self va sz mode name = map_identity self va sz mode False name"

section \<open>Queries and other updates\<close>

definition is_userspace_address :: "root_page_table_holder \<Rightarrow> usize \<Rightarrow> bool run" where
  "is_userspace_address self address = do {
     r \<leftarrow> walk_to_entry self address;
     case r of None \<Rightarrow> Some False
     | Some entry \<Rightarrow> do {
         v \<leftarrow> get_validity entry;
         if v then get_user_mode_accessible entry else Some False }
   }"

function fat_ptr_loop :: "root_page_table_holder \<Rightarrow> bool \<Rightarrow> usize \<Rightarrow> usize \<Rightarrow> bool run" where
  "fat_ptr_loop self writable last_page addr = do {
     r \<leftarrow> walk_to_entry self addr;
     case r of None \<Rightarrow> Some False
     | Some entry \<Rightarrow> do {
         xwr \<leftarrow> get_xwr_mode entry;
         v \<leftarrow> get_validity entry;
         u \<leftarrow> get_user_mode_accessible entry;
         if \<not> v \<or> \<not> u \<or> xwr \<notin> {ReadOnly, ReadWrite, ReadExecute} then Some False
         else if writable \<and> xwr \<noteq> ReadWrite then Some False
         else if addr = last_page then Some True
         else do { addr \<leftarrow> uadd addr PAGE_SIZE; fat_ptr_loop self writable last_page addr } }
   }"
  by pat_completeness auto
termination
  by (relation "measure (\<lambda>(_, _, _, addr). 2 ^ 64 - addr)")
    (auto simp: uadd_def PAGE_SIZE_def split: if_splits)

declare fat_ptr_loop.simps [simp del]

definition is_valid_userspace_fat_ptr ::
    "root_page_table_holder \<Rightarrow> usize \<Rightarrow> usize \<Rightarrow> usize \<Rightarrow> bool \<Rightarrow> bool run" where
  "is_valid_userspace_fat_ptr self start pointee_size len writable =
     (case umul pointee_size len of
        None \<Rightarrow> Some False
      | Some byte_len \<Rightarrow>
          if byte_len = 0 then Some True
          else (case uadd start (byte_len - 1) of
              None \<Rightarrow> Some False
            | Some last_byte \<Rightarrow>
                let first_page = start - start mod PAGE_SIZE;
                    last_page = last_byte - last_byte mod PAGE_SIZE
                in fat_ptr_loop self writable last_page first_page))"

definition remap_page ::
    "root_page_table_holder \<Rightarrow> usize \<Rightarrow> usize \<Rightarrow> xwr_mode \<Rightarrow> root_page_table_holder run" where
  "remap_page self va new_phys new_mode = do {
     check (va_page_aligned va);
     update_leaf self va (\<lambda>e. do { e \<leftarrow> set_leaf_address (word_of_nat new_phys) e; set_xwr_mode new_mode e })
   }"

definition get_userspace_permissions :: "root_page_table_holder \<Rightarrow> usize \<Rightarrow> xwr_mode option run" where
  "get_userspace_permissions self va = do {
     r \<leftarrow> walk_to_entry self va;
     case r of None \<Rightarrow> Some None
     | Some e \<Rightarrow> do { m \<leftarrow> get_xwr_mode e; Some (Some m) }
   }"

definition translate_userspace_address_to_physical_address ::
    "root_page_table_holder \<Rightarrow> usize \<Rightarrow> usize option run" where
  "translate_userspace_address_to_physical_address self address = do {
     u \<leftarrow> is_userspace_address self address;
     if \<not> u then Some None else do {
       r \<leftarrow> walk_to_entry self address;
       case r of None \<Rightarrow> Some None
       | Some e \<Rightarrow> do {
           pa \<leftarrow> uadd (unat (get_physical_address e)) (address mod PAGE_SIZE);
           Some (Some pa) } }
   }"

definition get_satp_value_from_page_tables :: "root_page_table_holder \<Rightarrow> 64 word" where
  "get_satp_value_from_page_tables self =
     push_bit 60 8 OR (drop_bit 12 (root_table self) AND 0xfffffffffff)"

definition unmap_step :: "root_page_table_holder \<Rightarrow> usize \<Rightarrow> usize \<Rightarrow> (usize \<times> root_page_table_holder) run" where
  "unmap_step self va offset = do {
     addr \<leftarrow> uadd va offset;
     first \<leftarrow> get_entry self (root_table self) addr 2;
     v \<leftarrow> get_validity first;
     check v;
     l \<leftarrow> is_leaf first;
     if l then do {
       self \<leftarrow> put_entry self (root_table self) addr 2 0;
       Some (offset + GiB 1, self)
     } else do {
     second_table \<leftarrow> target_page_table first;
     second \<leftarrow> get_entry self second_table addr 1;
     v \<leftarrow> get_validity second;
     check v;
     l \<leftarrow> is_leaf second;
     if l then do {
       self \<leftarrow> put_entry self second_table addr 1 0;
       Some (offset + MiB 2, self)
     } else do {
       third_table \<leftarrow> target_page_table second;
       third \<leftarrow> get_entry self third_table addr 0;
       v \<leftarrow> get_validity third;
       check v;
       self \<leftarrow> put_entry self third_table addr 0 0;
       Some (offset + PAGE_SIZE, self)
     }}
   }"

lemma unmap_step_progress:
  "unmap_step self va offset = Some (offset', self') \<Longrightarrow> offset < offset'"
  by (auto simp: unmap_step_def run_simps GiB_def MiB_def PAGE_SIZE_def split: if_splits)

function unmap_loop ::
    "root_page_table_holder \<Rightarrow> usize \<Rightarrow> usize \<Rightarrow> usize \<Rightarrow> root_page_table_holder run" where
  "unmap_loop self va sz offset =
     (if offset < sz then do {
        (offset, self) \<leftarrow> unmap_step self va offset;
        unmap_loop self va sz offset
      } else Some self)"
  by pat_completeness auto
termination
  by (relation "measure (\<lambda>(_, _, sz, offset). sz - offset)") (auto dest: unmap_step_progress)

declare unmap_loop.simps [simp del]

text \<open>\<^verbatim>\<open>Vec::swap_remove\<close>: the last element takes the place of the removed one.\<close>

definition swap_remove :: "'a list \<Rightarrow> nat \<Rightarrow> 'a list" where
  "swap_remove xs i = butlast (xs[i := last xs])"

definition position :: "('a \<Rightarrow> bool) \<Rightarrow> 'a list \<Rightarrow> nat option" where
  "position P xs = List.find (\<lambda>i. P (xs ! i)) [0..<length xs]"

definition unmap_userspace ::
    "root_page_table_holder \<Rightarrow> usize \<Rightarrow> usize \<Rightarrow> root_page_table_holder run" where
  "unmap_userspace self va sz = do {
     check (va_page_aligned va);
     check (sz > 0);
     idx \<leftarrow> position (\<lambda>m. range_start m = va) (already_mapped self);
     unmap_loop (self\<lparr>already_mapped := swap_remove (already_mapped self) idx\<rparr>) va sz 0
   }"

definition is_mapped :: "root_page_table_holder \<Rightarrow> usize \<times> usize \<Rightarrow> bool" where
  "is_mapped self rng = list_ex (\<lambda>m. mapping_contains m rng) (already_mapped self)"

definition validate_userspace ::
    "root_page_table_holder \<Rightarrow> bool \<Rightarrow> usize \<Rightarrow> usize \<Rightarrow> usize \<Rightarrow> (errno + usize) run" where
  "validate_userspace self writable ptr pointee_size len = do {
     ok \<leftarrow> is_valid_userspace_fat_ptr self ptr pointee_size len writable;
     if \<not> ok then Some (Inl EFAULT)
     else do {
       r \<leftarrow> translate_userspace_address_to_physical_address self ptr;
       Some (case r of None \<Rightarrow> Inl EFAULT | Some p \<Rightarrow> Inr p)
     }
   }"

section \<open>Kernel mappings and reclamation\<close>

record mapping_description =
  md_start :: usize
  md_size :: usize
  md_privileges :: xwr_mode
  md_name :: string

definition map_descriptions ::
    "mapping_description list \<Rightarrow> root_page_table_holder \<Rightarrow> root_page_table_holder run" where
  "map_descriptions = foldM (\<lambda>m self.
     map_identity_kernel self (md_start m) (md_size m) (md_privileges m) (md_name m))"

text \<open>
  The linker script's sections, the symbol table and the heap are not in the sources: their ranges are
  arguments, in the order the code maps them.
\<close>

definition new_with_kernel_mapping ::
    "64 word list \<Rightarrow> mapping_description list \<Rightarrow> usize \<times> usize \<Rightarrow> usize \<times> usize \<Rightarrow> mapping_description list
     \<Rightarrow> root_page_table_holder run" where
  "new_with_kernel_mapping pool all_mappings symbols heap extra_mappings = do {
     self \<leftarrow> holder_empty pool;
     self \<leftarrow> map_descriptions all_mappings self;
     self \<leftarrow> map_identity_kernel self (fst symbols) (snd symbols) ReadOnly ''SYMBOLS'';
     self \<leftarrow> map_identity_kernel self (fst heap) (snd heap) ReadWrite ''HEAP'';
     map_descriptions extra_mappings self
   }"

text \<open>The tables \<^verbatim>\<open>reclaim_children\<close> hands back to the heap, in order.\<close>

definition reclaim_second :: "pte \<Rightarrow> 64 word list \<Rightarrow> 64 word list run" where
  "reclaim_second e freed = do {
     v \<leftarrow> get_validity e;
     if \<not> v then Some freed else do {
     l \<leftarrow> is_leaf e;
     if l then Some freed else do {
     t \<leftarrow> target_page_table e;
     Some (freed @ [t]) }}
   }"

definition reclaim_children :: "root_page_table_holder \<Rightarrow> 64 word list run" where
  "reclaim_children self = do {
     root \<leftarrow> tables self (root_table self);
     foldM (\<lambda>e freed. do {
         v \<leftarrow> get_validity e;
         if \<not> v then Some freed else do {
         l \<leftarrow> is_leaf e;
         if l then Some freed else do {
         t \<leftarrow> target_page_table e;
         second \<leftarrow> tables self t;
         freed \<leftarrow> foldM reclaim_second second freed;
         Some (freed @ [t]) }}
       }) root []
   }"

section \<open>The hardware's view\<close>

definition vidx :: "nat \<Rightarrow> nat \<Rightarrow> nat" where
  "vidx va l = va div 2 ^ (12 + 9 * l) mod 512"

text \<open>The Sv39 table walk of the privileged specification, from a table of level \<^term>\<open>l\<close>.\<close>

primrec hw_walk :: "(64 word \<rightharpoonup> pte list) \<Rightarrow> nat \<Rightarrow> 64 word \<Rightarrow> nat \<Rightarrow> (nat \<times> pte) option" where
  "hw_walk T 0 t va = (case T t of None \<Rightarrow> None | Some xs \<Rightarrow>
     let e = xs ! vidx va 0 in if pte_valid e \<and> pte_leaf e then Some (0, e) else None)"
| "hw_walk T (Suc l) t va = (case T t of None \<Rightarrow> None | Some xs \<Rightarrow>
     let e = xs ! vidx va (Suc l) in
     if \<not> pte_valid e then None
     else if pte_leaf e then Some (Suc l, e)
     else hw_walk T l (pte_addr e) va)"

definition xlate :: "root_page_table_holder \<Rightarrow> nat \<Rightarrow> (nat \<times> xwr_mode option \<times> bool) option" where
  "xlate self va = map_option (\<lambda>(l, e). (unat (pte_addr e) + va mod 2 ^ (12 + 9 * l), get_xwr_mode e, pte_user e))
     (hw_walk (tables self) 2 (root_table self) va)"

section \<open>Tables have one place in the tree\<close>

text \<open>The indices that lead to the level-\<^term>\<open>l\<close> table on the walk of \<^term>\<open>va\<close>.\<close>

definition vpath :: "nat \<Rightarrow> nat \<Rightarrow> nat list" where
  "vpath va l = map (vidx va) (rev [Suc l..<3])"

lemma vpath_simps:
  "vpath va 2 = []" "vpath va (Suc (Suc 0)) = []"
  "vpath va 1 = [vidx va 2]" "vpath va (Suc 0) = [vidx va 2]" "vpath va 0 = [vidx va 2, vidx va 1]"
  by (simp_all add: vpath_def numeral_3_eq_3 numeral_2_eq_2)

lemma vpath_step: "l < 2 \<Longrightarrow> vpath va l = vpath va (Suc l) @ [vidx va (Suc l)]"
  by (cases l) (auto simp: vpath_simps numeral_2_eq_2)

lemma vpath_down: "d < 2 \<Longrightarrow> vpath va (2 - Suc d) = vpath va (2 - d) @ [vidx va (2 - d)]"
  by (cases d) (auto simp: vpath_simps numeral_2_eq_2)

lemma length_vpath: "l \<le> 2 \<Longrightarrow> length (vpath va l) = 2 - l"
  by (simp add: vpath_def)

lemma vidx_less [simp]: "vidx va l < 512"
  by (simp add: vidx_def)

definition entry_ok :: "(64 word \<rightharpoonup> nat list) \<Rightarrow> nat list \<Rightarrow> nat \<Rightarrow> pte \<Rightarrow> bool" where
  "entry_ok pos p i e \<longleftrightarrow>
     (if pte_valid e
      then pte_addr e \<noteq> 0 \<and> get_xwr_mode e \<noteq> None
        \<and> (pte_leaf e \<or> length p < 2 \<and> pos (pte_addr e) = Some (p @ [i]))
      else e = 0)"

definition table_addr_ok :: "64 word \<Rightarrow> bool" where
  "table_addr_ok t \<longleftrightarrow> t \<noteq> 0 \<and> is_page_aligned t \<and> unat t < 2 ^ 56"

definition pt_inv :: "root_page_table_holder \<Rightarrow> (64 word \<rightharpoonup> nat list) \<Rightarrow> bool" where
  "pt_inv self pos \<longleftrightarrow> pos (root_table self) = Some []
     \<and> (\<forall>t p. pos t = Some p \<longrightarrow> table_addr_ok t \<and> length p \<le> 2
          \<and> (\<exists>xs. tables self t = Some xs \<and> length xs = 512 \<and> (\<forall>i<512. entry_ok pos p i (xs ! i))))
     \<and> distinct (boxes self) \<and> (\<forall>t\<in>set (boxes self). table_addr_ok t \<and> pos t = None)"

lemma pt_inv_table:
  assumes "pt_inv self pos" "pos t = Some p"
  obtains xs where "tables self t = Some xs" "length xs = 512" "\<And>i. i < 512 \<Longrightarrow> entry_ok pos p i (xs ! i)"
    "table_addr_ok t" "length p \<le> 2"
  using assms unfolding pt_inv_def by blast

lemma get_entry_eq:
  assumes "tables self t = Some xs" "length xs = 512" "l \<le> 2"
  shows "get_entry self t va l = Some (xs ! vidx va l)"
  using assms by (simp add: get_entry_def page_table_index_eq index_def flip: vidx_def)

lemma put_entry_eq:
  assumes "tables self t = Some xs" "length xs = 512" "l \<le> 2"
  shows "put_entry self t va l e = Some (self\<lparr>tables := (tables self)(t \<mapsto> xs[vidx va l := e])\<rparr>)"
  using assms by (simp add: put_entry_def page_table_index_eq index_set_def flip: vidx_def)

lemma nat_and_4095: "(n :: nat) AND 0xFFF = n mod 4096"
proof -
  have "(0xFFF :: nat) = mask 12" by (simp add: mask_eq_exp_minus_1)
  then have "n AND 0xFFF = take_bit 12 n" by (simp only: take_bit_eq_mask)
  then show ?thesis by (simp add: take_bit_eq_mod)
qed

lemma va_page_aligned_iff: "va_page_aligned a \<longleftrightarrow> PAGE_SIZE dvd a"
  by (simp add: va_page_aligned_def nat_and_4095 PAGE_SIZE_def dvd_eq_mod_eq_0)

lemma page_aligned_of_nat:
  assumes "a < 2 ^ 64" "PAGE_SIZE dvd a" shows "is_page_aligned (word_of_nat a)"
proof -
  have "(0xFFF :: 64 word) = mask 12" by (simp add: mask_eq_exp_minus_1)
  then have "word_of_nat a AND (0xFFF :: 64 word) = take_bit 12 (word_of_nat a)"
    by (simp only: take_bit_eq_mask)
  moreover have "unat (take_bit 12 (word_of_nat a :: 64 word)) = 0"
    using assms by (simp add: unsigned_take_bit_eq unsigned_of_nat take_bit_nat_eq_self)
      (simp add: take_bit_eq_mod PAGE_SIZE_def)
  ultimately show ?thesis by (simp add: is_page_aligned_def unsigned_eq_0_iff)
qed

text \<open>A walk only depends on the entries on its path.\<close>

lemma hw_walk_cong:
  assumes inv: "pt_inv self pos" and "pos u = Some (vpath va l)" "l \<le> 2"
    and same: "\<And>t k xs. k \<le> l \<Longrightarrow> pos t = Some (vpath va k) \<Longrightarrow> tables self t = Some xs \<Longrightarrow>
       \<exists>ys. T' t = Some ys \<and> ys ! vidx va k = xs ! vidx va k"
  shows "hw_walk T' l u va = hw_walk (tables self) l u va"
  using assms(2-4)
proof (induction l arbitrary: u)
  case 0
  obtain xs where "tables self u = Some xs" using pt_inv_table[OF inv 0(1)] by blast
  then show ?case using 0(3)[of 0 u xs] 0(1) by auto
next
  case (Suc l)
  obtain xs where xs: "tables self u = Some xs" "\<And>i. i < 512 \<Longrightarrow> entry_ok pos (vpath va (Suc l)) i (xs ! i)"
    using pt_inv_table[OF inv Suc.prems(1)] by blast
  obtain ys where ys: "T' u = Some ys" "ys ! vidx va (Suc l) = xs ! vidx va (Suc l)"
    using Suc.prems(3)[of "Suc l" u xs] Suc.prems(1) xs(1) by auto
  let ?e = "xs ! vidx va (Suc l)"
  have "hw_walk T' l (pte_addr ?e) va = hw_walk (tables self) l (pte_addr ?e) va"
    if "pte_valid ?e" "\<not> pte_leaf ?e"
  proof (rule Suc.IH)
    show "pos (pte_addr ?e) = Some (vpath va l)"
      using xs(2)[of "vidx va (Suc l)"] that vpath_step[of l va] Suc.prems(2) by (simp add: entry_ok_def)
  qed (use Suc.prems in auto)
  then show ?case using xs(1) ys by (simp add: Let_def)
qed

lemma pt_inv_put:
  assumes inv: "pt_inv self pos" and t: "pos t = Some p" "tables self t = Some xs" and "i < 512"
    and e: "entry_ok pos p i e"
  shows "pt_inv (self\<lparr>tables := (tables self)(t \<mapsto> xs[i := e])\<rparr>) pos"
proof -
  have "\<exists>ys. ((tables self)(t \<mapsto> xs[i := e])) u = Some ys \<and> length ys = 512
      \<and> (\<forall>k<512. entry_ok pos q k (ys ! k))" if "pos u = Some q" for u q
  proof (cases "u = t")
    case True
    then have "q = p" using that t(1) by simp
    moreover obtain zs where "tables self t = Some zs" "length zs = 512"
        "\<And>i. i < 512 \<Longrightarrow> entry_ok pos p i (zs ! i)"
      using pt_inv_table[OF inv t(1)] by blast
    ultimately show ?thesis using True t(2) e assms(4) by (auto simp: nth_list_update)
  next
    case False
    then show ?thesis by (auto intro: pt_inv_table[OF inv that])
  qed
  then show ?thesis using inv unfolding pt_inv_def by auto
qed


text \<open>Valid entries of known tables are kept; known tables stay known.\<close>

definition keeps :: "root_page_table_holder \<Rightarrow> (64 word \<rightharpoonup> nat list) \<Rightarrow> root_page_table_holder
    \<Rightarrow> (64 word \<rightharpoonup> nat list) \<Rightarrow> bool" where
  "keeps self pos self' pos' \<longleftrightarrow> root_table self' = root_table self
     \<and> already_mapped self' = already_mapped self \<and> pos \<subseteq>\<^sub>m pos'
     \<and> (\<forall>t xs i. pos t \<noteq> None \<longrightarrow> tables self t = Some xs \<longrightarrow> pte_valid (xs ! i) \<longrightarrow>
          (\<exists>ys. tables self' t = Some ys \<and> ys ! i = xs ! i))"

lemma keeps_refl [simp]: "keeps self pos self pos"
  by (simp add: keeps_def)

lemma entry_ok_mono: "entry_ok pos p i e \<Longrightarrow> pos \<subseteq>\<^sub>m pos' \<Longrightarrow> entry_ok pos' p i e"
  by (auto simp: entry_ok_def map_le_def dom_def split: if_splits)

lemma pte_valid_0 [simp]: "\<not> pte_valid 0"
  by (simp add: pte_valid_def)

lemma pte_addr_0 [simp]: "pte_addr 0 = 0"
  by (simp add: pte_addr_def)

lemma entry_ok_0 [simp]: "entry_ok pos p i 0"
  by (simp add: entry_ok_def)

text \<open>Hanging a fresh table into an empty entry.\<close>

lemma hw_walk_empty: "T n = Some (replicate 512 0) \<Longrightarrow> hw_walk T l n va = None"
  by (cases l) auto

lemma new_table_walk:
  assumes inv: "pt_inv self pos" and t: "pos t = Some p" "tables self t = Some xs" and i: "i < 512"
    and p: "length p < 2" and z: "xs ! i = 0" and n: "pos n = None"
    and e: "pte_valid e" "pte_addr e = n" "\<not> pte_leaf e"
    and u: "pos u = Some (vpath va l)" "l \<le> 2"
    and T: "T = (tables self)(n \<mapsto> replicate 512 0, t \<mapsto> xs[i := e])"
  shows "hw_walk T l u va = hw_walk (tables self) l u va"
  using u
proof (induction l arbitrary: u)
  case 0
  then have "u \<noteq> t" "u \<noteq> n" using t(1) p n by (auto simp: vpath_simps)
  then show ?case by (simp add: T)
next
  case (Suc l)
  have "u \<noteq> n" using Suc.prems n by auto
  obtain ys where ys: "tables self u = Some ys" "length ys = 512"
      "\<And>i. i < 512 \<Longrightarrow> entry_ok pos (vpath va (Suc l)) i (ys ! i)"
    using pt_inv_table[OF inv Suc.prems(1)] by blast
  let ?k = "vidx va (Suc l)"
  have down: "hw_walk T l (pte_addr (ys ! ?k)) va = hw_walk (tables self) l (pte_addr (ys ! ?k)) va"
    if "pte_valid (ys ! ?k)" "\<not> pte_leaf (ys ! ?k)"
  proof (rule Suc.IH)
    show "pos (pte_addr (ys ! ?k)) = Some (vpath va l)"
      using ys(3)[of ?k] that vpath_step[of l va] Suc.prems(2) by (simp add: entry_ok_def)
  qed (use Suc.prems in simp)
  show ?case
  proof (cases "u = t \<and> ?k = i")
    case True
    have "hw_walk T l n va = None"
      using n t(1) by (intro hw_walk_empty) (auto simp: T)
    moreover have "T u = Some (ys[?k := e])" using True t(2) ys(1) by (simp add: T)
    moreover have "ys[?k := e] ! ?k = e" using ys(2) by simp
    ultimately show ?thesis using True ys t(2) z e(1) e(2)[symmetric] e(3) by (simp add: Let_def)
  next
    case False
    then have "\<exists>zs. T u = Some zs \<and> zs ! ?k = ys ! ?k"
      using ys(1) t(2) \<open>u \<noteq> n\<close> by (auto simp: T)
    then show ?thesis using down ys(1) by (auto simp: Let_def)
  qed
qed

lemma new_table:
  fixes self pos t p xs i n ns
  defines "e \<equiv> set_bit 0 (set_page_bits n 0)"
  defines "self' \<equiv> self\<lparr>tables := (tables self)(n \<mapsto> replicate 512 0, t \<mapsto> xs[i := e]), boxes := ns\<rparr>"
  defines "pos' \<equiv> pos(n \<mapsto> p @ [i])"
  assumes inv: "pt_inv self pos" and t: "pos t = Some p" "tables self t = Some xs" and i: "i < 512"
    and p: "length p < 2" and z: "xs ! i = 0" and b: "boxes self = n # ns"
  shows "pt_inv self' pos'" "keeps self pos self' pos'"
    "hw_walk (tables self') 2 (root_table self') va = hw_walk (tables self) 2 (root_table self) va"
proof -
  have n: "table_addr_ok n" "pos n = None" "n \<notin> set ns" "distinct ns"
      "\<And>u. u \<in> set ns \<Longrightarrow> table_addr_ok u \<and> pos u = None"
    using inv b by (auto simp: pt_inv_def)
  have nt: "n \<noteq> t" "n \<noteq> root_table self" using n(2) t(1) inv by (auto simp: pt_inv_def)
  have e: "pte_valid e" "pte_addr e = n" "get_xwr_mode e = Some PointerToNextLevel" "\<not> pte_leaf e"
    using make_table_entry[of n] n(1) pte_leaf_iff[of e]
    by (auto simp: table_addr_ok_def e_def)
  have sub: "pos \<subseteq>\<^sub>m pos'" using n(2) by (auto simp: pos'_def map_le_def dom_def)
  obtain zs where zs: "tables self t = Some zs" "length zs = 512" "\<And>i. i < 512 \<Longrightarrow> entry_ok pos p i (zs ! i)"
    using pt_inv_table[OF inv t(1)] by blast
  have len: "length xs = 512" using zs t(2) by simp
  have eo: "entry_ok pos' p i e" using e n(1) p by (simp add: entry_ok_def pos'_def table_addr_ok_def)
  have tab: "\<exists>ys. tables self' u = Some ys \<and> length ys = 512 \<and> (\<forall>k<512. entry_ok pos' q k (ys ! k))"
      "table_addr_ok u" "length q \<le> 2"
    if u: "pos' u = Some q" for u q
  proof -
    consider "u = n" | "u = t" | "u \<noteq> n" "u \<noteq> t" by blast
    then have "(\<exists>ys. tables self' u = Some ys \<and> length ys = 512 \<and> (\<forall>k<512. entry_ok pos' q k (ys ! k)))
        \<and> table_addr_ok u \<and> length q \<le> 2"
    proof cases
      case 1
      then show ?thesis using u nt n(1) p by (auto simp: self'_def pos'_def)
    next
      case 2
      then have "q = p" using u nt t(1) by (simp add: pos'_def)
      moreover have "entry_ok pos' p k (xs[i := e] ! k)" if "k < 512" for k
        using that zs(3)[of k] entry_ok_mono[OF _ sub] eo i len t(2) zs(1) by (auto simp: nth_list_update)
      moreover have "table_addr_ok t" using pt_inv_table[OF inv t(1)] by blast
      ultimately show ?thesis using 2 len p by (auto simp: self'_def)
    next
      case 3
      then have "pos u = Some q" using u by (simp add: pos'_def)
      from pt_inv_table[OF inv this] obtain ys where "tables self u = Some ys" "length ys = 512"
          "\<And>k. k < 512 \<Longrightarrow> entry_ok pos q k (ys ! k)" "table_addr_ok u" "length q \<le> 2"
        by blast
      then show ?thesis using 3 entry_ok_mono[OF _ sub] by (auto simp: self'_def)
    qed
    then show "\<exists>ys. tables self' u = Some ys \<and> length ys = 512 \<and> (\<forall>k<512. entry_ok pos' q k (ys ! k))"
      "table_addr_ok u" "length q \<le> 2" by blast+
  qed
  show inv': "pt_inv self' pos'"
    unfolding pt_inv_def using tab n nt inv
    by (auto simp: self'_def pos'_def) (auto simp: pt_inv_def)
  show k: "keeps self pos self' pos'"
    using sub n(2) nt t(2) z i len unfolding keeps_def self'_def
    by (auto simp: nth_list_update)
  show "hw_walk (tables self') 2 (root_table self') va = hw_walk (tables self) 2 (root_table self) va"
    using new_table_walk[OF inv t i p z n(2) e(1,2,4) _ _ refl, of "root_table self" va 2] inv
    by (simp add: self'_def pt_inv_def vpath_simps)
qed


text \<open>\<^term>\<open>t\<close> is the level-\<^term>\<open>l\<close> table on the walk of \<^term>\<open>va\<close>.\<close>

primrec below :: "root_page_table_holder \<Rightarrow> nat \<Rightarrow> nat \<Rightarrow> 64 word \<Rightarrow> bool" where
  "below self va 0 t \<longleftrightarrow> t = root_table self"
| "below self va (Suc d) t \<longleftrightarrow> (\<exists>u xs. below self va d u \<and> tables self u = Some xs
     \<and> pte_valid (xs ! vidx va (2 - d)) \<and> \<not> pte_leaf (xs ! vidx va (2 - d))
     \<and> pte_addr (xs ! vidx va (2 - d)) = t)"

lemma below_pos:
  assumes "pt_inv self pos" "below self va d t" "d \<le> 2"
  shows "pos t = Some (vpath va (2 - d))"
  using assms(2,3)
proof (induction d arbitrary: t)
  case 0
  then show ?case using assms(1) by (simp add: pt_inv_def vpath_simps)
next
  case (Suc d)
  then obtain u xs where u: "pos u = Some (vpath va (2 - d))" "tables self u = Some xs"
      "pte_valid (xs ! vidx va (2 - d))" "\<not> pte_leaf (xs ! vidx va (2 - d))"
      "pte_addr (xs ! vidx va (2 - d)) = t"
    by auto
  moreover from this pt_inv_table[OF assms(1) u(1)]
  have "entry_ok pos (vpath va (2 - d)) (vidx va (2 - d)) (xs ! vidx va (2 - d))"
    by (metis option.inject vidx_less)
  moreover have "vpath va (2 - Suc d) = vpath va (2 - d) @ [vidx va (2 - d)]"
    using vpath_down[of d va] Suc.prems(2) by simp
  ultimately show ?case by (simp add: entry_ok_def)
qed

lemma below_keeps:
  assumes "pt_inv self pos" "keeps self pos self' pos'" "below self va d t" "d \<le> 2"
  shows "below self' va d t"
  using assms(3,4)
proof (induction d arbitrary: t)
  case 0
  then show ?case using assms(2) by (simp add: keeps_def)
next
  case (Suc d)
  then obtain u xs where u: "below self va d u" "tables self u = Some xs"
      "pte_valid (xs ! vidx va (2 - d))" "\<not> pte_leaf (xs ! vidx va (2 - d))"
      "pte_addr (xs ! vidx va (2 - d)) = t"
    by auto
  have "pos u \<noteq> None" using below_pos[OF assms(1) u(1)] Suc.prems(2) by simp
  then obtain ys where "tables self' u = Some ys" "ys ! vidx va (2 - d) = xs ! vidx va (2 - d)"
    using assms(2) u(2,3) unfolding keeps_def by blast
  moreover have "below self' va d u" using Suc.IH[OF u(1)] Suc.prems(2) by simp
  ultimately show ?case using u(3-5) by (auto intro!: exI[of _ u])
qed

lemma below_walk:
  assumes "below self va d t" "d \<le> 2" "vpath va' (2 - d) = vpath va (2 - d)"
  shows "hw_walk (tables self) 2 (root_table self) va' = hw_walk (tables self) (2 - d) t va'"
  using assms
proof (induction d arbitrary: t)
  case 0
  then show ?case by simp
next
  case (Suc d)
  then obtain u xs where u: "below self va d u" "tables self u = Some xs"
      "pte_valid (xs ! vidx va (2 - d))" "\<not> pte_leaf (xs ! vidx va (2 - d))"
      "pte_addr (xs ! vidx va (2 - d)) = t"
    by auto
  have step: "vpath v (2 - Suc d) = vpath v (2 - d) @ [vidx v (2 - d)]" for v
    using vpath_down[of d v] Suc.prems(2) by simp
  have same: "vpath va' (2 - d) = vpath va (2 - d)" "vidx va' (2 - d) = vidx va (2 - d)"
    using Suc.prems(3) unfolding step by auto
  have "hw_walk (tables self) 2 (root_table self) va' = hw_walk (tables self) (2 - d) u va'"
    using Suc u(1) same(1) by auto
  also have "2 - d = Suc (2 - Suc d)" using Suc.prems(2) by simp
  then have "hw_walk (tables self) (2 - d) u va' = hw_walk (tables self) (2 - Suc d) t va'"
    using u same(2) by (simp add: Let_def)
  finally show ?case .
qed


lemma ensure_table_ok:
  assumes inv: "pt_inv self pos" and t: "below self va d t" and d: "d < 2"
    and run: "ensure_table self t va (2 - d) = Some (t', self')"
  shows "\<exists>pos'. pt_inv self' pos' \<and> keeps self pos self' pos' \<and> below self' va (Suc d) t'
    \<and> (\<forall>x. hw_walk (tables self') 2 (root_table self') x = hw_walk (tables self) 2 (root_table self) x)"
proof -
  let ?l = "2 - d" and ?k = "vidx va (2 - d)"
  have post: "pos t = Some (vpath va ?l)" using below_pos[OF inv t] d by simp
  obtain xs where xs: "tables self t = Some xs" "length xs = 512"
      "\<And>i. i < 512 \<Longrightarrow> entry_ok pos (vpath va ?l) i (xs ! i)"
    using pt_inv_table[OF inv post] by blast
  have e: "get_entry self t va ?l = Some (xs ! ?k)" by (rule get_entry_eq[OF xs(1,2)]) simp
  show ?thesis
  proof (cases "pte_addr (xs ! ?k) = 0")
    case False
    then have v: "pte_valid (xs ! ?k)" using xs(3)[of ?k] by (auto simp: entry_ok_def split: if_splits)
    have "target_page_table (xs ! ?k) = Some t'" "self' = self"
      using run False e by (auto simp: ensure_table_def run_simps)
    moreover from this have "\<not> pte_leaf (xs ! ?k)" "t' = pte_addr (xs ! ?k)"
      using pte_leaf_iff[of "xs ! ?k"]
      by (auto simp: target_page_table_def is_leaf_def run_simps Let_def)
    ultimately have "below self' va (Suc d) t'" using t xs(1) v by auto
    then show ?thesis using inv \<open>self' = self\<close> by (intro exI[of _ pos]) auto
  next
    case True
    then have z: "xs ! ?k = 0" using xs(3)[of ?k] by (auto simp: entry_ok_def split: if_splits)
    obtain n ns where b: "boxes self = n # ns"
      using run True e by (cases "boxes self") (auto simp: ensure_table_def box_page_table_def)
    let ?e = "set_bit 0 (set_page_bits n 0)"
    let ?self = "self\<lparr>tables := (tables self)(n \<mapsto> replicate 512 0, t \<mapsto> xs[?k := ?e]), boxes := ns\<rparr>"
    have len: "length (vpath va ?l) < 2" using d by (simp add: length_vpath)
    note new = new_table[OF inv post xs(1) vidx_less len z b]
    have n: "table_addr_ok n" "n \<noteq> t" using inv b post by (auto simp: pt_inv_def)
    have te: "target_page_table ?e = Some n" "pte_valid ?e" "pte_addr ?e = n" "\<not> pte_leaf ?e"
      using make_table_entry[of n] n(1) pte_leaf_iff[of ?e] target_page_table_eq[of ?e]
      by (auto simp: table_addr_ok_def)
    let ?s1 = "self\<lparr>tables := (tables self)(n \<mapsto> replicate 512 0), boxes := ns\<rparr>"
    have put: "put_entry ?s1 t va ?l ?e = Some ?self"
      using n(2) xs by (subst put_entry_eq[of _ _ xs]) auto
    have "get_entry ?self t va ?l = Some ?e"
      using n(2) xs by (subst get_entry_eq[of _ _ "xs[?k := ?e]"]) auto
    then have "t' = n" "self' = ?self"
      using run e z b put te(1)
      by (auto simp: ensure_table_def box_page_table_def set_physical_address_def)
    moreover have "below ?self va d t" using below_keeps[OF inv new(2) t] d by simp
    then have "below ?self va (Suc d) n" using te(2-4) xs(2) by (auto intro!: exI[of _ t])
    ultimately show ?thesis using new by (intro exI[of _ "pos(n \<mapsto> vpath va ?l @ [?k])"]) simp
  qed
qed


lemma same_entry_iff:
  assumes "l \<le> 2" "k \<le> 2"
  shows "vpath x k = vpath va l \<and> vidx x k = vidx va l \<longleftrightarrow> k = l \<and> vpath x l = vpath va l \<and> vidx x l = vidx va l"
proof -
  have "vpath x k = vpath va l \<Longrightarrow> k = l"
    using length_vpath[OF assms(1), of va] length_vpath[OF assms(2), of x] assms by simp
  then show ?thesis by auto
qed

lemma put_walk:
  assumes inv: "pt_inv self pos" and t: "below self va d t" and d: "d \<le> 2"
    and xs: "tables self t = Some xs" "length xs = 512"
    and T: "T = (tables self)(t \<mapsto> xs[vidx va (2 - d) := e])"
  shows "hw_walk T 2 (root_table self) x =
    (if vpath x (2 - d) = vpath va (2 - d) \<and> vidx x (2 - d) = vidx va (2 - d)
     then hw_walk T (2 - d) t x else hw_walk (tables self) 2 (root_table self) x)"
proof -
  let ?l = "2 - d"
  have post: "pos t = Some (vpath va ?l)" using below_pos[OF inv t d] .
  show ?thesis
  proof (cases "vpath x ?l = vpath va ?l \<and> vidx x ?l = vidx va ?l")
    case False
    have "hw_walk T 2 (root_table self) x = hw_walk (tables self) 2 (root_table self) x"
    proof (rule hw_walk_cong[OF inv])
      show "pos (root_table self) = Some (vpath x 2)" using inv by (simp add: pt_inv_def vpath_simps)
      fix u k ys assume "k \<le> 2" "pos u = Some (vpath x k)" "tables self u = Some ys"
      then show "\<exists>zs. T u = Some zs \<and> zs ! vidx x k = ys ! vidx x k"
        using False same_entry_iff[of ?l k x va] post xs(1) by (cases "u = t") (auto simp: T)
    qed simp
    then show ?thesis by (simp only: if_not_P[OF False])
  next
    case True
    have "below (self\<lparr>tables := T\<rparr>) va d' u" if "below self va d' u" "d' \<le> d" for d' u
      using that
    proof (induction d' arbitrary: u)
      case 0
      then show ?case by simp
    next
      case (Suc d')
      then obtain w ys where w: "below self va d' w" "tables self w = Some ys"
          "pte_valid (ys ! vidx va (2 - d'))" "\<not> pte_leaf (ys ! vidx va (2 - d'))"
          "pte_addr (ys ! vidx va (2 - d')) = u"
        by auto
      have "pos w = Some (vpath va (2 - d'))" using below_pos[OF inv w(1)] Suc.prems(2) d by simp
      then have "w \<noteq> t"
        using post length_vpath[of "2 - d'" va] length_vpath[of ?l va] Suc.prems(2) d by auto
      then show ?case using w Suc.IH[OF w(1)] Suc.prems(2) by (auto simp: T intro!: exI[of _ w])
    qed
    from below_walk[OF this[OF t order_refl] d, of x] True show ?thesis by simp
  qed
qed

lemma write_leaf_ok:
  assumes inv: "pt_inv self pos" and t: "below self va d t" and d: "d \<le> 2"
    and pa: "0 < pa" "PAGE_SIZE dvd pa" "pa < 2 ^ 56" and m: "mode \<noteq> PointerToNextLevel"
  shows "\<exists>self' e. write_leaf self t va (2 - d) pa mode user = Some self' \<and> pt_inv self' pos
    \<and> root_table self' = root_table self \<and> already_mapped self' = already_mapped self
    \<and> pte_addr e = word_of_nat pa \<and> get_xwr_mode e = Some mode \<and> pte_user e = user
    \<and> (\<forall>x. hw_walk (tables self') 2 (root_table self') x =
          (if vpath x (2 - d) = vpath va (2 - d) \<and> vidx x (2 - d) = vidx va (2 - d)
           then Some (2 - d, e) else hw_walk (tables self) 2 (root_table self) x))"
proof -
  let ?l = "2 - d" and ?k = "vidx va (2 - d)"
  have post: "pos t = Some (vpath va ?l)" using below_pos[OF inv t d] .
  obtain xs where xs: "tables self t = Some xs" "length xs = 512"
    using pt_inv_table[OF inv post] by blast
  have un: "unat (word_of_nat pa :: 64 word) = pa"
    using pa(3) by (simp add: unsigned_of_nat take_bit_nat_eq_self)
  have al: "is_page_aligned (word_of_nat pa)" using page_aligned_of_nat[of pa] pa by simp
  obtain e where e: "do { e \<leftarrow> set_xwr_mode mode (xs ! ?k); e \<leftarrow> set_validity True e;
      e \<leftarrow> set_leaf_address (word_of_nat pa) e; set_user_mode_accessible user e } = Some e"
    "pte_valid e" "pte_user e = user" "pte_addr e = word_of_nat pa" "get_xwr_mode e = Some mode"
    using make_leaf_spec[OF al, of mode "xs ! ?k" user] un pa(3) by auto
  let ?self = "self\<lparr>tables := (tables self)(t \<mapsto> xs[?k := e])\<rparr>"
  have lf: "pte_leaf e" using pte_leaf_iff[OF e(5)] m by simp
  have "get_entry self t va ?l = Some (xs ! ?k)" by (rule get_entry_eq[OF xs]) simp
  moreover have "put_entry self t va ?l e = Some ?self" by (rule put_entry_eq[OF xs]) simp
  ultimately have "write_leaf self t va ?l pa mode user = Some ?self"
    by (simp only: write_leaf_def e(1) Option.bind_lunit)
  moreover have "(word_of_nat pa :: 64 word) \<noteq> 0" using un pa(1) by auto
  then have "entry_ok pos (vpath va ?l) ?k e" using e lf by (simp add: entry_ok_def)
  then have "pt_inv ?self pos" by (intro pt_inv_put[OF inv post xs(1)]) auto
  moreover have "hw_walk ((tables self)(t \<mapsto> xs[?k := e])) ?l t x = Some (?l, e)"
    if "vidx x ?l = ?k" for x
    using that e(2) lf xs(2) by (cases ?l) (auto simp: Let_def)
  ultimately show ?thesis using put_walk[OF inv t d xs refl, of e] e(3-5)
    by (intro exI[of _ ?self] exI[of _ e]) auto
qed


section \<open>Chunks of the address space\<close>

text \<open>Sv39 translates the low 39 bits of an address.\<close>

abbreviation low39 :: "nat \<Rightarrow> nat" where
  "low39 x \<equiv> x mod 2 ^ 39"

lemma mod_div_pow: "(x :: nat) mod 2 ^ (a + b) div 2 ^ a = x div 2 ^ a mod 2 ^ b"
  by (simp add: power_add mod_mult2_eq)

lemma mod_pair_iff:
  "(y :: nat) mod (512 * n) = z mod (512 * n) \<longleftrightarrow> y div 512 mod n = z div 512 mod n \<and> y mod 512 = z mod 512"
proof -
  have "512 * a + b = 512 * c + d \<longleftrightarrow> a = c \<and> b = d" if "b < 512" "d < 512" for a b c d :: nat
  proof
    assume eq: "512 * a + b = 512 * c + d"
    then have "(512 * a + b) div 512 = (512 * c + d) div 512" by simp
    then have "a = c" using that by simp
    with eq show "a = c \<and> b = d" by simp
  qed simp
  then show ?thesis by (simp add: mod_mult2_eq)
qed

lemma div_eq_range:
  assumes "0 < (c :: nat)"
  shows "y div c = q \<longleftrightarrow> c * q \<le> y \<and> y < c * q + c"
proof
  assume "y div c = q"
  then have "y = c * q + y mod c" by (metis mult_div_mod_eq)
  moreover have "y mod c < c" using assms by simp
  ultimately show "c * q \<le> y \<and> y < c * q + c" by linarith
next
  assume "c * q \<le> y \<and> y < c * q + c"
  then show "y div c = q" by (intro div_nat_eqI) (auto simp: algebra_simps)
qed

lemma div_512: "x div 2 ^ 12 div 512 = (x :: nat) div 2 ^ 21" "x div 2 ^ 21 div 512 = x div 2 ^ 30"
  by (simp_all flip: div_mult2_eq)

lemma same_chunk_iff:
  assumes "l \<le> 2"
  shows "vpath x l = vpath v l \<and> vidx x l = vidx v l \<longleftrightarrow>
    low39 x div 2 ^ (12 + 9 * l) = low39 v div 2 ^ (12 + 9 * l)"
proof -
  have f2: "low39 y div 2 ^ 30 = y div 2 ^ 30 mod 512" for y :: nat
    using mod_div_pow[of y 30 9] by simp
  have f1: "low39 y div 2 ^ 21 = y div 2 ^ 21 mod (512 * 512)" for y :: nat
    using mod_div_pow[of y 21 18] by simp
  have f0: "low39 y div 2 ^ 12 = y div 2 ^ 12 mod (512 * (512 * 512))" for y :: nat
    using mod_div_pow[of y 12 27] by simp
  note i1 = mod_pair_iff[of "x div 2 ^ 21" 512 "v div 2 ^ 21", unfolded div_512]
  note i0 = mod_pair_iff[of "x div 2 ^ 12" "512 * 512" "v div 2 ^ 12", unfolded div_512 i1]
  have exps: "12 + 9 * 2 = (30 :: nat)" "12 + 9 * 1 = (21 :: nat)" "12 + 9 * 0 = (12 :: nat)" by simp_all
  consider "l = 0" | "l = 1" | "l = 2" using assms by linarith
  then show ?thesis
  proof cases
    case 1
    show ?thesis unfolding 1 vpath_simps vidx_def exps f0 i0 by auto
  next
    case 2
    show ?thesis unfolding 2 vpath_simps vidx_def exps f1 i1 by auto
  next
    case 3
    show ?thesis unfolding 3 vpath_simps vidx_def exps f2 by auto
  qed
qed

lemma chunk_range:
  assumes l: "l \<le> 2" and al: "2 ^ (12 + 9 * l) dvd v"
  shows "(vpath x l = vpath v l \<and> vidx x l = vidx v l \<longleftrightarrow>
      low39 v \<le> low39 x \<and> low39 x < low39 v + 2 ^ (12 + 9 * l))"
    and "low39 v \<le> low39 x \<Longrightarrow> low39 x < low39 v + 2 ^ (12 + 9 * l) \<Longrightarrow>
      x mod 2 ^ (12 + 9 * l) = low39 x - low39 v"
proof -
  let ?c = "2 ^ (12 + 9 * l) :: nat"
  have c39: "?c dvd 2 ^ 39" using l by (intro le_imp_power_dvd) simp
  then have "?c dvd low39 v" using al by (simp add: dvd_mod)
  then obtain q where q: "low39 v = ?c * q" by blast
  have eq: "low39 x div ?c = q \<longleftrightarrow> ?c * q \<le> low39 x \<and> low39 x < ?c * q + ?c"
    by (rule div_eq_range) simp
  show "(vpath x l = vpath v l \<and> vidx x l = vidx v l \<longleftrightarrow>
      low39 v \<le> low39 x \<and> low39 x < low39 v + ?c)"
    unfolding same_chunk_iff[OF l] q using eq by simp
  assume "low39 v \<le> low39 x" "low39 x < low39 v + ?c"
  then have "low39 x div ?c = q" using eq q by simp
  then have "low39 x mod ?c = low39 x - low39 v" using q by (simp add: modulo_nat_def mult.commute)
  then show "x mod ?c = low39 x - low39 v" using c39 by (simp add: mod_mod_cancel)
qed


section \<open>Correctness of mapping\<close>

lemma leaf_xlate:
  assumes l: "l \<le> 2" and al: "2 ^ (12 + 9 * l) dvd v" and p: "p < 2 ^ 56"
    and e: "pte_addr e = word_of_nat p" "get_xwr_mode e = Some mode" "pte_user e = user"
    and walk: "\<forall>x. hw_walk (tables self') 2 (root_table self') x =
      (if vpath x l = vpath v l \<and> vidx x l = vidx v l
       then Some (l, e) else hw_walk (tables self) 2 (root_table self) x)"
  shows "xlate self' x = (if low39 v \<le> low39 x \<and> low39 x < low39 v + 2 ^ (12 + 9 * l)
    then Some (p + (low39 x - low39 v), Some mode, user) else xlate self x)"
proof -
  have "unat (word_of_nat p :: 64 word) = p"
    using p by (simp add: unsigned_of_nat take_bit_nat_eq_self)
  then show ?thesis
    using walk e chunk_range[OF l al, of x] by (auto simp: xlate_def)
qed

definition map_args_ok :: "nat \<Rightarrow> nat \<Rightarrow> nat \<Rightarrow> xwr_mode \<Rightarrow> bool" where
  "map_args_ok va pa sz mode \<longleftrightarrow> PAGE_SIZE dvd va \<and> PAGE_SIZE dvd pa \<and> PAGE_SIZE dvd sz \<and> 0 < pa
     \<and> pa + sz \<le> 2 ^ 56 \<and> low39 va + sz \<le> 2 ^ 39 \<and> mode \<noteq> PointerToNextLevel"

lemma can_be_mapped_withD:
  assumes "can_be_mapped_with va pa sz c offset = Some True"
  shows "c \<le> sz - offset" "c dvd va + offset" "c dvd pa + offset"
  using assms
  by (auto simp: can_be_mapped_with_def is_aligned_def urem_def run_simps dvd_eq_mod_eq_0 split: if_splits)

lemma low39_offset:
  assumes "low39 va + sz \<le> 2 ^ 39" "offset < sz"
  shows "low39 (va + offset) = low39 va + offset"
proof -
  have "low39 (va + offset) = low39 (low39 va + offset)" by (simp add: mod_add_left_eq)
  also have "\<dots> = low39 va + offset" using assms by simp
  finally show ?thesis .
qed

lemma map_leaf_step:
  assumes ok: "map_args_ok va pa sz mode" and off: "offset < sz" "PAGE_SIZE dvd offset"
    and inv: "pt_inv self1 pos" and t: "below self1 (va + offset) d t" "d \<le> 2"
    and al: "2 ^ (12 + 9 * (2 - d)) dvd va + offset" and fit: "2 ^ (12 + 9 * (2 - d)) \<le> sz - offset"
    and same: "\<forall>x. hw_walk (tables self1) 2 (root_table self1) x = hw_walk (tables self) 2 (root_table self) x"
  shows "\<exists>self'. write_leaf self1 t (va + offset) (2 - d) (pa + offset) mode user = Some self'
    \<and> pt_inv self' pos \<and> root_table self' = root_table self1 \<and> already_mapped self' = already_mapped self1
    \<and> (\<forall>x. xlate self' x = (if low39 va + offset \<le> low39 x \<and> low39 x < low39 va + offset + 2 ^ (12 + 9 * (2 - d))
          then Some (pa + (low39 x - low39 va), Some mode, user) else xlate self x))"
proof -
  let ?c = "2 ^ (12 + 9 * (2 - d)) :: nat"
  have args: "0 < pa + offset" "PAGE_SIZE dvd pa + offset" "pa + offset < 2 ^ 56"
      "mode \<noteq> PointerToNextLevel"
    using ok off by (auto simp: map_args_ok_def)
  obtain self' e where w: "write_leaf self1 t (va + offset) (2 - d) (pa + offset) mode user = Some self'"
      "pt_inv self' pos" "root_table self' = root_table self1" "already_mapped self' = already_mapped self1"
      "pte_addr e = word_of_nat (pa + offset)" "get_xwr_mode e = Some mode" "pte_user e = user"
      "\<forall>x. hw_walk (tables self') 2 (root_table self') x =
          (if vpath x (2 - d) = vpath (va + offset) (2 - d) \<and> vidx x (2 - d) = vidx (va + offset) (2 - d)
           then Some (2 - d, e) else hw_walk (tables self1) 2 (root_table self1) x)"
    using write_leaf_ok[OF inv t args, of user] by blast
  have low: "low39 (va + offset) = low39 va + offset"
    using ok off(1) by (intro low39_offset) (auto simp: map_args_ok_def)
  have "xlate self' x = (if low39 va + offset \<le> low39 x \<and> low39 x < low39 va + offset + ?c
      then Some (pa + (low39 x - low39 va), Some mode, user) else xlate self x)" for x
    using leaf_xlate[OF _ al args(3) w(5,6,7,8), of x] low same
    by (auto simp: xlate_def)
  then show ?thesis using w(1-4) by blast
qed

lemma map_step_ok:
  assumes inv: "pt_inv self pos" and ok: "map_args_ok va pa sz mode"
    and off: "offset < sz" "PAGE_SIZE dvd offset"
    and run: "map_step self va pa sz mode user offset = Some (offset', self')"
  shows "\<exists>pos'. pt_inv self' pos' \<and> root_table self' = root_table self
    \<and> already_mapped self' = already_mapped self \<and> offset < offset' \<and> offset' \<le> sz \<and> PAGE_SIZE dvd offset'
    \<and> (\<forall>x. xlate self' x = (if low39 va + offset \<le> low39 x \<and> low39 x < low39 va + offset'
          then Some (pa + (low39 x - low39 va), Some mode, user) else xlate self x))"
proof -
  let ?v = "va + offset" and ?p = "pa + offset"
  obtain gib where gib: "can_be_mapped_with va pa sz (GiB 1) offset = Some gib"
    using run by (auto simp: map_step_def run_simps)
  have root: "below self ?v 0 (root_table self)" by simp
  consider (G) gib
    | (M) "\<not> gib" "can_be_mapped_with va pa sz (MiB 2) offset = Some True"
    | (P) "\<not> gib" "can_be_mapped_with va pa sz (MiB 2) offset = Some False"
    using run gib
    by (cases gib; cases "can_be_mapped_with va pa sz (MiB 2) offset")
      (auto simp: map_step_def run_simps)
  then show ?thesis
  proof cases
    case G
    note c = can_be_mapped_withD[OF gib[unfolded G[THEN eqTrueI]]]
    obtain w where w: "write_leaf self (root_table self) ?v 2 ?p mode user = Some w"
        "pt_inv w pos" "root_table w = root_table self" "already_mapped w = already_mapped self"
        "\<forall>x. xlate w x = (if low39 va + offset \<le> low39 x \<and> low39 x < low39 va + offset + GiB 1
          then Some (pa + (low39 x - low39 va), Some mode, user) else xlate self x)"
      using map_leaf_step[OF ok off inv root, of self user] c by (auto simp: GiB_def)
    have "offset' = offset + GiB 1" "self' = w"
      using run gib G w(1) by (auto simp: map_step_def run_simps)
    then show ?thesis using w c off by (intro exI[of _ pos]) (auto simp: GiB_def PAGE_SIZE_def add.assoc)
  next
    case M
    note c = can_be_mapped_withD[OF M(2)]
    obtain second s1 where e: "ensure_table self (root_table self) ?v 2 = Some (second, s1)"
        and rest: "write_leaf s1 second ?v 1 ?p mode user = Some self'" "offset' = offset + MiB 2"
      using run gib M by (auto simp: map_step_def run_simps)
    obtain pos1 where s1: "pt_inv s1 pos1" "keeps self pos s1 pos1" "below s1 ?v (Suc 0) second"
        "\<forall>x. hw_walk (tables s1) 2 (root_table s1) x = hw_walk (tables self) 2 (root_table self) x"
      using ensure_table_ok[OF inv root, of second s1] e by auto
    show ?thesis
      using map_leaf_step[OF ok off s1(1,3) _ _ _ s1(4), of user] rest c s1(2) off
      by (intro exI[of _ pos1]) (auto simp: MiB_def PAGE_SIZE_def keeps_def)
  next
    case P
    obtain second s1 third s2 where e: "ensure_table self (root_table self) ?v 2 = Some (second, s1)"
        "ensure_table s1 second ?v 1 = Some (third, s2)"
        and rest: "write_leaf s2 third ?v 0 ?p mode user = Some self'" "offset' = offset + PAGE_SIZE"
      using run gib P by (auto simp: map_step_def run_simps)
    obtain pos1 where s1: "pt_inv s1 pos1" "keeps self pos s1 pos1" "below s1 ?v (Suc 0) second"
        "\<forall>x. hw_walk (tables s1) 2 (root_table s1) x = hw_walk (tables self) 2 (root_table self) x"
      using ensure_table_ok[OF inv root, of second s1] e(1) by auto
    obtain pos2 where s2: "pt_inv s2 pos2" "keeps s1 pos1 s2 pos2" "below s2 ?v (Suc (Suc 0)) third"
        "\<forall>x. hw_walk (tables s2) 2 (root_table s2) x = hw_walk (tables s1) 2 (root_table s1) x"
      using ensure_table_ok[OF s1(1,3), of third s2] e(2) by auto
    have "PAGE_SIZE \<le> sz - offset"
      using ok off by (intro dvd_imp_le) (auto simp: map_args_ok_def)
    moreover have "PAGE_SIZE dvd ?v" using ok off by (simp add: map_args_ok_def)
    ultimately show ?thesis
      using map_leaf_step[OF ok off s2(1,3), of self user] rest s1(2,4) s2(2,4) off
      by (intro exI[of _ pos2]) (auto simp: PAGE_SIZE_def keeps_def)
  qed
qed


lemma map_loop_ok:
  assumes "map_loop self va pa sz mode user offset = Some self'" "pt_inv self pos"
    "map_args_ok va pa sz mode" "offset \<le> sz" "PAGE_SIZE dvd offset"
  shows "\<exists>pos'. pt_inv self' pos' \<and> root_table self' = root_table self
    \<and> already_mapped self' = already_mapped self
    \<and> (\<forall>x. xlate self' x = (if low39 va + offset \<le> low39 x \<and> low39 x < low39 va + sz
          then Some (pa + (low39 x - low39 va), Some mode, user) else xlate self x))"
  using assms
proof (induction self va pa sz mode user offset arbitrary: pos rule: map_loop.induct)
  case (1 self va pa sz mode user offset)
  show ?case
  proof (cases "offset < sz")
    case False
    then show ?thesis using 1(2,3,5) by (subst (asm) map_loop.simps) (auto intro!: exI[of _ pos])
  next
    case True
    obtain o1 s1 where st: "map_step self va pa sz mode user offset = Some (o1, s1)"
        and rest: "map_loop s1 va pa sz mode user o1 = Some self'"
      using 1(2) True by (subst (asm) map_loop.simps) (auto simp: run_simps)
    obtain pos1 where p1: "pt_inv s1 pos1" "root_table s1 = root_table self"
        "already_mapped s1 = already_mapped self" "offset < o1" "o1 \<le> sz" "PAGE_SIZE dvd o1"
        "\<forall>x. xlate s1 x = (if low39 va + offset \<le> low39 x \<and> low39 x < low39 va + o1
          then Some (pa + (low39 x - low39 va), Some mode, user) else xlate self x)"
      using map_step_ok[OF 1(3,4) True 1(6) st] by blast
    obtain pos' where "pt_inv self' pos'" "root_table self' = root_table s1"
        "already_mapped self' = already_mapped s1"
        "\<forall>x. xlate self' x = (if low39 va + o1 \<le> low39 x \<and> low39 x < low39 va + sz
          then Some (pa + (low39 x - low39 va), Some mode, user) else xlate s1 x)"
      using 1(1)[OF True st refl rest p1(1) 1(4) p1(5,6)] by blast
    then show ?thesis using p1 by (intro exI[of _ pos']) auto
  qed
qed

section \<open>The kernel's own walk\<close>

lemma hw_walk_cases:
  assumes inv: "pt_inv self pos"
  obtains (none) "hw_walk (tables self) 2 (root_table self) va = None" "walk_to_table self va = Some None"
  | (page) t xs where "hw_walk (tables self) 2 (root_table self) va = Some (0, xs ! vidx va 0)"
      "walk_to_table self va = Some (Some t)" "below self va 2 t" "tables self t = Some xs" "length xs = 512"
      "entry_ok pos (vpath va 0) (vidx va 0) (xs ! vidx va 0)" "pte_valid (xs ! vidx va 0)"
      "pte_leaf (xs ! vidx va 0)"
  | (huge) l e where "hw_walk (tables self) 2 (root_table self) va = Some (Suc l, e)"
      "walk_to_table self va = None"
proof -
  have leaf: "target_page_table e = None" if "entry_ok pos p i e" "pte_valid e" "pte_leaf e" for p i e
    using that pte_leaf_iff[of e] by (auto simp: entry_ok_def target_page_table_def is_leaf_def)
  have table: "target_page_table e = Some (pte_addr e)" "pos (pte_addr e) = Some (p @ [i])"
    if "entry_ok pos p i e" "pte_valid e" "\<not> pte_leaf e" for p i e
    using that pte_leaf_iff[of e] target_page_table_eq[of e] by (auto simp: entry_ok_def)
  have "pos (root_table self) = Some []" using inv by (simp add: pt_inv_def)
  then obtain xs where xs: "tables self (root_table self) = Some xs" "length xs = 512"
      "\<And>i. i < 512 \<Longrightarrow> entry_ok pos [] i (xs ! i)"
    using pt_inv_table[OF inv] by blast
  let ?e2 = "xs ! vidx va 2"
  have g2: "get_entry self (root_table self) va 2 = Some ?e2" by (rule get_entry_eq[OF xs(1,2)]) simp
  have ok2: "entry_ok pos [] (vidx va 2) ?e2" using xs(3) by simp
  have w2: "hw_walk (tables self) 2 (root_table self) va = (if \<not> pte_valid ?e2 then None
      else if pte_leaf ?e2 then Some (2, ?e2) else hw_walk (tables self) 1 (pte_addr ?e2) va)"
    using xs(1) by (simp add: numeral_2_eq_2 Let_def)
  show ?thesis
  proof (cases "pte_valid ?e2 \<and> \<not> pte_leaf ?e2")
    case False
    then show ?thesis
      using w2 g2 none huge[of 1 ?e2] leaf[OF ok2]
      by (cases "pte_valid ?e2") (auto simp: walk_to_table_def numeral_2_eq_2)
  next
    case True
    note t1 = table[OF ok2 True[THEN conjunct1] True[THEN conjunct2]]
    obtain ys where ys: "tables self (pte_addr ?e2) = Some ys" "length ys = 512"
        "\<And>i. i < 512 \<Longrightarrow> entry_ok pos [vidx va 2] i (ys ! i)"
      using pt_inv_table[OF inv t1(2)] by auto
    let ?e1 = "ys ! vidx va 1"
    have g1: "get_entry self (pte_addr ?e2) va 1 = Some ?e1" by (rule get_entry_eq[OF ys(1,2)]) simp
    have ok1: "entry_ok pos [vidx va 2] (vidx va 1) ?e1" using ys(3) by simp
    have w1: "hw_walk (tables self) 1 (pte_addr ?e2) va = (if \<not> pte_valid ?e1 then None
        else if pte_leaf ?e1 then Some (1, ?e1) else hw_walk (tables self) 0 (pte_addr ?e1) va)"
      using ys(1) by (simp add: Let_def)
    show ?thesis
    proof (cases "pte_valid ?e1 \<and> \<not> pte_leaf ?e1")
      case False
      then show ?thesis
        using w2 w1 g2 g1 t1(1) True none huge[of 0 ?e1] leaf[OF ok1]
        by (cases "pte_valid ?e1") (auto simp: walk_to_table_def)
    next
      case True1: True
      note t0 = table[OF ok1 True1[THEN conjunct1] True1[THEN conjunct2]]
      obtain zs where zs: "tables self (pte_addr ?e1) = Some zs" "length zs = 512"
          "\<And>i. i < 512 \<Longrightarrow> entry_ok pos [vidx va 2, vidx va 1] i (zs ! i)"
        using pt_inv_table[OF inv t0(2)] by auto
      let ?e0 = "zs ! vidx va 0"
      have g0: "get_entry self (pte_addr ?e1) va 0 = Some ?e0" by (rule get_entry_eq[OF zs(1,2)]) simp
      have ok0: "entry_ok pos (vpath va 0) (vidx va 0) ?e0" using zs(3) by (simp add: vpath_simps)
      have b: "below self va 2 (pte_addr ?e1)"
        using xs(1) ys(1) True True1 by (auto simp: numeral_2_eq_2)
      have lf: "pte_leaf ?e0" if "pte_valid ?e0"
        using ok0 that by (auto simp: entry_ok_def vpath_simps)
      have walk: "walk_to_table self va = Some (if pte_valid ?e0 then Some (pte_addr ?e1) else None)"
        using g2 g1 g0 t1(1) t0(1) True True1 by (simp add: walk_to_table_def)
      have hw: "hw_walk (tables self) 2 (root_table self) va = (if pte_valid ?e0 then Some (0, ?e0) else None)"
        using w2 w1 True True1 zs(1) lf by (auto simp: Let_def)
      show ?thesis
        using none page[of zs "pte_addr ?e1"] walk hw b zs(1,2) ok0 lf by (cases "pte_valid ?e0") auto
    qed
  qed
qed


section \<open>Mapping returns\<close>

lemma below_not_leaf:
  assumes "pt_inv self pos" "below self va d t" "d \<le> 2" "xlate self va = None"
    and "tables self t = Some xs" "pte_valid (xs ! vidx va (2 - d))"
  shows "d < 2 \<and> \<not> pte_leaf (xs ! vidx va (2 - d))"
proof -
  have w: "hw_walk (tables self) (2 - d) t va = None"
    using below_walk[OF assms(2,3) refl] assms(4) by (simp add: xlate_def)
  have "\<not> pte_leaf (xs ! vidx va (2 - d))"
    using w assms(5,6) by (cases "2 - d") (auto simp: Let_def split: if_splits)
  moreover have "pte_leaf (xs ! vidx va 0)" if "d = 2"
  proof -
    have "pos t = Some (vpath va 0)" using below_pos[OF assms(1-3)] that by simp
    then obtain ys where "tables self t = Some ys" "entry_ok pos (vpath va 0) (vidx va 0) (ys ! vidx va 0)"
      using pt_inv_table[OF assms(1)] vidx_less by metis
    then show ?thesis using assms(5,6) that by (auto simp: entry_ok_def vpath_simps)
  qed
  ultimately show ?thesis using assms(3) by (cases "d = 2") auto
qed

lemma ensure_table_returns:
  assumes inv: "pt_inv self pos" and t: "below self va d t" and d: "d < 2"
    and x: "xlate self va = None" and b: "boxes self = n # ns"
  shows "\<exists>t' self'. ensure_table self t va (2 - d) = Some (t', self') \<and> (boxes self' = ns \<or> boxes self' = n # ns)"
proof -
  let ?l = "2 - d" and ?k = "vidx va (2 - d)"
  have post: "pos t = Some (vpath va ?l)" using below_pos[OF inv t] d by simp
  obtain xs where xs: "tables self t = Some xs" "length xs = 512"
      "\<And>i. i < 512 \<Longrightarrow> entry_ok pos (vpath va ?l) i (xs ! i)"
    using pt_inv_table[OF inv post] by blast
  have e: "get_entry self t va ?l = Some (xs ! ?k)" by (rule get_entry_eq[OF xs(1,2)]) simp
  show ?thesis
  proof (cases "pte_valid (xs ! ?k)")
    case True
    then have "\<not> pte_leaf (xs ! ?k)" using below_not_leaf[OF inv t _ x xs(1)] d by simp
    then have "target_page_table (xs ! ?k) = Some (pte_addr (xs ! ?k))" "pte_addr (xs ! ?k) \<noteq> 0"
      using xs(3)[of ?k] True pte_leaf_iff[of "xs ! ?k"] target_page_table_eq[of "xs ! ?k"]
      by (auto simp: entry_ok_def)
    then show ?thesis using e b by (simp add: ensure_table_def)
  next
    case False
    then have z: "xs ! ?k = 0" using xs(3)[of ?k] by (simp add: entry_ok_def)
    let ?e = "set_bit 0 (set_page_bits n 0)"
    have n: "table_addr_ok n" "n \<noteq> t" using inv b post by (auto simp: pt_inv_def)
    have te: "target_page_table ?e = Some n"
      using make_table_entry[of n] n(1) target_page_table_eq[of ?e] by (auto simp: table_addr_ok_def)
    let ?s1 = "self\<lparr>tables := (tables self)(n \<mapsto> replicate 512 0), boxes := ns\<rparr>"
    let ?s2 = "?s1\<lparr>tables := (tables ?s1)(t \<mapsto> xs[?k := ?e])\<rparr>"
    have "put_entry ?s1 t va ?l ?e = Some ?s2" using n(2) xs by (intro put_entry_eq) auto
    moreover have "get_entry ?s2 t va ?l = Some ?e"
      using xs by (subst get_entry_eq[of _ _ "xs[?k := ?e]"]) auto
    ultimately show ?thesis using e z b te
      by (simp add: ensure_table_def box_page_table_def set_physical_address_def)
  qed
qed

lemma map_step_returns:
  assumes inv: "pt_inv self pos" and ok: "map_args_ok va pa sz mode" "va + sz \<le> 2 ^ 64"
    and off: "offset < sz" "PAGE_SIZE dvd offset" and small: "sz < MiB 2"
    and x: "xlate self (va + offset) = None" and b: "2 \<le> length (boxes self)"
  shows "\<exists>offset' self'. map_step self va pa sz mode user offset = Some (offset', self')
    \<and> length (boxes self) \<le> length (boxes self') + 2"
proof -
  let ?v = "va + offset" and ?p = "pa + offset"
  have lt: "?v < 2 ^ 64" "?p < 2 ^ 56" using ok off by (auto simp: map_args_ok_def)
  have al: "?v mod PAGE_SIZE = 0" "?p mod PAGE_SIZE = 0"
    using ok off by (auto simp: map_args_ok_def)
  obtain n1 n2 ns where b2: "boxes self = n1 # n2 # ns"
    using b by (cases "boxes self"; cases "tl (boxes self)") auto
  have root: "below self ?v 0 (root_table self)" by simp
  obtain t1 s1 where e1: "ensure_table self (root_table self) ?v 2 = Some (t1, s1)"
      "boxes s1 = n2 # ns \<or> boxes s1 = n1 # n2 # ns"
    using ensure_table_returns[OF inv root _ x b2] by auto
  obtain pos1 where s1: "pt_inv s1 pos1" "below s1 ?v (Suc 0) t1"
      "\<forall>x. hw_walk (tables s1) 2 (root_table s1) x = hw_walk (tables self) 2 (root_table self) x"
    using ensure_table_ok[OF inv root, of t1 s1] e1 by auto
  have x1: "xlate s1 ?v = None" using x s1(3) by (simp add: xlate_def)
  obtain m ms where m: "boxes s1 = m # ms" "length ns \<le> length ms" using e1(2) by auto
  obtain t0 s2 where e2: "ensure_table s1 t1 ?v 1 = Some (t0, s2)" "boxes s2 = ms \<or> boxes s2 = m # ms"
    using ensure_table_returns[OF s1(1,2) _ x1 m(1)] by auto
  obtain pos2 where s2: "pt_inv s2 pos2" "below s2 ?v 2 t0"
      "\<forall>x. hw_walk (tables s2) 2 (root_table s2) x = hw_walk (tables s1) 2 (root_table s1) x"
    using ensure_table_ok[OF s1(1,2), of t0 s2] e2 by (auto simp: numeral_2_eq_2)
  have post: "pos2 t0 = Some (vpath ?v 0)" using below_pos[OF s2(1,2)] by simp
  obtain xs where xs: "tables s2 t0 = Some xs" "length xs = 512" using pt_inv_table[OF s2(1) post] by blast
  have "xlate s2 ?v = None" using x1 s2(3) by (simp add: xlate_def)
  then have "\<not> pte_valid (xs ! vidx ?v 0)" using below_not_leaf[OF s2(1,2) _ _ xs(1)] by auto
  moreover have "get_entry s2 t0 ?v 0 = Some (xs ! vidx ?v 0)" by (rule get_entry_eq[OF xs]) simp
  moreover obtain self' where w: "write_leaf s2 t0 ?v 0 ?p mode user = Some self'"
    using write_leaf_ok[OF s2(1,2), of ?p mode user] ok(1) off lt(2) by (auto simp: map_args_ok_def)
  moreover have "boxes self' = boxes s2"
    using w by (auto simp: write_leaf_def put_entry_def run_simps)
  moreover have "can_be_mapped_with va pa sz (GiB 1) offset = Some False"
      "can_be_mapped_with va pa sz (MiB 2) offset = Some False"
    using small by (auto simp: can_be_mapped_with_def MiB_def GiB_def)
  ultimately show ?thesis
    using lt al e1(1) e2 m b2
    by (auto simp: map_step_def uadd_def is_aligned_def urem_def)
qed

lemma map_loop_returns:
  assumes "pt_inv self pos" "map_args_ok va pa sz mode" "va + sz \<le> 2 ^ 64" "offset \<le> sz"
    "PAGE_SIZE dvd offset" "sz < MiB 2"
    "\<And>x. low39 va + offset \<le> low39 x \<Longrightarrow> low39 x < low39 va + sz \<Longrightarrow> xlate self x = None"
    "2 * (sz - offset) \<le> length (boxes self) * PAGE_SIZE"
  shows "\<exists>self'. map_loop self va pa sz mode user offset = Some self'"
  using assms
proof (induction self va pa sz mode user offset arbitrary: pos rule: map_loop.induct)
  case (1 self va pa sz mode user offset)
  show ?case
  proof (cases "offset < sz")
    case False
    then show ?thesis by (subst map_loop.simps) simp
  next
    case True
    have low: "low39 (va + offset) = low39 va + offset"
      using "1.prems"(2) True by (intro low39_offset) (auto simp: map_args_ok_def)
    have "PAGE_SIZE \<le> sz - offset"
      using "1.prems"(2,5) True by (intro dvd_imp_le) (auto simp: map_args_ok_def)
    then have b: "2 \<le> length (boxes self)"
      using "1.prems"(8) True
      by (cases "length (boxes self)"; cases "length (boxes self) - 1") (auto simp: PAGE_SIZE_def)
    obtain o1 s1 where st: "map_step self va pa sz mode user offset = Some (o1, s1)"
        "length (boxes self) \<le> length (boxes s1) + 2"
      using map_step_returns[OF "1.prems"(1-3) True "1.prems"(5,6) _ b] "1.prems"(7) low True by force
    obtain pos1 where p1: "pt_inv s1 pos1" "offset < o1" "o1 \<le> sz" "PAGE_SIZE dvd o1"
        "\<forall>x. xlate s1 x = (if low39 va + offset \<le> low39 x \<and> low39 x < low39 va + o1
          then Some (pa + (low39 x - low39 va), Some mode, user) else xlate self x)"
      using map_step_ok[OF "1.prems"(1,2) True "1.prems"(5) st(1)] by blast
    have "offset + PAGE_SIZE \<le> o1"
    proof -
      have "PAGE_SIZE \<le> o1 - offset" using p1(2,4) "1.prems"(5) by (intro dvd_imp_le) auto
      then show ?thesis using p1(2) by linarith
    qed
    moreover have "length (boxes self) * PAGE_SIZE \<le> (length (boxes s1) + 2) * PAGE_SIZE"
      using st(2) by (rule mult_le_mono1)
    ultimately have "2 * (sz - o1) \<le> length (boxes s1) * PAGE_SIZE"
      using "1.prems"(8) by (simp add: PAGE_SIZE_def)
    then have "\<exists>self'. map_loop s1 va pa sz mode user o1 = Some self'"
      using "1.prems"(2,3,6,7) p1 by (intro "1.IH"[OF True st(1) refl, of pos1]) auto
    then show ?thesis using True st(1) by (subst map_loop.simps) simp
  qed
qed

section \<open>Properties of the page tables\<close>

lemma xlate_registered [simp]: "xlate (self\<lparr>already_mapped := ms\<rparr>) x = xlate self x"
  by (simp add: xlate_def)

lemma pt_inv_registered [simp]: "pt_inv (self\<lparr>already_mapped := ms\<rparr>) pos = pt_inv self pos"
  by (simp add: pt_inv_def)

definition pt_well_formed :: "root_page_table_holder \<Rightarrow> bool" where
  "pt_well_formed self \<longleftrightarrow> (\<exists>pos. pt_inv self pos)"

lemma pt_map_ok:
  assumes "pt_inv self pos" "pt_map self va pa sz mode user name = Some self'"
    "align_up sz PAGE_SIZE = Some n" "0 < pa" "pa + n \<le> 2 ^ 56" "low39 va + n \<le> 2 ^ 39"
    "mode \<noteq> PointerToNextLevel"
  shows "pt_well_formed self'
    \<and> (\<forall>x. xlate self' x = (if low39 va \<le> low39 x \<and> low39 x < low39 va + n
        then Some (pa + (low39 x - low39 va), Some mode, user) else xlate self x))
    \<and> already_mapped self' = already_mapped self @
        [\<lparr>range_start = va, range_end = va + (n - 1), mapping_name = name, privileges = mode\<rparr>]"
proof -
  let ?m = "\<lparr>range_start = va, range_end = va + (n - 1), mapping_name = name, privileges = mode\<rparr>"
  have al: "PAGE_SIZE dvd va" "PAGE_SIZE dvd pa"
      and run: "map_loop (self\<lparr>already_mapped := already_mapped self @ [?m]\<rparr>) va pa n mode user 0 = Some self'"
    using assms(2,3) by (auto simp: pt_map_def run_simps va_page_aligned_iff)
  have "PAGE_SIZE dvd n" using align_up_SomeD[OF assms(3)] by simp
  then have ok: "map_args_ok va pa n mode" using al assms(4-7) by (simp add: map_args_ok_def)
  show ?thesis
    using map_loop_ok[OF run _ ok, of pos] assms(1) by (auto simp: pt_well_formed_def)
qed

lemma pt_map_defined:
  assumes "pt_inv self pos" "align_up sz PAGE_SIZE = Some n" "0 < sz" "n < MiB 2"
    "PAGE_SIZE dvd va" "PAGE_SIZE dvd pa" "0 < va" "0 < pa" "va + n \<le> 2 ^ 64" "pa + n \<le> 2 ^ 56"
    "low39 va + n \<le> 2 ^ 39" "mode \<noteq> PointerToNextLevel"
    "\<not> is_mapped self (va, va + (n - 1))"
    "\<And>x. low39 va \<le> low39 x \<Longrightarrow> low39 x < low39 va + n \<Longrightarrow> xlate self x = None"
    "2 * n \<le> length (boxes self) * PAGE_SIZE"
  shows "\<exists>self'. pt_map self va pa sz mode user name = Some self'"
proof -
  let ?m = "\<lparr>range_start = va, range_end = va + (n - 1), mapping_name = name, privileges = mode\<rparr>"
  let ?self = "self\<lparr>already_mapped := already_mapped self @ [?m]\<rparr>"
  have n: "PAGE_SIZE dvd n" "sz \<le> n" using align_up_SomeD[OF assms(2)] by auto
  have ok: "map_args_ok va pa n mode" using n(1) assms by (simp add: map_args_ok_def)
  have "\<exists>self'. map_loop ?self va pa n mode user 0 = Some self'"
    using assms by (intro map_loop_returns[OF _ ok, of _ pos]) auto
  then show ?thesis
    using assms n by (auto simp: pt_map_def va_page_aligned_iff uadd_def is_mapped_def)
qed

lemma holder_empty_ok:
  assumes "distinct (t # ts)" "\<forall>u\<in>set (t # ts). table_addr_ok u"
  shows "\<exists>h. holder_empty (t # ts) = Some h \<and> pt_inv h [t \<mapsto> []] \<and> (\<forall>x. xlate h x = None)
    \<and> already_mapped h = [] \<and> boxes h = ts \<and> tables h (root_table h) = Some (replicate 512 0)"
proof -
  have "hw_walk [t \<mapsto> replicate 512 0] 2 t x = None" for x by (intro hw_walk_empty) simp
  then show ?thesis
    using assms by (auto simp: holder_empty_def box_page_table_def pt_inv_def xlate_def split: if_splits)
qed

section \<open>User pointers\<close>

definition user_access :: "root_page_table_holder \<Rightarrow> bool \<Rightarrow> nat \<Rightarrow> bool" where
  "user_access self writable a \<longleftrightarrow> (case xlate self a of
     Some (_, Some m, user) \<Rightarrow> user \<and> m \<in> {ReadOnly, ReadWrite, ReadExecute} \<and> (writable \<longrightarrow> m = ReadWrite)
   | _ \<Rightarrow> False)"

definition huge_at :: "root_page_table_holder \<Rightarrow> nat \<Rightarrow> bool" where
  "huge_at self a \<longleftrightarrow> (\<exists>l e. hw_walk (tables self) 2 (root_table self) a = Some (Suc l, e))"

lemma vidx_page: "a div PAGE_SIZE = b div PAGE_SIZE \<Longrightarrow> vidx a l = vidx b l"
  by (simp add: vidx_def PAGE_SIZE_def power_add div_mult2_eq)

lemma hw_walk_page: "a div PAGE_SIZE = b div PAGE_SIZE \<Longrightarrow> hw_walk T l t a = hw_walk T l t b"
  by (induction l arbitrary: t) (simp_all add: vidx_page[of a b] Let_def split: option.splits)

lemma user_access_page:
  assumes "a div PAGE_SIZE = b div PAGE_SIZE" shows "user_access self w a = user_access self w b"
  using hw_walk_page[OF assms, of "tables self" 2 "root_table self"]
  by (auto simp: user_access_def xlate_def split: option.splits)

lemma huge_at_page:
  assumes "a div PAGE_SIZE = b div PAGE_SIZE" shows "huge_at self a = huge_at self b"
  using hw_walk_page[OF assms, of "tables self" 2 "root_table self"] by (simp add: huge_at_def)

lemma walk_to_entry_cases:
  assumes inv: "pt_inv self pos"
  obtains (none) "xlate self va = None" "\<not> huge_at self va" "walk_to_entry self va = Some None"
  | (page) e where "hw_walk (tables self) 2 (root_table self) va = Some (0, e)" "\<not> huge_at self va"
      "walk_to_entry self va = Some (Some e)" "pte_valid e" "get_xwr_mode e \<noteq> None"
  | (huge) "huge_at self va" "walk_to_entry self va = None"
proof (cases rule: hw_walk_cases[OF inv, of va])
  case (2 t xs)
  note page = 2
  have "get_entry self t va 0 = Some (xs ! vidx va 0)" by (rule get_entry_eq[OF page(4,5)]) simp
  then show ?thesis using page that(2)[of "xs ! vidx va 0"] by (auto simp: walk_to_entry_def entry_ok_def huge_at_def)
qed (auto simp: walk_to_entry_def xlate_def huge_at_def that)

lemma fat_ptr_loop_step:
  assumes "pt_inv self pos" "\<not> huge_at self a"
  shows "fat_ptr_loop self w l a = (if \<not> user_access self w a then Some False
    else if a = l then Some True
    else do { b \<leftarrow> uadd a PAGE_SIZE; fat_ptr_loop self w l b })"
proof (cases rule: walk_to_entry_cases[OF assms(1), of a])
  case 1
  then show ?thesis by (subst fat_ptr_loop.simps) (simp add: user_access_def)
next
  case (2 e)
  then obtain m where m: "get_xwr_mode e = Some m" by blast
  show ?thesis
    by (subst fat_ptr_loop.simps) (use 2 m in \<open>simp add: user_access_def xlate_def\<close>)
next
  case 3
  then show ?thesis using assms(2) by simp
qed

lemma fat_ptr_loop_eq:
  assumes "pt_inv self pos" "first \<le> lastp" "lastp * PAGE_SIZE < 2 ^ 64"
    "\<And>p. first \<le> p \<Longrightarrow> p \<le> lastp \<Longrightarrow> \<not> huge_at self (p * PAGE_SIZE)"
  shows "fat_ptr_loop self w (lastp * PAGE_SIZE) (first * PAGE_SIZE) =
    Some (\<forall>p. first \<le> p \<longrightarrow> p \<le> lastp \<longrightarrow> user_access self w (p * PAGE_SIZE))"
  using assms(2-)
proof (induction "lastp - first" arbitrary: first)
  case 0
  then have eq: "first = lastp" by simp
  have nh: "\<not> huge_at self (lastp * PAGE_SIZE)" using 0 by simp
  have "(\<forall>p. lastp \<le> p \<longrightarrow> p \<le> lastp \<longrightarrow> P p) = P lastp" for P by auto
  then show ?case unfolding eq by (subst fat_ptr_loop_step[OF assms(1) nh]) simp
next
  case (Suc n)
  let ?a = "first * PAGE_SIZE"
  have lt: "first < lastp" using Suc.hyps(2) by simp
  have "fat_ptr_loop self w (lastp * PAGE_SIZE) (Suc first * PAGE_SIZE) =
      Some (\<forall>p. Suc first \<le> p \<longrightarrow> p \<le> lastp \<longrightarrow> user_access self w (p * PAGE_SIZE))"
    using Suc.hyps(2) Suc.prems lt by (intro Suc.hyps(1)) auto
  moreover have "(\<forall>p. first \<le> p \<longrightarrow> p \<le> lastp \<longrightarrow> P p) \<longleftrightarrow> P first \<and> (\<forall>p. Suc first \<le> p \<longrightarrow> p \<le> lastp \<longrightarrow> P p)" for P
    using lt by (metis Suc_le_eq le_eq_less_or_eq)
  moreover have "?a \<noteq> lastp * PAGE_SIZE" using lt by (simp add: PAGE_SIZE_def)
  moreover have "Suc first * PAGE_SIZE \<le> lastp * PAGE_SIZE" using lt by (intro mult_le_mono1) simp
  then have "uadd ?a PAGE_SIZE = Some (Suc first * PAGE_SIZE)"
    using Suc.prems(2) by (simp add: uadd_def add.commute)
  moreover have "\<not> huge_at self ?a" using Suc.prems(1,3) by simp
  ultimately show ?case by (subst fat_ptr_loop_step[OF assms(1)]) (simp_all del: mult_Suc)
qed

lemma page_cover:
  assumes "start \<le> (lastb :: nat)" "\<And>a b. a div PAGE_SIZE = b div PAGE_SIZE \<Longrightarrow> P a = P b"
  shows "(\<forall>p. start div PAGE_SIZE \<le> p \<longrightarrow> p \<le> lastb div PAGE_SIZE \<longrightarrow> P (p * PAGE_SIZE)) \<longleftrightarrow>
    (\<forall>a. start \<le> a \<longrightarrow> a \<le> lastb \<longrightarrow> P a)"
proof safe
  fix a assume pg: "\<forall>p\<ge>start div PAGE_SIZE. p \<le> lastb div PAGE_SIZE \<longrightarrow> P (p * PAGE_SIZE)" and "start \<le> a" "a \<le> lastb"
  then have "P (a div PAGE_SIZE * PAGE_SIZE)" by (simp add: div_le_mono)
  then show "P a" using assms(2)[of a "a div PAGE_SIZE * PAGE_SIZE"] by (simp add: PAGE_SIZE_def)
next
  fix p assume all: "\<forall>a\<ge>start. a \<le> lastb \<longrightarrow> P a" and p: "start div PAGE_SIZE \<le> p" "p \<le> lastb div PAGE_SIZE"
  let ?a = "max start (p * PAGE_SIZE)"
  have "p * PAGE_SIZE \<le> lastb"
    using p(2) by (metis div_times_less_eq_dividend le_trans mult_le_mono1)
  then have "P ?a" using all assms(1) by simp
  moreover have "?a div PAGE_SIZE = p * PAGE_SIZE div PAGE_SIZE"
  proof (cases "start \<le> p * PAGE_SIZE")
    case False
    then have "p \<le> start div PAGE_SIZE" by (intro iffD2[OF less_eq_div_iff_mult_less_eq]) (auto simp: PAGE_SIZE_def)
    then show ?thesis using False p(1) by (simp add: PAGE_SIZE_def max_def)
  qed (simp add: max_def)
  ultimately show "P (p * PAGE_SIZE)" using assms(2) by blast
qed

lemma fat_ptr_eq:
  assumes inv: "pt_inv self pos"
    and nh: "\<And>a. start \<le> a \<Longrightarrow> a < start + sz * len \<Longrightarrow> a < 2 ^ 64 \<Longrightarrow> \<not> huge_at self a"
  shows "is_valid_userspace_fat_ptr self start sz len w =
    Some (sz * len = 0 \<or> sz * len < 2 ^ 64 \<and> start + sz * len \<le> 2 ^ 64
      \<and> (\<forall>a. start \<le> a \<longrightarrow> a < start + sz * len \<longrightarrow> user_access self w a))"
proof (cases "0 < sz * len \<and> sz * len < 2 ^ 64 \<and> start + sz * len \<le> 2 ^ 64")
  case False
  then show ?thesis by (auto simp: is_valid_userspace_fat_ptr_def umul_def uadd_def)
next
  case True
  let ?l = "start + (sz * len - 1)"
  have l: "?l < 2 ^ 64" "start \<le> ?l" using True by linarith+
  have ale: "a \<le> ?l \<longleftrightarrow> a < start + sz * len" for a using True by linarith
  have pg: "x - x mod PAGE_SIZE = x div PAGE_SIZE * PAGE_SIZE" for x :: nat
    by (simp add: minus_mod_eq_div_mult)
  have huge: "\<not> huge_at self (p * PAGE_SIZE)" if "start div PAGE_SIZE \<le> p" "p \<le> ?l div PAGE_SIZE" for p
  proof -
    have "\<forall>a. start \<le> a \<longrightarrow> a \<le> ?l \<longrightarrow> \<not> huge_at self a" 
      using nh True unfolding ale by simp
    then show ?thesis
      using page_cover[of start ?l "\<lambda>a. \<not> huge_at self a"] huge_at_page[of _ _ self] l(2) that by blast
  qed
  have "?l div PAGE_SIZE * PAGE_SIZE \<le> ?l" by (rule div_times_less_eq_dividend)
  then have lt: "?l div PAGE_SIZE * PAGE_SIZE < 2 ^ 64" using l(1) by (rule order.strict_trans1)
  have "fat_ptr_loop self w (?l div PAGE_SIZE * PAGE_SIZE) (start div PAGE_SIZE * PAGE_SIZE) =
      Some (\<forall>p. start div PAGE_SIZE \<le> p \<longrightarrow> p \<le> ?l div PAGE_SIZE \<longrightarrow> user_access self w (p * PAGE_SIZE))"
    by (rule fat_ptr_loop_eq[OF inv div_le_mono[OF l(2)] lt huge])
  also have "\<dots> = Some (\<forall>a. start \<le> a \<longrightarrow> a \<le> ?l \<longrightarrow> user_access self w a)"
    by (simp only: page_cover[of start ?l "user_access self w", OF l(2) user_access_page])
  finally have "fat_ptr_loop self w (?l div PAGE_SIZE * PAGE_SIZE) (start div PAGE_SIZE * PAGE_SIZE) =
      Some (\<forall>a. start \<le> a \<longrightarrow> a \<le> ?l \<longrightarrow> user_access self w a)" .
  moreover have "umul sz len = Some (sz * len)" "uadd start (sz * len - 1) = Some ?l"
    using True l(1) by (auto simp: umul_def uadd_def)
  ultimately show ?thesis
    using True by (simp add: is_valid_userspace_fat_ptr_def Let_def pg flip: ale)
qed


section \<open>Changing and removing leaves\<close>

text \<open>Overwriting the third-level entry that a walk ends in.\<close>

lemma put_page_ok:
  assumes inv: "pt_inv self pos" and al: "PAGE_SIZE dvd va"
    and w: "walk_to_table self va = Some (Some t)" and e: "entry_ok pos (vpath va 0) (vidx va 0) e"
  shows "\<exists>self' e0. get_entry self t va 0 = Some e0 \<and> hw_walk (tables self) 2 (root_table self) va = Some (0, e0)
    \<and> put_entry self t va 0 e = Some self' \<and> pt_inv self' pos \<and> root_table self' = root_table self
    \<and> already_mapped self' = already_mapped self \<and> boxes self' = boxes self
    \<and> (\<forall>x. hw_walk (tables self') 2 (root_table self') x =
          (if low39 va \<le> low39 x \<and> low39 x < low39 va + PAGE_SIZE
           then (if pte_valid e then Some (0, e) else None) else hw_walk (tables self) 2 (root_table self) x))"
proof (cases rule: hw_walk_cases[OF inv, of va])
  case (2 u xs)
  then have t: "u = t" using w by simp
  note page = 2[unfolded t]
  let ?T = "(tables self)(t \<mapsto> xs[vidx va 0 := e])"
  have post: "pos t = Some (vpath va 0)" using below_pos[OF inv page(3)] by simp
  have g: "get_entry self t va 0 = Some (xs ! vidx va 0)" by (rule get_entry_eq[OF page(4,5)]) simp
  have p: "put_entry self t va 0 e = Some (self\<lparr>tables := ?T\<rparr>)" by (rule put_entry_eq[OF page(4,5)]) simp
  have i: "pt_inv (self\<lparr>tables := ?T\<rparr>) pos" by (rule pt_inv_put[OF inv post page(4) vidx_less e])
  have lf: "pte_valid e \<Longrightarrow> pte_leaf e" using e by (simp add: entry_ok_def vpath_simps)
  have al': "2 ^ (12 + 9 * 0) dvd va" using al by (simp add: PAGE_SIZE_def)
  have "hw_walk ?T 2 (root_table self) x = (if low39 va \<le> low39 x \<and> low39 x < low39 va + PAGE_SIZE
      then (if pte_valid e then Some (0, e) else None) else hw_walk (tables self) 2 (root_table self) x)" for x
    using put_walk[OF inv page(3) _ page(4,5) refl, of e x] chunk_range(1)[OF _ al', of x] page(5) lf
    by (auto simp: PAGE_SIZE_def Let_def)
  then show ?thesis using g p i page(1)
    by (intro exI[of _ "self\<lparr>tables := ?T\<rparr>"] exI[of _ "xs ! vidx va 0"]) auto
qed (use w in auto)

lemma walk_to_table_page:
  assumes "pt_inv self pos" "xlate self va \<noteq> None" "\<not> huge_at self va"
  obtains t where "walk_to_table self va = Some (Some t)"
  using assms(2,3) by (cases rule: hw_walk_cases[OF assms(1), of va]) (auto simp: xlate_def huge_at_def)

lemma unmap_step_page:
  assumes inv: "pt_inv self pos" and w: "walk_to_table self (va + offset) = Some (Some t)"
    and b: "va + offset < 2 ^ 64" and p: "put_entry self t (va + offset) 0 0 = Some self'"
  shows "unmap_step self va offset = Some (offset + PAGE_SIZE, self')"
proof -
  let ?v = "va + offset"
  obtain e2 t1 where e2: "get_entry self (root_table self) ?v 2 = Some e2" "pte_valid e2" "target_page_table e2 = Some t1"
    using w by (auto simp: walk_to_table_def run_simps split: if_splits)
  moreover obtain e1 where e1: "get_entry self t1 ?v 1 = Some e1" "pte_valid e1" "target_page_table e1 = Some t"
    using w e2 by (auto simp: walk_to_table_def run_simps split: if_splits)
  moreover obtain e0 where "get_entry self t ?v 0 = Some e0" "pte_valid e0"
    using w e2 e1 by (auto simp: walk_to_table_def run_simps split: if_splits)
  moreover have "is_leaf e = Some False" if "target_page_table e = Some u" for e u
    using that by (auto simp: target_page_table_def run_simps)
  ultimately show ?thesis using b p by (simp add: unmap_step_def uadd_def)
qed

lemma unmap_loop_ok:
  assumes "pt_inv self pos" "PAGE_SIZE dvd va" "PAGE_SIZE dvd sz" "PAGE_SIZE dvd offset" "offset \<le> sz"
    "low39 va + sz \<le> 2 ^ 39" "va + sz \<le> 2 ^ 64"
    "\<And>x. low39 va + offset \<le> low39 x \<Longrightarrow> low39 x < low39 va + sz \<Longrightarrow> xlate self x \<noteq> None \<and> \<not> huge_at self x"
  shows "\<exists>self'. unmap_loop self va sz offset = Some self' \<and> pt_inv self' pos
    \<and> already_mapped self' = already_mapped self
    \<and> (\<forall>x. xlate self' x = (if low39 va + offset \<le> low39 x \<and> low39 x < low39 va + sz then None else xlate self x))"
  using assms
proof (induction self va sz offset rule: unmap_loop.induct)
  case (1 self va sz offset)
  show ?case
  proof (cases "offset < sz")
    case False
    then show ?thesis using "1.prems"(1,5) by (subst unmap_loop.simps) auto
  next
    case True
    let ?v = "va + offset"
    have low: "low39 ?v = low39 va + offset" using "1.prems"(6) True by (intro low39_offset)
    have le: "offset + PAGE_SIZE \<le> sz"
      using "1.prems"(3,4) True dvd_imp_le[of PAGE_SIZE "sz - offset"] by auto
    have al: "PAGE_SIZE dvd ?v" using "1.prems"(2,4) by simp
    obtain t where t: "walk_to_table self ?v = Some (Some t)"
      using walk_to_table_page[OF "1.prems"(1), of ?v] "1.prems"(8)[of ?v] low True by auto
    obtain s1 where s1: "put_entry self t ?v 0 0 = Some s1" "pt_inv s1 pos" "root_table s1 = root_table self"
        "already_mapped s1 = already_mapped self"
        "\<forall>x. hw_walk (tables s1) 2 (root_table s1) x = (if low39 ?v \<le> low39 x \<and> low39 x < low39 ?v + PAGE_SIZE
           then None else hw_walk (tables self) 2 (root_table self) x)"
      using put_page_ok[OF "1.prems"(1) al t, of 0] by auto
    have st: "unmap_step self va offset = Some (offset + PAGE_SIZE, s1)"
      using unmap_step_page[OF "1.prems"(1) t _ s1(1)] "1.prems"(7) True by simp
    have x1: "xlate s1 x = (if low39 va + offset \<le> low39 x \<and> low39 x < low39 va + (offset + PAGE_SIZE)
        then None else xlate self x)" for x
      using s1(5) low by (simp add: xlate_def add.assoc)
    have h1: "huge_at s1 x \<Longrightarrow> huge_at self x" for x using s1(5) by (auto simp: huge_at_def split: if_splits)
    have al1: "PAGE_SIZE dvd offset + PAGE_SIZE" using "1.prems"(4) by simp
    have "xlate s1 x \<noteq> None \<and> \<not> huge_at s1 x"
      if "low39 va + (offset + PAGE_SIZE) \<le> low39 x" "low39 x < low39 va + sz" for x
      using "1.prems"(8)[of x] x1[of x] h1[of x] that by auto
    then obtain s2 where s2: "unmap_loop s1 va sz (offset + PAGE_SIZE) = Some s2" "pt_inv s2 pos"
        "already_mapped s2 = already_mapped s1"
        "\<forall>x. xlate s2 x = (if low39 va + (offset + PAGE_SIZE) \<le> low39 x \<and> low39 x < low39 va + sz then None else xlate s1 x)"
      using "1.IH"[OF True st refl s1(2) "1.prems"(2,3) al1 le "1.prems"(6,7)] by blast
    have "unmap_loop self va sz offset = Some s2"
      using True st s2(1) by (subst unmap_loop.simps) simp
    moreover have "xlate s2 x = (if low39 va + offset \<le> low39 x \<and> low39 x < low39 va + sz then None else xlate self x)" for x
      using s2(4) x1[of x] le by auto
    ultimately show ?thesis using s2(2,3) s1(4) by auto
  qed
qed

lemma position_last:
  assumes "P m" "\<And>x. x \<in> set ms \<Longrightarrow> \<not> P x"
  shows "position P (ms @ [m]) = Some (length ms)"
  using assms by (auto simp: position_def find_Some_iff nth_append intro!: exI[of _ "length ms"])

lemma swap_remove_last: "swap_remove (ms @ [m]) (length ms) = ms"
  by (simp add: swap_remove_def)

lemma map_step_not_huge:
  assumes inv: "pt_inv self pos" and ok: "map_args_ok va pa sz mode"
    and off: "offset < sz" "PAGE_SIZE dvd offset" and small: "sz < MiB 2"
    and run: "map_step self va pa sz mode user offset = Some (offset', self')" and nh: "\<not> huge_at self x"
  shows "\<not> huge_at self' x"
proof -
  let ?v = "va + offset" and ?p = "pa + offset"
  have "can_be_mapped_with va pa sz (GiB 1) offset = Some False"
      "can_be_mapped_with va pa sz (MiB 2) offset = Some False"
    using small by (auto simp: can_be_mapped_with_def MiB_def GiB_def)
  then obtain second s1 third s2 where e: "ensure_table self (root_table self) ?v 2 = Some (second, s1)"
      "ensure_table s1 second ?v 1 = Some (third, s2)"
      and w: "write_leaf s2 third ?v 0 ?p mode user = Some self'"
    using run by (auto simp: map_step_def run_simps)
  have root: "below self ?v 0 (root_table self)" by simp
  obtain pos1 where s1: "pt_inv s1 pos1" "below s1 ?v (Suc 0) second"
      "\<forall>x. hw_walk (tables s1) 2 (root_table s1) x = hw_walk (tables self) 2 (root_table self) x"
    using ensure_table_ok[OF inv root, of second s1] e(1) by auto
  obtain pos2 where s2: "pt_inv s2 pos2" "below s2 ?v 2 third"
      "\<forall>x. hw_walk (tables s2) 2 (root_table s2) x = hw_walk (tables s1) 2 (root_table s1) x"
    using ensure_table_ok[OF s1(1,2), of third s2] e(2) by (auto simp: numeral_2_eq_2)
  have args: "0 < ?p" "PAGE_SIZE dvd ?p" "?p < 2 ^ 56" "mode \<noteq> PointerToNextLevel"
    using ok off by (auto simp: map_args_ok_def)
  obtain e where "hw_walk (tables self') 2 (root_table self') x =
      (if vpath x 0 = vpath ?v 0 \<and> vidx x 0 = vidx ?v 0 then Some (0, e) else hw_walk (tables s2) 2 (root_table s2) x)"
    using write_leaf_ok[OF s2(1,2) _ args, of user, unfolded diff_self_eq_0] w by auto
  then show ?thesis
    using s1(3) s2(3) nh by (simp add: huge_at_def split: if_splits)
qed

lemma map_loop_not_huge:
  assumes "map_loop self va pa sz mode user offset = Some self'" "pt_inv self pos"
    "map_args_ok va pa sz mode" "offset \<le> sz" "PAGE_SIZE dvd offset" "sz < MiB 2" "\<not> huge_at self x"
  shows "\<not> huge_at self' x"
  using assms
proof (induction self va pa sz mode user offset arbitrary: pos rule: map_loop.induct)
  case (1 self va pa sz mode user offset)
  show ?case
  proof (cases "offset < sz")
    case False
    then show ?thesis using "1.prems"(1,7) by (subst (asm) map_loop.simps) auto
  next
    case True
    obtain o1 s1 where st: "map_step self va pa sz mode user offset = Some (o1, s1)"
        and rest: "map_loop s1 va pa sz mode user o1 = Some self'"
      using "1.prems"(1) True by (subst (asm) map_loop.simps) (auto simp: run_simps)
    obtain pos1 where p1: "pt_inv s1 pos1" "o1 \<le> sz" "PAGE_SIZE dvd o1"
      using map_step_ok[OF "1.prems"(2,3) True "1.prems"(5) st] by blast
    have "\<not> huge_at s1 x"
      by (rule map_step_not_huge[OF "1.prems"(2,3) True "1.prems"(5,6) st "1.prems"(7)])
    then show ?thesis using "1.IH"[OF True st refl rest p1(1) "1.prems"(3) p1(2,3) "1.prems"(6)] by simp
  qed
qed

text \<open>
  C6: mapping \<^verbatim>\<open>sz\<close> bytes at \<^verbatim>\<open>va\<close> to the physical range at \<^verbatim>\<open>pa\<close> makes
  the hardware translate every address of the page-rounded range linearly with the requested permissions,
  whatever mix of 1 GiB, 2 MiB and 4 KiB leaves the code picks, changes no other translation, keeps the
  tables well formed, and registers the range.
\<close>

theorem pt_map_correct:
  assumes "pt_well_formed self" "pt_map self va pa sz mode user name = Some self'"
    "align_up sz PAGE_SIZE = Some n" "0 < pa" "pa + n \<le> 2 ^ 56" "low39 va + n \<le> 2 ^ 39"
    "mode \<noteq> PointerToNextLevel"
  shows "pt_well_formed self'
    \<and> xlate self' x = (if low39 va \<le> low39 x \<and> low39 x < low39 va + n
        then Some (pa + (low39 x - low39 va), Some mode, user) else xlate self x)
    \<and> already_mapped self' = already_mapped self @
        [\<lparr>range_start = va, range_end = va + (n - 1), mapping_name = name, privileges = mode\<rparr>]"
  using assms pt_map_ok[of self _ va pa sz mode user name self' n] by (auto simp: pt_well_formed_def)

definition pt_pool :: "64 word list" where
  "pt_pool = [0x80000000, 0x80001000, 0x80002000, 0x80003000, 0x80004000]"

lemma pt_pool_ok: "\<exists>h pos. holder_empty pt_pool = Some h \<and> pt_inv h pos \<and> (\<forall>x. xlate h x = None)
    \<and> already_mapped h = [] \<and> length (boxes h) = 4 \<and> tables h (root_table h) = Some (replicate 512 0)"
proof -
  have "\<forall>u\<in>set pt_pool. table_addr_ok u"
    by (simp add: pt_pool_def table_addr_ok_def is_page_aligned_def)
  then show ?thesis
    using holder_empty_ok[of "hd pt_pool" "tl pt_pool"] by (fastforce simp: pt_pool_def)
qed

theorem pt_map_correct_witness:
  "\<exists>h self'. holder_empty pt_pool = Some h \<and> pt_map h 0x10000 0x90000000 5000 ReadWrite True ''heap'' = Some self'
    \<and> pt_well_formed self' \<and> xlate self' 0x11234 = Some (0x90001234, Some ReadWrite, True)
    \<and> xlate self' 0x12000 = None"
proof -
  obtain h pos where h: "holder_empty pt_pool = Some h" "pt_inv h pos" "\<forall>x. xlate h x = None"
      "already_mapped h = []" "length (boxes h) = 4"
    using pt_pool_ok by blast
  have al: "align_up 5000 PAGE_SIZE = Some 8192" by (simp add: align_up_def urem_def uadd_def usub_def PAGE_SIZE_def)
  obtain self' where m: "pt_map h 0x10000 0x90000000 5000 ReadWrite True ''heap'' = Some self'"
    using pt_map_defined[OF h(2) al, of "0x10000" "0x90000000" ReadWrite True "''heap''"] h
    by (auto simp: MiB_def PAGE_SIZE_def is_mapped_def)
  have "pt_well_formed h" using h(2) by (auto simp: pt_well_formed_def)
  from pt_map_correct[OF this m al] show ?thesis using h(1,3) m by auto
qed

text \<open>
  C7: unmapping a mapping that has just been made (of less than 2 MiB, on an unregistered and untranslated
  range) returns, restores every hardware translation and the list of registered ranges.
\<close>

theorem map_unmap_roundtrip:
  assumes "pt_well_formed self" "align_up sz PAGE_SIZE = Some n" "0 < sz" "n < MiB 2"
    "PAGE_SIZE dvd va" "PAGE_SIZE dvd pa" "0 < va" "0 < pa" "va + n \<le> 2 ^ 64" "pa + n \<le> 2 ^ 56"
    "low39 va + n \<le> 2 ^ 39" "mode \<noteq> PointerToNextLevel"
    "\<not> is_mapped self (va, va + (n - 1))" "\<forall>m\<in>set (already_mapped self). range_start m \<le> range_end m"
    "\<And>x. low39 va \<le> low39 x \<Longrightarrow> low39 x < low39 va + n \<Longrightarrow> xlate self x = None"
    "2 * n \<le> length (boxes self) * PAGE_SIZE"
  shows "\<exists>self' self''. pt_map self va pa sz mode user name = Some self' \<and> unmap_userspace self' va n = Some self''
    \<and> pt_well_formed self'' \<and> already_mapped self'' = already_mapped self \<and> xlate self'' = xlate self"
proof -
  let ?m = "\<lparr>range_start = va, range_end = va + (n - 1), mapping_name = name, privileges = mode\<rparr>"
  obtain pos where inv: "pt_inv self pos" using assms(1) by (auto simp: pt_well_formed_def)
  obtain self' where m: "pt_map self va pa sz mode user name = Some self'"
    using pt_map_defined[OF inv assms(2-13) assms(15,16)] by blast
  have n: "PAGE_SIZE dvd n" "0 < n" using align_up_SomeD[OF assms(2)] assms(3) by auto
  have r: "\<forall>x. xlate self' x = (if low39 va \<le> low39 x \<and> low39 x < low39 va + n
        then Some (pa + (low39 x - low39 va), Some mode, user) else xlate self x)"
      "already_mapped self' = already_mapped self @ [?m]" "pt_well_formed self'"
    using pt_map_ok[OF inv m assms(2,8,10,11,12)] by auto
  obtain pos' where inv': "pt_inv self' pos'" using r(3) by (auto simp: pt_well_formed_def)
  have ok: "map_args_ok va pa n mode" using n assms by (simp add: map_args_ok_def)
  have "map_loop (self\<lparr>already_mapped := already_mapped self @ [?m]\<rparr>) va pa n mode user 0 = Some self'"
    using m assms(2) by (auto simp: pt_map_def run_simps)
  then have nh: "\<not> huge_at self' x" if "xlate self x = None" for x
    using map_loop_not_huge[of _ va pa n mode user 0 self' pos x] ok inv assms(4) that
    by (auto simp: huge_at_def xlate_def)
  let ?s = "self'\<lparr>already_mapped := already_mapped self\<rparr>"
  have sel: "position (\<lambda>m. range_start m = va) (already_mapped self') = Some (length (already_mapped self))"
    unfolding r(2) using assms(13,14)
    by (intro position_last) (auto simp: is_mapped_def mapping_contains_def list_ex_iff)
  have "\<exists>self''. unmap_loop ?s va n 0 = Some self'' \<and> pt_inv self'' pos' \<and> already_mapped self'' = already_mapped ?s
    \<and> (\<forall>x. xlate self'' x = (if low39 va + 0 \<le> low39 x \<and> low39 x < low39 va + n then None else xlate ?s x))"
    using inv' r(1) nh n assms by (intro unmap_loop_ok) (auto simp: huge_at_def)
  then obtain self'' where u: "unmap_loop ?s va n 0 = Some self''" "pt_inv self'' pos'"
      "already_mapped self'' = already_mapped self"
      "\<forall>x. xlate self'' x = (if low39 va \<le> low39 x \<and> low39 x < low39 va + n then None else xlate self' x)"
    by auto
  have "unmap_userspace self' va n = Some self''"
    using u(1) sel n assms(5) by (simp add: unmap_userspace_def va_page_aligned_iff r(2) swap_remove_last)
  moreover have "xlate self'' = xlate self" using u(4) r(1) assms(15) by (intro ext) auto
  ultimately show ?thesis using m u(2,3) by (auto simp: pt_well_formed_def)
qed

theorem map_unmap_roundtrip_witness:
  "\<exists>h self' self''. holder_empty pt_pool = Some h \<and> pt_map h 0x10000 0x90000000 5000 ReadWrite True ''heap'' = Some self'
    \<and> unmap_userspace self' 0x10000 8192 = Some self'' \<and> xlate self'' 0x11234 = None"
proof -
  obtain h pos where h: "holder_empty pt_pool = Some h" "pt_inv h pos" "\<forall>x. xlate h x = None"
      "already_mapped h = []" "length (boxes h) = 4"
    using pt_pool_ok by blast
  have w: "pt_well_formed h" using h(2) by (auto simp: pt_well_formed_def)
  have al: "align_up 5000 PAGE_SIZE = Some 8192" by (simp add: align_up_def urem_def uadd_def usub_def PAGE_SIZE_def)
  obtain self' self'' where "pt_map h 0x10000 0x90000000 5000 ReadWrite True ''heap'' = Some self'"
      "unmap_userspace self' 0x10000 8192 = Some self''" "xlate self'' = xlate h"
    using map_unmap_roundtrip[OF w al, of "0x10000" "0x90000000" ReadWrite True "''heap''"] h
    by (auto simp: MiB_def PAGE_SIZE_def is_mapped_def)
  then show ?thesis using h(1,3) by auto
qed



text \<open>
  C9: a user pointer that falls into a 1 GiB or 2 MiB leaf is not answered with EFAULT: the walk runs into
  the assert of \<^verbatim>\<open>target_page_table\<close> and the kernel panics.
\<close>

theorem fat_ptr_huge_leaf_panics:
  assumes "pt_well_formed self" "huge_at self start" "0 < sz * len" "sz * len < 2 ^ 64" "start + sz * len \<le> 2 ^ 64"
  shows "is_valid_userspace_fat_ptr self start sz len writable = None
    \<and> validate_userspace self writable start sz len = None"
proof -
  obtain pos where inv: "pt_inv self pos" using assms(1) by (auto simp: pt_well_formed_def)
  let ?f = "start - start mod PAGE_SIZE"
  have "?f div PAGE_SIZE = start div PAGE_SIZE"
    by (simp add: minus_mod_eq_div_mult PAGE_SIZE_def)
  then have "huge_at self ?f" using assms(2) huge_at_page by blast
  then have "walk_to_entry self ?f = None"
    by (cases rule: walk_to_entry_cases[OF inv, of ?f]) auto
  then have "fat_ptr_loop self writable l ?f = None" for l
    by (subst fat_ptr_loop.simps) simp
  moreover have "umul sz len = Some (sz * len)" "uadd start (sz * len - 1) = Some (start + (sz * len - 1))"
    using assms(3-5) by (auto simp: umul_def uadd_def)
  ultimately have "is_valid_userspace_fat_ptr self start sz len writable = None"
    using assms(3) by (simp add: is_valid_userspace_fat_ptr_def Let_def)
  then show ?thesis by (simp add: validate_userspace_def)
qed

theorem fat_ptr_huge_leaf_panics_witness:
  "\<exists>h self'. holder_empty pt_pool = Some h
    \<and> map_userspace h 0x40000000 0x80000000 0x40000000 ReadWrite ''big'' = Some self'
    \<and> validate_userspace self' False 0x40000000 1 8 = None"
proof -
  let ?va = "0x40000000 :: nat" and ?pa = "0x80000000 :: nat"
  obtain h pos where h: "holder_empty pt_pool = Some h" "pt_inv h pos" "already_mapped h = []"
      "tables h (root_table h) = Some (replicate 512 0)"
    using pt_pool_ok by blast
  define h1 where "h1 = h\<lparr>already_mapped := [\<lparr>range_start = ?va, range_end = 0x7fffffff,
    mapping_name = ''big'', privileges = ReadWrite\<rparr>]\<rparr>"
  have h1: "pt_inv h1 pos" "tables h1 (root_table h1) = Some (replicate 512 0)"
    using h by (simp_all add: h1_def)
  obtain self' e where w: "write_leaf h1 (root_table h1) ?va 2 ?pa ReadWrite True = Some self'"
      "pt_inv self' pos" "hw_walk (tables self') 2 (root_table self') ?va = Some (2, e)"
    using write_leaf_ok[OF h1(1), of ?va 0 "root_table h1" ?pa ReadWrite True] by (auto simp: PAGE_SIZE_def)
  have "get_entry h1 (root_table h1) ?va 2 = Some 0"
    using get_entry_eq[OF h1(2), of 2 ?va] by simp
  then have "map_step h1 ?va ?pa 0x40000000 ReadWrite True 0 = Some (0x40000000, self')"
    using w(1)
    by (simp add: map_step_def uadd_def can_be_mapped_with_def is_aligned_def urem_def GiB_def
        check_unused_def)
  then have "map_loop h1 ?va ?pa 0x40000000 ReadWrite True 0 = Some self'"
    by (simp add: map_loop.simps[of h1] map_loop.simps[of self'])
  then have "map_userspace h ?va ?pa 0x40000000 ReadWrite ''big'' = Some self'"
    using h(3)
    by (simp add: map_userspace_def pt_map_def va_page_aligned_iff align_up_def urem_def uadd_def
        PAGE_SIZE_def h1_def)
  moreover have "pt_well_formed self'" "huge_at self' ?va"
    using w(2,3) by (auto simp: pt_well_formed_def huge_at_def numeral_2_eq_2)
  ultimately show ?thesis
    using fat_ptr_huge_leaf_panics[of self' ?va 1 8 False] h(1) by auto
qed

end
