(* ===== verification/ByteStream.thy ===== *)
theory ByteStream
  imports Prelude
begin

text \<open>
  The contract of the kernel's byte queues: pipes, the input queue of a terminal and the receive buffers
  of sockets all append at one end and drain from the other.  A client relies on two laws only, and gets
  the first-in-first-out guarantee for any interleaving of writes and reads from them.
\<close>

datatype 'a stream_op = Put "'a list" | Get nat

locale byte_stream =
  fixes content :: "'s \<Rightarrow> 'a list"
    and ready :: "'s \<Rightarrow> bool"
    and put :: "'a list \<Rightarrow> 's \<Rightarrow> 's"
    and get :: "nat \<Rightarrow> 's \<Rightarrow> 'a list \<times> 's"
  assumes put_content: "ready s \<Longrightarrow> content (put xs s) = content s @ xs"
    and put_ready: "ready s \<Longrightarrow> ready (put xs s)"
    and get_content: "ready s \<Longrightarrow> get n s = (ys, s') \<Longrightarrow> ys @ content s' = content s"
    and get_length: "ready s \<Longrightarrow> get n s = (ys, s') \<Longrightarrow> length ys = min n (length (content s))"
    and get_ready: "ready s \<Longrightarrow> get n s = (ys, s') \<Longrightarrow> ready s'"
begin

primrec exec :: "'a stream_op list \<Rightarrow> 's \<Rightarrow> 'a list \<times> 's" where
  "exec [] s = ([], s)"
| "exec (x # xs) s = (case x of
     Put ys \<Rightarrow> exec xs (put ys s)
   | Get n \<Rightarrow> let (ys, s') = get n s; (zs, t) = exec xs s' in (ys @ zs, t))"

primrec written :: "'a stream_op list \<Rightarrow> 'a list" where
  "written [] = []"
| "written (x # xs) = (case x of Put ys \<Rightarrow> ys @ written xs | Get n \<Rightarrow> written xs)"

lemma exec_fifo:
  "ready s \<Longrightarrow> exec ops s = (out, t) \<Longrightarrow> out @ content t = content s @ written ops \<and> ready t"
proof (induction ops arbitrary: s out)
  case (Cons x xs)
  show ?case
  proof (cases x)
    case (Put ys)
    then show ?thesis
      using Cons.prems Cons.IH[of "put ys s" out] by (simp add: put_content put_ready)
  next
    case (Get n)
    obtain ys s' where g: "get n s = (ys, s')" by fastforce
    obtain zs where z: "exec xs s' = (zs, t)" "out = ys @ zs"
      using Cons.prems(2) Get g by (auto split: prod.splits)
    have "zs @ content t = content s' @ written xs \<and> ready t"
      using Cons.IH[OF get_ready[OF Cons.prems(1) g] z(1)] .
    then show ?thesis using get_content[OF Cons.prems(1) g] Get z(2) by auto
  qed
qed simp

text \<open>Draining with a large enough count empties the queue.\<close>

lemma get_all:
  assumes "ready s" "get n s = (ys, s')" "length (content s) \<le> n"
  shows "ys = content s \<and> content s' = []"
  using get_content[OF assms(1,2)] get_length[OF assms(1,2)] assms(3)
  by (metis append_eq_conv_conj append_self_conv min.absorb2 take_all_iff order_refl)

end

end
