(* ===== verification/Pipe.thy ===== *)
theory Pipe
  imports ByteStream
begin

text \<open>
  Anonymous pipes, \<^verbatim>\<open>crates/kernel/src/io/pipe.rs\<close>.  A waker is any value; operations that wake
  return the wakers they call, in order.  \<^verbatim>\<open>PipeReader\<close> and \<^verbatim>\<open>PipeWriter\<close> are reference-counted
  handles on the shared buffer: the second part of the theory counts the live handles beside the code's
  own counters and shows that the asserts on the counters never fire.
\<close>

record 'w pipe_inner =
  pdata :: "byte list"
  read_wakers :: "'w list"
  reader_count :: usize
  writer_count :: usize

definition pipe_new :: "'w pipe_inner" where
  "pipe_new = \<lparr>pdata = [], read_wakers = [], reader_count = 1, writer_count = 1\<rparr>"

definition read_closed :: "'w pipe_inner \<Rightarrow> bool" where
  "read_closed p \<longleftrightarrow> reader_count p = 0"

definition write_closed :: "'w pipe_inner \<Rightarrow> bool" where
  "write_closed p \<longleftrightarrow> writer_count p = 0"

definition wake_readers :: "'w pipe_inner \<Rightarrow> 'w list \<times> 'w pipe_inner" where
  "wake_readers p = (rev (read_wakers p), p\<lparr>read_wakers := []\<rparr>)"

definition pipe_write :: "byte list \<Rightarrow> 'w pipe_inner \<Rightarrow> (errno + usize) \<times> 'w list \<times> 'w pipe_inner" where
  "pipe_write d p = (if read_closed p then (Inl EPIPE, [], p)
     else (Inr (length d), wake_readers (p\<lparr>pdata := pdata p @ d\<rparr>)))"

definition drain :: "usize \<Rightarrow> 'w pipe_inner \<Rightarrow> byte list \<times> 'w pipe_inner" where
  "drain count p = (let actual = min (length (pdata p)) count
     in (take actual (pdata p), p\<lparr>pdata := drop actual (pdata p)\<rparr>))"

definition try_read :: "usize \<Rightarrow> 'w pipe_inner \<Rightarrow> (errno + byte list) \<times> 'w pipe_inner" where
  "try_read count p =
     (if pdata p \<noteq> [] then map_prod Inr id (drain count p)
      else if write_closed p then (Inr [], p)
      else (Inl EAGAIN, p))"

definition add_reader :: "'w pipe_inner \<Rightarrow> 'w pipe_inner run" where
  "add_reader p = do {
     check (reader_count p > 0);
     n \<leftarrow> uadd (reader_count p) 1;
     Some (p\<lparr>reader_count := n\<rparr>)
   }"

definition add_writer :: "'w pipe_inner \<Rightarrow> 'w pipe_inner run" where
  "add_writer p = do {
     check (writer_count p > 0);
     n \<leftarrow> uadd (writer_count p) 1;
     Some (p\<lparr>writer_count := n\<rparr>)
   }"

definition close_write :: "'w pipe_inner \<Rightarrow> ('w list \<times> 'w pipe_inner) run" where
  "close_write p = do {
     check (\<not> write_closed p);
     n \<leftarrow> usub (writer_count p) 1;
     let p = p\<lparr>writer_count := n\<rparr>;
     Some (if write_closed p then wake_readers p else ([], p))
   }"

definition close_read :: "'w pipe_inner \<Rightarrow> 'w pipe_inner run" where
  "close_read p = do {
     check (\<not> read_closed p);
     n \<leftarrow> usub (reader_count p) 1;
     Some (p\<lparr>reader_count := n\<rparr>)
   }"

text \<open>The future of a blocking read; \<^term>\<open>None\<close> is \<^verbatim>\<open>Poll::Pending\<close>.\<close>

record read_pipe =
  max_count :: usize
  is_registered :: bool

definition read_pipe_new :: "usize \<Rightarrow> read_pipe" where
  "read_pipe_new n = \<lparr>max_count = n, is_registered = False\<rparr>"

definition read_pipe_poll ::
    "'w \<Rightarrow> read_pipe \<Rightarrow> 'w pipe_inner \<Rightarrow> byte list option \<times> read_pipe \<times> 'w pipe_inner" where
  "read_pipe_poll w f p =
     (if pdata p \<noteq> [] then let (d, p) = drain (max_count f) p in (Some d, f, p)
      else if write_closed p then (Some [], f, p)
      else if \<not> is_registered f
           then (None, f\<lparr>is_registered := True\<rparr>, p\<lparr>read_wakers := read_wakers p @ [w]\<rparr>)
      else (None, f, p))"

section \<open>A pipe is a byte stream\<close>

lemma drain_spec:
  "drain n p = (ys, q) \<Longrightarrow> ys @ pdata q = pdata p \<and> length ys = min n (length (pdata p))
    \<and> reader_count q = reader_count p \<and> writer_count q = writer_count p \<and> read_wakers q = read_wakers p"
  by (auto simp: drain_def Let_def min.commute)

interpretation pipe: byte_stream pdata "\<lambda>p. \<not> read_closed p" "\<lambda>d p. snd (snd (pipe_write d p))" drain
  by unfold_locales
    (auto simp: pipe_write_def wake_readers_def read_closed_def dest: drain_spec)

section \<open>Handles\<close>

text \<open>
  A pipe with its live handles, and the history of bytes accepted and delivered.
\<close>

record 'w pipe_sys =
  inner :: "'w pipe_inner"
  readers :: nat
  writers :: nat
  sent :: "byte list"
  received :: "byte list"

datatype 'w pipe_event = EvWrite "byte list" | EvRead usize | EvPoll 'w read_pipe
  | EvCloneReader | EvCloneWriter | EvDropReader | EvDropWriter

text \<open>
  One operation through a handle.  The outer option is the panic; an operation that needs a handle that
  does not exist is not possible.
\<close>

fun possible :: "'w pipe_event \<Rightarrow> 'w pipe_sys \<Rightarrow> bool" where
  "possible (EvWrite d) s \<longleftrightarrow> writers s > 0"
| "possible (EvRead n) s \<longleftrightarrow> readers s > 0"
| "possible (EvPoll w f) s \<longleftrightarrow> readers s > 0"
| "possible EvCloneReader s \<longleftrightarrow> 0 < readers s \<and> readers s < 2 ^ 64 - 1"
| "possible EvCloneWriter s \<longleftrightarrow> 0 < writers s \<and> writers s < 2 ^ 64 - 1"
| "possible EvDropReader s \<longleftrightarrow> readers s > 0"
| "possible EvDropWriter s \<longleftrightarrow> writers s > 0"

fun pipe_do :: "'w pipe_event \<Rightarrow> 'w pipe_sys \<Rightarrow> 'w pipe_sys run" where
  "pipe_do (EvWrite d) s = (case pipe_write d (inner s) of
     (Inl _, _, p) \<Rightarrow> Some (s\<lparr>inner := p\<rparr>)
   | (Inr n, _, p) \<Rightarrow> Some (s\<lparr>inner := p, sent := sent s @ d\<rparr>))"
| "pipe_do (EvRead n) s = (case try_read n (inner s) of
     (Inl _, p) \<Rightarrow> Some (s\<lparr>inner := p\<rparr>)
   | (Inr d, p) \<Rightarrow> Some (s\<lparr>inner := p, received := received s @ d\<rparr>))"
| "pipe_do (EvPoll w f) s = (case read_pipe_poll w f (inner s) of
     (None, _, p) \<Rightarrow> Some (s\<lparr>inner := p\<rparr>)
   | (Some d, _, p) \<Rightarrow> Some (s\<lparr>inner := p, received := received s @ d\<rparr>))"
| "pipe_do EvCloneReader s = do { p \<leftarrow> add_reader (inner s); Some (s\<lparr>inner := p, readers := readers s + 1\<rparr>) }"
| "pipe_do EvCloneWriter s = do { p \<leftarrow> add_writer (inner s); Some (s\<lparr>inner := p, writers := writers s + 1\<rparr>) }"
| "pipe_do EvDropReader s = do { p \<leftarrow> close_read (inner s); Some (s\<lparr>inner := p, readers := readers s - 1\<rparr>) }"
| "pipe_do EvDropWriter s = do { (_, p) \<leftarrow> close_write (inner s); Some (s\<lparr>inner := p, writers := writers s - 1\<rparr>) }"

definition new_pipe :: "'w pipe_sys" where
  "new_pipe = \<lparr>inner = pipe_new, readers = 1, writers = 1, sent = [], received = []\<rparr>"

definition pipe_inv :: "'w pipe_sys \<Rightarrow> bool" where
  "pipe_inv s \<longleftrightarrow> reader_count (inner s) = readers s \<and> writer_count (inner s) = writers s
     \<and> received s @ pdata (inner s) = sent s
     \<and> (read_wakers (inner s) \<noteq> [] \<longrightarrow> pdata (inner s) = [] \<and> writers s > 0)"

inductive pipe_reachable :: "'w pipe_sys \<Rightarrow> bool" where
  start: "pipe_reachable new_pipe"
| step: "pipe_reachable s \<Longrightarrow> possible e s \<Longrightarrow> pipe_do e s = Some t \<Longrightarrow> pipe_reachable t"

lemma try_read_spec:
  assumes "try_read n p = (r, q)"
  shows "reader_count q = reader_count p" "writer_count q = writer_count p" "read_wakers q = read_wakers p"
    "(case r of Inl _ \<Rightarrow> [] | Inr d \<Rightarrow> d) @ pdata q = pdata p"
  using assms drain_spec[of n p] by (auto simp: try_read_def map_prod_def split: if_splits prod.splits)

text \<open>Every possible event keeps the invariant and returns.\<close>

lemma pipe_do_inv:
  assumes "pipe_inv s" "possible e s"
  shows "\<exists>t. pipe_do e s = Some t \<and> pipe_inv t"
proof (cases e)
  case (EvRead n)
  obtain r q where r: "try_read n (inner s) = (r, q)" by fastforce
  show ?thesis using assms EvRead r try_read_spec[OF r] by (cases r) (auto simp: pipe_inv_def)
next
  case (EvPoll w f)
  obtain d q where "drain (max_count f) (inner s) = (d, q)" by fastforce
  then show ?thesis using assms EvPoll drain_spec[of "max_count f" "inner s" d q]
    by (auto simp: pipe_inv_def read_pipe_poll_def write_closed_def)
qed (use assms in \<open>auto simp: pipe_inv_def pipe_write_def wake_readers_def read_closed_def write_closed_def
  add_reader_def add_writer_def close_read_def close_write_def uadd_def usub_def Let_def\<close>)

lemma pipe_reachable_inv: "pipe_reachable s \<Longrightarrow> pipe_inv s"
proof (induction rule: pipe_reachable.induct)
  case (step s e t)
  then show ?case using pipe_do_inv[of s e] by auto
qed (simp add: pipe_inv_def new_pipe_def pipe_new_def)





text \<open>
  C12: the registration is not renewed.  A future that has already parked its waker once stays pending
  without parking it again, so when another reader has drained the data that woke it, the next write
  wakes nobody on its behalf.
\<close>

theorem pipe_lost_wakeup:
  assumes "is_registered f" "pdata p = []" "writer_count p > 0"
  shows "read_pipe_poll w f p = (None, f, p)
    \<and> (read_wakers p = [] \<longrightarrow> reader_count p > 0 \<longrightarrow> fst (snd (pipe_write d p)) = [])"
  using assms by (simp add: read_pipe_poll_def write_closed_def pipe_write_def read_closed_def wake_readers_def)

theorem pipe_lost_wakeup_witness:
  "\<exists>f p1 p2 p3. read_pipe_poll (7 :: nat) (read_pipe_new 4) pipe_new = (None, f, p1)
    \<and> pipe_write [1] p1 = (Inr 1, [7], p2) \<and> try_read 4 p2 = (Inr [1], p3)
    \<and> read_pipe_poll 7 f p3 = (None, f, p3) \<and> fst (snd (pipe_write [2] p3)) = []"
proof -
  let ?f = "\<lparr>max_count = 4, is_registered = True\<rparr>"
  let ?p3 = "pipe_new :: nat pipe_inner"
  have "read_pipe_poll 7 ?f ?p3 = (None, ?f, ?p3) \<and> fst (snd (pipe_write [2] ?p3)) = []"
    using pipe_lost_wakeup[of ?f ?p3 7 "[2]"] by (simp add: pipe_new_def)
  then show ?thesis
    by (auto simp: read_pipe_poll_def read_pipe_new_def pipe_new_def write_closed_def pipe_write_def
        read_closed_def wake_readers_def try_read_def drain_def)
qed

end
