(* ===== verification/Tty.thy ===== *)
theory Tty
  imports ByteStream
begin

unbundle bit_operations_syntax

text \<open>
  The terminal line discipline, \<^verbatim>\<open>crates/kernel/src/io/tty_device.rs\<close>.  The termios flags, the
  control-character indices and the signal numbers are generated from the Linux headers, so they are a
  record of constants that every operation takes.
\<close>

record tty_consts =
  ICRNL :: "32 word"
  OPOST :: "32 word"
  ONLCR :: "32 word"
  ISIG :: "32 word"
  ICANON :: "32 word"
  ECHO :: "32 word"
  ECHOE :: "32 word"
  CS8 :: "32 word"
  CREAD :: "32 word"
  CLOCAL :: "32 word"
  VINTR :: nat
  VQUIT :: nat
  VERASE :: nat
  VKILL :: nat
  VEOF :: nat
  VSUSP :: nat
  VMIN :: nat
  VTIME :: nat
  NCCS :: nat
  SIG_INT :: nat
  SIG_TSTP :: nat
  SIG_QUIT :: nat
  SIG_TTIN :: nat

record termios =
  c_iflag :: "32 word"
  c_oflag :: "32 word"
  c_cflag :: "32 word"
  c_lflag :: "32 word"
  c_line :: byte
  c_cc :: "byte list"

datatype input_action = Consumed | Signal nat

record 'w tty =
  settings :: termios
  line_buf :: "byte list"
  input_buf :: "byte list"
  wakeup_queue :: "'w list"
  fg_pgid :: nat
  eof_pending :: bool
  last_tty_signal :: "(nat \<times> nat) option"

text \<open>\<^verbatim>\<open>ArrayVec<u8, 192>::push\<close> with its error dropped.\<close>

definition echo_push :: "byte list \<Rightarrow> byte \<Rightarrow> byte list" where
  "echo_push e b = (if length e < 192 then e @ [b] else e)"

definition tty_new :: "tty_consts \<Rightarrow> 'w tty run" where
  "tty_new c = do {
     cc \<leftarrow> index_set (replicate (NCCS c) 0) (VINTR c) 3;
     cc \<leftarrow> index_set cc (VQUIT c) 28;
     cc \<leftarrow> index_set cc (VERASE c) 127;
     cc \<leftarrow> index_set cc (VKILL c) 21;
     cc \<leftarrow> index_set cc (VEOF c) 4;
     cc \<leftarrow> index_set cc (VSUSP c) 26;
     cc \<leftarrow> index_set cc (VMIN c) 1;
     cc \<leftarrow> index_set cc (VTIME c) 0;
     Some \<lparr>settings = \<lparr>c_iflag = ICRNL c, c_oflag = OPOST c OR ONLCR c,
         c_cflag = CS8 c OR CREAD c OR CLOCAL c,
         c_lflag = ISIG c OR ICANON c OR ECHO c OR ECHOE c, c_line = 0, c_cc = cc\<rparr>,
       line_buf = [], input_buf = [], wakeup_queue = [], fg_pgid = 1, eof_pending = False,
       last_tty_signal = None\<rparr>
   }"

definition record_tty_signal :: "nat \<Rightarrow> nat \<Rightarrow> 'w tty \<Rightarrow> 'w tty" where
  "record_tty_signal sig target_pgid t = t\<lparr>last_tty_signal := Some (sig, target_pgid)\<rparr>"

definition take_signal_for_new_fg :: "nat \<Rightarrow> 'w tty \<Rightarrow> nat option \<times> 'w tty" where
  "take_signal_for_new_fg caller_pgid t = (case last_tty_signal t of
     None \<Rightarrow> (None, t)
   | Some (sig, _) \<Rightarrow> (if fg_pgid t = caller_pgid then Some sig else None, t\<lparr>last_tty_signal := None\<rparr>))"

definition has_lflag :: "'w tty \<Rightarrow> 32 word \<Rightarrow> bool" where
  "has_lflag t flag \<longleftrightarrow> c_lflag (settings t) AND flag \<noteq> 0"

definition has_iflag :: "'w tty \<Rightarrow> 32 word \<Rightarrow> bool" where
  "has_iflag t flag \<longleftrightarrow> c_iflag (settings t) AND flag \<noteq> 0"

definition has_oflag :: "'w tty \<Rightarrow> 32 word \<Rightarrow> bool" where
  "has_oflag t flag \<longleftrightarrow> c_oflag (settings t) AND flag \<noteq> 0"

definition echo_newline :: "tty_consts \<Rightarrow> 'w tty \<Rightarrow> byte list \<Rightarrow> byte list" where
  "echo_newline c t echo = echo_push
     (if has_oflag t (OPOST c) \<and> has_oflag t (ONLCR c) then echo_push echo 13 else echo) 10"

definition process_output :: "tty_consts \<Rightarrow> 'w tty \<Rightarrow> byte list \<Rightarrow> byte list" where
  "process_output c t d =
     (if \<not> (has_oflag t (OPOST c) \<and> has_oflag t (ONLCR c)) then d
      else concat (map (\<lambda>b. if b = 10 then [13, b] else [b]) d))"

definition wake_all :: "'w tty \<Rightarrow> 'w list \<times> 'w tty" where
  "wake_all t = (rev (wakeup_queue t), t\<lparr>wakeup_queue := []\<rparr>)"

definition flush_line_buf :: "'w tty \<Rightarrow> 'w list \<times> 'w tty" where
  "flush_line_buf t = wake_all (t\<lparr>input_buf := input_buf t @ line_buf t, line_buf := [], eof_pending := False\<rparr>)"

definition push_input :: "byte \<Rightarrow> 'w tty \<Rightarrow> 'w list \<times> 'w tty" where
  "push_input b t = wake_all (t\<lparr>input_buf := input_buf t @ [b]\<rparr>)"

definition cc :: "'w tty \<Rightarrow> nat \<Rightarrow> byte run" where
  "cc t i = index (c_cc (settings t)) i"

definition clear_input :: "'w tty \<Rightarrow> 'w tty" where
  "clear_input t = t\<lparr>line_buf := [], input_buf := [], eof_pending := False\<rparr>"

definition signal_echo :: "tty_consts \<Rightarrow> 'w tty \<Rightarrow> byte \<Rightarrow> byte list" where
  "signal_echo c t ch =
     (if has_lflag t (ECHO c) then echo_newline c t (echo_push (echo_push [] 94) ch) else [])"

text \<open>The body of \<^verbatim>\<open>if self.has_lflag(ISIG)\<close>; \<^term>\<open>None\<close> inside falls through.\<close>

definition signal_key :: "tty_consts \<Rightarrow> byte \<Rightarrow> 'w tty \<Rightarrow> (nat \<times> byte) option run" where
  "signal_key c b t = do {
     intr \<leftarrow> cc t (VINTR c);
     if b = intr then Some (Some (SIG_INT c, 67)) else do {
     susp \<leftarrow> cc t (VSUSP c);
     if b = susp then Some (Some (SIG_TSTP c, 90)) else do {
     quit \<leftarrow> cc t (VQUIT c);
     if b = quit then Some (Some (SIG_QUIT c, 92)) else Some None }}
   }"

definition kill_echo :: "tty_consts \<Rightarrow> 'w tty \<Rightarrow> byte list" where
  "kill_echo c t = (if has_lflag t (ECHOE c)
     then foldl echo_push [] (concat (replicate (length (line_buf t)) [8, 32, 8])) else [])"

definition canonical_byte :: "tty_consts \<Rightarrow> byte \<Rightarrow> 'w tty \<Rightarrow> (byte list \<times> 'w list \<times> 'w tty) run" where
  "canonical_byte c b t =
     (if b = 10 then
        Some (if has_lflag t (ECHO c) then echo_newline c t [] else [],
              flush_line_buf (t\<lparr>line_buf := line_buf t @ [b]\<rparr>))
      else do {
        erase \<leftarrow> cc t (VERASE c);
        if b = erase then
          Some (if line_buf t \<noteq> [] \<and> has_lflag t (ECHOE c) then [8, 32, 8] else [],
                [], t\<lparr>line_buf := butlast (line_buf t)\<rparr>)
        else do {
        eof \<leftarrow> cc t (VEOF c);
        if b = eof then
          Some ([], if line_buf t = [] then wake_all (t\<lparr>eof_pending := True\<rparr>) else flush_line_buf t)
        else do {
        kill \<leftarrow> cc t (VKILL c);
        if b = kill then Some (kill_echo c t, [], t\<lparr>line_buf := []\<rparr>)
        else Some (if has_lflag t (ECHO c) then echo_push [] b else [], [], t\<lparr>line_buf := line_buf t @ [b]\<rparr>) }}})"

definition process_input_byte ::
    "tty_consts \<Rightarrow> byte \<Rightarrow> 'w tty \<Rightarrow> (input_action \<times> byte list \<times> 'w list \<times> 'w tty) run" where
  "process_input_byte c b t = do {
     let t = t\<lparr>last_tty_signal := None\<rparr>;
     let b = (if has_iflag t (ICRNL c) \<and> b = 13 then 10 else b);
     s \<leftarrow> (if has_lflag t (ISIG c) then signal_key c b t else Some None);
     case s of
       Some (sig, ch) \<Rightarrow> Some (Signal sig, signal_echo c t ch, [], clear_input t)
     | None \<Rightarrow>
         if has_lflag t (ICANON c) then do { r \<leftarrow> canonical_byte c b t; Some (Consumed, r) }
         else Some (Consumed, if has_lflag t (ECHO c) then echo_push [] b else [], push_input b t)
   }"

definition get_input :: "usize \<Rightarrow> 'w tty \<Rightarrow> byte list \<times> 'w tty" where
  "get_input count t = (let actual_count = min (length (input_buf t)) count
     in (take actual_count (input_buf t), t\<lparr>input_buf := drop actual_count (input_buf t)\<rparr>))"

text \<open>
  A poll of a blocking terminal read by a thread of process group \<^verbatim>\<open>pgid\<close>.  \<^verbatim>\<open>thread\<close> is what the
  process table knows of the reader: its signal mask and the raw handler of SIGTTIN.  The result also
  says whether SIGTTIN is sent to the reader's process group.
\<close>

definition read_tty_poll ::
    "tty_consts \<Rightarrow> 'w \<Rightarrow> usize \<Rightarrow> nat \<Rightarrow> (64 word \<times> nat option) option \<Rightarrow> 'w tty
     \<Rightarrow> ((errno + byte list) poll \<times> bool \<times> 'w tty) run" where
  "read_tty_poll c w max_count pgid thread t =
     (if pgid \<noteq> fg_pgid t then
        let should_eio = (case thread of None \<Rightarrow> True
            | Some (sigmask, handler) \<Rightarrow> sigmask AND push_bit (SIG_TTIN c) 1 \<noteq> 0 \<or> handler = Some 1)
        in Some (if should_eio then (Ready (Inl EIO), False, t) else (Pending, True, t))
      else do {
        vmin8 \<leftarrow> cc t (VMIN c);
        let vmin = unat vmin8;
        let is_canonical = has_lflag t (ICANON c);
        let min_needed = (if is_canonical then 1 else max vmin 1);
        Some (if input_buf t \<noteq> [] \<and> (length (input_buf t) \<ge> min_needed \<or> length (input_buf t) \<ge> max_count)
              then (let (d, t) = get_input max_count t in (Ready (Inr d), False, t))
              else if is_canonical \<and> eof_pending t then (Ready (Inr []), False, t\<lparr>eof_pending := False\<rparr>)
              else if \<not> is_canonical \<and> vmin = 0
              then (let (d, t) = get_input max_count t in (Ready (Inr d), False, t))
              else (Pending, False, t\<lparr>wakeup_queue := wakeup_queue t @ [w]\<rparr>))
      })"

section \<open>The input queue\<close>

lemma get_input_spec:
  "get_input n t = (ys, u) \<Longrightarrow> ys @ input_buf u = input_buf t \<and> length ys = min n (length (input_buf t))"
  by (auto simp: get_input_def Let_def min.commute)

interpretation tty_queue: byte_stream input_buf "\<lambda>_. True" "\<lambda>xs t. fold (\<lambda>b t. snd (push_input b t)) xs t" get_input
proof unfold_locales
  fix t :: "'w tty" and xs
  show "input_buf (fold (\<lambda>b t. snd (push_input b t)) xs t) = input_buf t @ xs"
    by (induction xs arbitrary: t) (auto simp: push_input_def wake_all_def)
qed (auto dest: get_input_spec)

section \<open>Line editing\<close>

datatype key = Typed byte | Erase | Kill

text \<open>What a user editing a line means by the keys.\<close>

primrec edit_line :: "key list \<Rightarrow> byte list \<Rightarrow> byte list" where
  "edit_line [] l = l"
| "edit_line (k # ks) l = edit_line ks (case k of Typed b \<Rightarrow> l @ [b] | Erase \<Rightarrow> butlast l | Kill \<Rightarrow> [])"

primrec process_input :: "tty_consts \<Rightarrow> byte list \<Rightarrow> 'w tty \<Rightarrow> ('w list \<times> 'w tty) run" where
  "process_input c [] t = Some ([], t)"
| "process_input c (b # bs) t = do {
     (a, e, ws, t) \<leftarrow> process_input_byte c b t;
     (ws', t) \<leftarrow> process_input c bs t;
     Some (ws @ ws', t) }"

definition special :: "tty_consts \<Rightarrow> termios \<Rightarrow> byte list" where
  "special c s = map ((!) (c_cc s)) [VINTR c, VSUSP c, VQUIT c, VERASE c, VEOF c, VKILL c]"

text \<open>Canonical mode with a usable set of control characters.\<close>

definition cooked :: "tty_consts \<Rightarrow> termios \<Rightarrow> bool" where
  "cooked c s \<longleftrightarrow> c_lflag s AND ICANON c \<noteq> 0
     \<and> list_all (\<lambda>i. i < length (c_cc s)) [VINTR c, VSUSP c, VQUIT c, VERASE c, VEOF c, VKILL c, VMIN c]
     \<and> distinct (special c s) \<and> 10 \<notin> set (special c s) \<and> 13 \<notin> set (special c s)"

definition key_byte :: "tty_consts \<Rightarrow> termios \<Rightarrow> key \<Rightarrow> byte" where
  "key_byte c s k = (case k of Typed b \<Rightarrow> b | Erase \<Rightarrow> c_cc s ! VERASE c | Kill \<Rightarrow> c_cc s ! VKILL c)"

definition ordinary :: "tty_consts \<Rightarrow> termios \<Rightarrow> key \<Rightarrow> bool" where
  "ordinary c s k \<longleftrightarrow> (case k of Typed b \<Rightarrow> b \<notin> set (special c s) \<and> b \<noteq> 10 \<and> b \<noteq> 13 | _ \<Rightarrow> True)"

lemma cc_cooked:
  assumes "cooked c (settings t)"
  shows "cc t (VINTR c) = Some (c_cc (settings t) ! VINTR c)" "cc t (VSUSP c) = Some (c_cc (settings t) ! VSUSP c)"
    "cc t (VQUIT c) = Some (c_cc (settings t) ! VQUIT c)" "cc t (VERASE c) = Some (c_cc (settings t) ! VERASE c)"
    "cc t (VEOF c) = Some (c_cc (settings t) ! VEOF c)" "cc t (VKILL c) = Some (c_cc (settings t) ! VKILL c)"
    "cc t (VMIN c) = Some (c_cc (settings t) ! VMIN c)"
  using assms by (simp_all add: cc_def index_def cooked_def)

lemma signal_key_none:
  assumes "cooked c (settings t)" "b \<notin> set (take 3 (special c (settings t)))"
  shows "signal_key c b t = Some None"
  using assms by (simp add: signal_key_def cc_cooked special_def)

lemma cc_registered [simp]: "cc (t\<lparr>last_tty_signal := x\<rparr>) = cc t"
  by (simp add: cc_def fun_eq_iff)

lemma key_step:
  assumes t: "cooked c (settings t)" and k: "ordinary c (settings t) k"
  shows "\<exists>e. process_input_byte c (key_byte c (settings t) k) t =
    Some (Consumed, e, [], t\<lparr>last_tty_signal := None, line_buf := edit_line [k] (line_buf t)\<rparr>)"
proof -
  let ?t = "t\<lparr>last_tty_signal := None\<rparr>" and ?b = "key_byte c (settings t) k"
  have b: "?b \<noteq> 10" "?b \<noteq> 13" "?b \<notin> set (take 3 (special c (settings t)))"
    using t k by (auto simp: cooked_def ordinary_def key_byte_def special_def split: key.splits)
  have s: "signal_key c ?b ?t = Some None" by (rule signal_key_none) (use t b in auto)
  have "\<exists>e. canonical_byte c ?b ?t = Some (e, [], ?t\<lparr>line_buf := edit_line [k] (line_buf t)\<rparr>)"
    using t k b(1)
    by (cases k) (auto simp: canonical_byte_def cc_cooked cooked_def ordinary_def key_byte_def special_def)
  moreover have "has_lflag ?t (ICANON c)" using t by (simp add: has_lflag_def cooked_def)
  ultimately show ?thesis using s b(2) by (auto simp: process_input_byte_def Let_def)
qed

lemma keys_step:
  assumes "cooked c (settings t)" "list_all (ordinary c (settings t)) ks"
  shows "\<exists>t'. process_input c (map (key_byte c (settings t)) ks) t = Some ([], t')
    \<and> t'\<lparr>last_tty_signal := None\<rparr> = t\<lparr>last_tty_signal := None, line_buf := edit_line ks (line_buf t)\<rparr>"
  using assms
proof (induction ks arbitrary: t)
  case (Cons k ks)
  let ?t = "t\<lparr>last_tty_signal := None, line_buf := edit_line [k] (line_buf t)\<rparr>"
  obtain e where "process_input_byte c (key_byte c (settings t) k) t = Some (Consumed, e, [], ?t)"
    using key_step[of c t k] Cons.prems by auto
  moreover obtain t' where "process_input c (map (key_byte c (settings ?t)) ks) ?t = Some ([], t')"
      "t'\<lparr>last_tty_signal := None\<rparr> = ?t\<lparr>last_tty_signal := None, line_buf := edit_line ks (line_buf ?t)\<rparr>"
    using Cons.IH[of ?t] Cons.prems by auto
  ultimately show ?case by auto
qed auto

lemma newline_step:
  assumes t: "cooked c (settings t)"
  shows "\<exists>e. process_input_byte c 10 t = Some (Consumed, e, rev (wakeup_queue t),
    t\<lparr>last_tty_signal := None, input_buf := input_buf t @ line_buf t @ [10], line_buf := [],
      eof_pending := False, wakeup_queue := []\<rparr>)"
proof -
  have "signal_key c 10 (t\<lparr>last_tty_signal := None\<rparr>) = Some None"
    by (rule signal_key_none) (use t in \<open>auto simp: cooked_def special_def\<close>)
  moreover have "has_lflag (t\<lparr>last_tty_signal := None\<rparr>) (ICANON c)"
    using t by (simp add: has_lflag_def cooked_def)
  ultimately show ?thesis
    by (auto simp: process_input_byte_def canonical_byte_def flush_line_buf_def wake_all_def Let_def)
qed

lemma process_input_append:
  "process_input c (xs @ ys) t = do { (ws, t) \<leftarrow> process_input c xs t; (ws', t) \<leftarrow> process_input c ys t; Some (ws @ ws', t) }"
  by (induction xs arbitrary: t) (auto split: bind_splits prod.splits)

text \<open>
  C13: in canonical mode the terminal implements line editing: typing keys with any use of erase and kill
  and then the newline delivers exactly the edited line to readers, in one piece, and wakes every
  reader that was waiting.
\<close>

theorem tty_line_editing:
  assumes "cooked c (settings t)" "list_all (ordinary c (settings t)) ks"
  shows "\<exists>ws t'. process_input c (map (key_byte c (settings t)) ks @ [10]) t = Some (ws, t')
    \<and> input_buf t' = input_buf t @ edit_line ks (line_buf t) @ [10] \<and> line_buf t' = []
    \<and> set ws = set (wakeup_queue t) \<and> wakeup_queue t' = [] \<and> settings t' = settings t"
proof -
  obtain t1 where t1: "process_input c (map (key_byte c (settings t)) ks) t = Some ([], t1)"
      and e: "t1\<lparr>last_tty_signal := None\<rparr> = t\<lparr>last_tty_signal := None, line_buf := edit_line ks (line_buf t)\<rparr>"
    using keys_step[OF assms] by blast
  have f: "settings t1 = settings t" "input_buf t1 = input_buf t" "line_buf t1 = edit_line ks (line_buf t)"
      "wakeup_queue t1 = wakeup_queue t"
    using arg_cong[OF e, of settings] arg_cong[OF e, of input_buf] arg_cong[OF e, of line_buf]
      arg_cong[OF e, of wakeup_queue] by simp_all
  obtain x where "process_input_byte c 10 t1 = Some (Consumed, x, rev (wakeup_queue t1),
      t1\<lparr>last_tty_signal := None, input_buf := input_buf t1 @ line_buf t1 @ [10], line_buf := [],
      eof_pending := False, wakeup_queue := []\<rparr>)"
    using newline_step[of c t1] assms(1) f(1) by auto
  then show ?thesis using t1 f by (simp add: process_input_append)
qed

definition linux_tty :: tty_consts where
  "linux_tty = \<lparr>ICRNL = 0x100, OPOST = 1, ONLCR = 4, ISIG = 1, ICANON = 2, ECHO = 8, ECHOE = 16,
     CS8 = 0x30, CREAD = 0x80, CLOCAL = 0x800, VINTR = 0, VQUIT = 1, VERASE = 2, VKILL = 3, VEOF = 4,
     VSUSP = 10, VMIN = 6, VTIME = 5, NCCS = 19, SIG_INT = 2, SIG_TSTP = 20, SIG_QUIT = 3, SIG_TTIN = 21\<rparr>"

lemma linux_tty_cooked:
  "\<exists>t :: nat tty. tty_new linux_tty = Some t \<and> cooked linux_tty (settings t) \<and> line_buf t = []
    \<and> input_buf t = [] \<and> wakeup_queue t = []
    \<and> set (special linux_tty (settings t)) = {3, 26, 28, 127, 4, 21} \<and> has_lflag t (ISIG linux_tty)
    \<and> c_cc (settings t) ! VERASE linux_tty = 127 \<and> c_cc (settings t) ! VINTR linux_tty = 3"
  by (auto simp: tty_new_def linux_tty_def index_set_def cooked_def special_def has_lflag_def)

theorem tty_line_editing_witness:
  "\<exists>t ws t'. tty_new linux_tty = Some (t :: nat tty)
    \<and> process_input linux_tty [104, 105, 120, 127, 33, 10] t = Some (ws, t') \<and> input_buf t' = [104, 105, 33, 10]"
proof -
  obtain t :: "nat tty" where t: "tty_new linux_tty = Some t" "cooked linux_tty (settings t)" "line_buf t = []"
      "input_buf t = []" "set (special linux_tty (settings t)) = {3, 26, 28, 127, 4, 21}"
      "c_cc (settings t) ! VERASE linux_tty = 127"
    using linux_tty_cooked by blast
  let ?ks = "[Typed 104, Typed 105, Typed 120, Erase, Typed 33]"
  have "list_all (ordinary linux_tty (settings t)) ?ks" using t(5) by (simp add: ordinary_def)
  from tty_line_editing[OF t(2) this] show ?thesis using t by (auto simp: key_byte_def)
qed



section \<open>Output\<close>

text \<open>What a terminal that maps CR LF to a new line shows.\<close>

fun uncook :: "byte list \<Rightarrow> byte list" where
  "uncook (a # b # xs) = (if a = 13 \<and> b = 10 then 10 # uncook xs else a # uncook (b # xs))"
| "uncook [a] = [a]"
| "uncook [] = []"

lemma uncook_crlf:
  "uncook (concat (map (\<lambda>b. if b = 10 then [13, b] else [b]) d)) = d" (is "uncook (?f d) = d")
proof (induction d)
  case (Cons b d)
  have "uncook (b # ?f d) = b # uncook (?f d)" if "b \<noteq> 10"
    using that by (cases d) auto
  then show ?case using Cons by auto
qed simp

text \<open>
  Output post-processing is lossless: undoing the CR LF expansion on the receiving side gives back
  exactly the bytes written.
\<close>

theorem process_output_roundtrip:
  "if has_oflag t (OPOST c) \<and> has_oflag t (ONLCR c) then uncook (process_output c t d) = d
   else process_output c t d = d"
  by (auto simp: process_output_def uncook_crlf)



end
