(* ===== verification/BTreeMap.thy ===== *)
theory BTreeMap
  imports Prelude "HOL-Library.Multiset"
begin

text \<open>
  \<^verbatim>\<open>alloc::collections::BTreeMap\<close> as the list of its entries in key order, with the operations the
  kernel uses, and \<^verbatim>\<open>split_off_lower_than\<close> of \<^verbatim>\<open>crates/klib/src/btreemap.rs\<close>.
\<close>

type_synonym ('k, 'v) btree_map = "('k \<times> 'v) list"

abbreviation bt_get :: "('k, 'v) btree_map \<Rightarrow> 'k \<Rightarrow> 'v option" where
  "bt_get m k \<equiv> map_of m k"

primrec bt_insert :: "'k :: linorder \<Rightarrow> 'v \<Rightarrow> ('k, 'v) btree_map \<Rightarrow> ('k, 'v) btree_map" where
  "bt_insert k v [] = [(k, v)]"
| "bt_insert k v (x # xs) =
     (if k < fst x then (k, v) # x # xs else if k = fst x then (k, v) # xs else x # bt_insert k v xs)"

definition bt_remove :: "'k \<Rightarrow> ('k, 'v) btree_map \<Rightarrow> ('k, 'v) btree_map" where
  "bt_remove k m = filter (\<lambda>x. fst x \<noteq> k) m"

definition bt_retain :: "('k \<Rightarrow> 'v \<Rightarrow> bool) \<Rightarrow> ('k, 'v) btree_map \<Rightarrow> ('k, 'v) btree_map" where
  "bt_retain P m = filter (\<lambda>(k, v). P k v) m"

definition split_off_lower_than :: "'k :: linorder \<Rightarrow> ('k, 'v) btree_map \<Rightarrow> ('k, 'v) btree_map \<times> ('k, 'v) btree_map" where
  "split_off_lower_than key m = (filter (\<lambda>x. fst x < key) m, filter (\<lambda>x. key \<le> fst x) m)"

definition bt_wf :: "('k :: linorder, 'v) btree_map \<Rightarrow> bool" where
  "bt_wf m \<longleftrightarrow> sorted_wrt (<) (map fst m)"

lemma bt_wf_Nil [simp]: "bt_wf []"
  by (simp add: bt_wf_def)

lemma bt_wf_distinct: "bt_wf m \<Longrightarrow> distinct (map fst m)"
  by (simp add: bt_wf_def strict_sorted_iff)

lemma set_bt_insert_keys: "fst ` set (bt_insert k v m) = insert k (fst ` set m)"
  by (induction m) auto

lemma bt_wf_insert [simp]: "bt_wf m \<Longrightarrow> bt_wf (bt_insert k v m)"
proof (induction m)
  case (Cons x xs)
  then have "bt_wf (bt_insert k v xs)" by (simp add: bt_wf_def)
  then show ?case using Cons.prems
    by (auto simp: bt_wf_def set_bt_insert_keys simp flip: image_set)
qed (simp add: bt_wf_def)

lemma bt_get_insert [simp]: "bt_wf m \<Longrightarrow> bt_get (bt_insert k v m) = (bt_get m)(k \<mapsto> v)"
proof (induction m)
  case (Cons x xs)
  have "bt_get xs k = None" if "k < fst x"
    using Cons.prems that by (auto simp: bt_wf_def map_of_eq_None_iff)
  moreover have "bt_wf xs" using Cons.prems by (simp add: bt_wf_def)
  then have "bt_get (bt_insert k v xs) = (bt_get xs)(k \<mapsto> v)" by (rule Cons.IH)
  ultimately show ?case by (cases x) (auto simp: fun_eq_iff)
qed simp

lemma bt_get_remove [simp]: "bt_get (bt_remove k m) = (bt_get m)(k := None)"
  by (induction m) (auto simp: bt_remove_def fun_eq_iff)

lemma bt_wf_filter [simp]: "bt_wf m \<Longrightarrow> bt_wf (filter P m)"
  by (simp add: bt_wf_def sorted_wrt_map sorted_wrt_filter)

lemma bt_wf_remove [simp]: "bt_wf m \<Longrightarrow> bt_wf (bt_remove k m)"
  by (simp add: bt_remove_def)

lemma bt_wf_retain [simp]: "bt_wf m \<Longrightarrow> bt_wf (bt_retain P m)"
  by (simp add: bt_retain_def)

lemma bt_get_filter:
  "bt_wf m \<Longrightarrow> bt_get (filter P m) k = (case bt_get m k of Some v \<Rightarrow> if P (k, v) then Some v else None | None \<Rightarrow> None)"
proof (induction m)
  case (Cons x xs)
  then have "bt_get xs (fst x) = None" by (auto simp: bt_wf_def map_of_eq_None_iff)
  moreover have "bt_wf xs" using Cons.prems by (simp add: bt_wf_def)
  ultimately show ?case using Cons.IH by (cases x) auto
qed simp

lemma bt_get_retain:
  "bt_wf m \<Longrightarrow> bt_get (bt_retain P m) k = (case bt_get m k of Some v \<Rightarrow> if P k v then Some v else None | None \<Rightarrow> None)"
  by (simp add: bt_retain_def bt_get_filter split: option.splits)

lemma finite_bt_keys [simp]: "finite (dom (bt_get m))"
  by (rule finite_dom_map_of)

lemma mset_bt_insert_new:
  "bt_get m k = None \<Longrightarrow> mset (bt_insert k v m) = add_mset (k, v) (mset m)"
  by (induction m) (auto split: if_splits)

lemma count_list_remove:
  assumes "bt_wf m" "bt_get m k = Some v"
  shows "mset m = add_mset (k, v) (mset (bt_remove k m))"
  using assms
proof (induction m)
  case (Cons x xs)
  have wf: "bt_wf xs" using Cons.prems(1) by (simp add: bt_wf_def)
  show ?case
  proof (cases "fst x = k")
    case True
    then have "k \<notin> fst ` set xs" using Cons.prems(1) by (auto simp: bt_wf_def)
    then have "bt_remove k xs = xs" unfolding bt_remove_def by (intro filter_True) force
    then show ?thesis using True Cons.prems(2) by (cases x) (auto simp: bt_remove_def)
  next
    case False
    then show ?thesis using Cons.IH[OF wf] Cons.prems(2) by (cases x) (auto simp: bt_remove_def)
  qed
qed simp

text \<open>The first key from \<^term>\<open>n\<close> on that is not used, as \<^verbatim>\<open>(n..).find(..)\<close>.\<close>

definition first_unused :: "(int, 'v) btree_map \<Rightarrow> int \<Rightarrow> int option" where
  "first_unused m n = List.find (\<lambda>k. bt_get m k = None) [n..n + int (length m)]"

lemma first_unused_spec:
  "\<exists>k. first_unused m n = Some k \<and> n \<le> k \<and> k \<le> n + int (length m) \<and> bt_get m k = None \<and> (\<forall>j. n \<le> j \<longrightarrow> j < k \<longrightarrow> bt_get m j \<noteq> None)"
proof -
  let ?I = "{n..n + int (length m)}"
  have "\<not> ?I \<subseteq> dom (bt_get m)"
  proof
    assume sub: "?I \<subseteq> dom (bt_get m)"
    have "card ?I \<le> card (dom (bt_get m))" by (rule card_mono[OF finite_bt_keys sub])
    also have "\<dots> \<le> length m" by (simp add: dom_map_of_conv_image_fst card_length order_trans[OF card_image_le])
    finally show False by simp
  qed
  then have "first_unused m n \<noteq> None" unfolding first_unused_def find_None_iff by auto
  then obtain k where k: "first_unused m n = Some k" by blast
  then obtain i where i: "i < length [n..n + int (length m)]" "bt_get m ([n..n + int (length m)] ! i) = None"
      "k = [n..n + int (length m)] ! i" "\<forall>j<i. bt_get m ([n..n + int (length m)] ! j) \<noteq> None"
    unfolding first_unused_def find_Some_iff by auto
  have ki: "k = n + int i" using i(1,3) by simp
  have "bt_get m j \<noteq> None" if "n \<le> j" "j < k" for j
  proof -
    have "nat (j - n) < i" using that ki by simp
    with i(1,4) have "bt_get m ([n..n + int (length m)] ! nat (j - n)) \<noteq> None" by blast
    moreover have "[n..n + int (length m)] ! nat (j - n) = j" using that ki i(1) by simp
    ultimately show ?thesis by simp
  qed
  then show ?thesis using k ki i by auto
qed

end
