(* ===== verification/FdTable.thy ===== *)
theory FdTable
  imports BTreeMap
begin

unbundle bit_operations_syntax

text \<open>
  The per-process file descriptor table, \<^verbatim>\<open>crates/kernel/src/processes/fd_table.rs\<close>, and the
  \<^verbatim>\<open>fcntl\<close> handler of \<^verbatim>\<open>crates/kernel/src/syscalls/io_ops.rs\<close>.  The shared objects behind a
  descriptor are named by numbers.  Cloning and dropping a descriptor changes reference counts of pipes,
  and closing a stream asks the connection to close, so the operations report these effects.  The flag
  and command numbers generated from the Linux headers are a record of constants.
\<close>

record fd_consts =
  O_NONBLOCK :: "32 word"
  O_CLOEXEC :: "32 word"
  F_GETFL :: nat
  F_SETFL :: nat

datatype file_descriptor = Tty nat | UnboundUdpSocket | UdpSocket nat | UnboundTcpSocket | TcpStream nat
  | TcpListener nat | PipeRead nat | PipeWrite nat | VfsFile nat

type_synonym fd_flags = "32 word"

definition flags_nonblocking :: "fd_consts \<Rightarrow> fd_flags \<Rightarrow> bool" where
  "flags_nonblocking c f \<longleftrightarrow> f AND O_NONBLOCK c \<noteq> 0"

definition flags_cloexec :: "fd_consts \<Rightarrow> fd_flags \<Rightarrow> bool" where
  "flags_cloexec c f \<longleftrightarrow> f AND O_CLOEXEC c \<noteq> 0"

definition flags_from_raw :: "fd_consts \<Rightarrow> 32 word \<Rightarrow> fd_flags" where
  "flags_from_raw c raw = raw AND (O_NONBLOCK c OR O_CLOEXEC c)"

record fd_entry =
  descriptor :: file_descriptor
  fflags :: fd_flags

type_synonym fd_table = "(int, fd_entry) btree_map"

datatype fd_effect = Cloned file_descriptor | Dropped file_descriptor | RequestClose nat

definition fd_table_new :: "nat \<Rightarrow> fd_effect list \<times> fd_table" where
  "fd_table_new tty = (replicate 4 (Cloned (Tty tty)) @ [Dropped (Tty tty)],
     fold (\<lambda>fd. bt_insert fd \<lparr>descriptor = Tty tty, fflags = 0\<rparr>) [0, 1, 2] [])"

text \<open>Stepping a \<^verbatim>\<open>RangeFrom<i32>\<close> past its last element overflows, which panics.\<close>

definition find_fd :: "fd_table \<Rightarrow> int \<Rightarrow> int run" where
  "find_fd t n = do { k \<leftarrow> first_unused t n; check (k < 2 ^ 31 - 1); Some k }"

definition allocate :: "file_descriptor \<Rightarrow> fd_table \<Rightarrow> (int \<times> fd_table) run" where
  "allocate d t = do {
     fd \<leftarrow> find_fd t 0;
     Some (fd, bt_insert fd \<lparr>descriptor = d, fflags = 0\<rparr> t)
   }"

definition replace_descriptor ::
    "int \<Rightarrow> file_descriptor \<Rightarrow> fd_table \<Rightarrow> (errno + unit) \<times> fd_effect list \<times> fd_table" where
  "replace_descriptor fd d t = (case bt_get t fd of
     None \<Rightarrow> (Inl EBADF, [Dropped d], t)
   | Some e \<Rightarrow> (Inr (), [Dropped (descriptor e)], bt_insert fd (e\<lparr>descriptor := d\<rparr>) t))"

definition dup_from :: "int \<Rightarrow> int \<Rightarrow> fd_flags \<Rightarrow> fd_table \<Rightarrow> ((errno + int) \<times> fd_effect list \<times> fd_table) run" where
  "dup_from oldfd min_fd flags t = (case bt_get t oldfd of
     None \<Rightarrow> Some (Inl EBADF, [], t)
   | Some e \<Rightarrow> do {
       newfd \<leftarrow> find_fd t min_fd;
       Some (Inr newfd, [Cloned (descriptor e)], bt_insert newfd \<lparr>descriptor = descriptor e, fflags = flags\<rparr> t)
     })"

definition dup_to ::
    "fd_consts \<Rightarrow> int \<Rightarrow> int \<Rightarrow> 32 word \<Rightarrow> fd_table \<Rightarrow> (errno + int) \<times> fd_effect list \<times> fd_table" where
  "dup_to c oldfd newfd flags t =
     (if oldfd = newfd then (Inl EINVAL, [], t)
      else case bt_get t oldfd of
        None \<Rightarrow> (Inl EBADF, [], t)
      | Some e \<Rightarrow>
          (Inr newfd,
           Cloned (descriptor e) # (case bt_get t newfd of None \<Rightarrow> [] | Some old \<Rightarrow> [Dropped (descriptor old)]),
           bt_insert newfd \<lparr>descriptor = descriptor e, fflags = flags_from_raw c flags\<rparr> (bt_remove newfd t)))"

text \<open>The removed entry is moved to the caller.\<close>

definition fd_close :: "int \<Rightarrow> fd_table \<Rightarrow> (errno + fd_entry) \<times> fd_table" where
  "fd_close fd t = (case bt_get t fd of None \<Rightarrow> (Inl EBADF, t) | Some e \<Rightarrow> (Inr e, bt_remove fd t))"

definition get_descriptor :: "int \<Rightarrow> fd_table \<Rightarrow> errno + file_descriptor" where
  "get_descriptor fd t = (case bt_get t fd of None \<Rightarrow> Inl EBADF | Some e \<Rightarrow> Inr (descriptor e))"

definition get_descriptor_and_flags :: "int \<Rightarrow> fd_table \<Rightarrow> errno + (file_descriptor \<times> fd_flags)" where
  "get_descriptor_and_flags fd t = (case bt_get t fd of None \<Rightarrow> Inl EBADF | Some e \<Rightarrow> Inr (descriptor e, fflags e))"

definition get_vfs_file :: "int \<Rightarrow> fd_table \<Rightarrow> errno + nat" where
  "get_vfs_file fd t = (case bt_get t fd of
     Some e \<Rightarrow> (case descriptor e of VfsFile f \<Rightarrow> Inr f | _ \<Rightarrow> Inl EBADF) | None \<Rightarrow> Inl EBADF)"

definition get_flags :: "int \<Rightarrow> fd_table \<Rightarrow> errno + fd_flags" where
  "get_flags fd t = (case bt_get t fd of None \<Rightarrow> Inl EBADF | Some e \<Rightarrow> Inr (fflags e))"

definition set_flags :: "int \<Rightarrow> fd_flags \<Rightarrow> fd_table \<Rightarrow> (errno + unit) \<times> fd_table" where
  "set_flags fd f t = (case bt_get t fd of
     None \<Rightarrow> (Inl EBADF, t) | Some e \<Rightarrow> (Inr (), bt_insert fd (e\<lparr>fflags := f\<rparr>) t))"

definition close_tcp_if_needed :: "file_descriptor \<Rightarrow> fd_effect list" where
  "close_tcp_if_needed d = (case d of TcpStream conn \<Rightarrow> [RequestClose conn] | _ \<Rightarrow> [])"

definition close_all :: "fd_table \<Rightarrow> fd_effect list \<times> fd_table" where
  "close_all t = (concat (map (\<lambda>(_, e). close_tcp_if_needed (descriptor e)) t)
     @ map (\<lambda>(_, e). Dropped (descriptor e)) t, [])"

definition close_cloexec_fds :: "fd_consts \<Rightarrow> fd_table \<Rightarrow> fd_effect list \<times> fd_table" where
  "close_cloexec_fds c t =
     (concat (map (\<lambda>(_, e). if flags_cloexec c (fflags e)
         then close_tcp_if_needed (descriptor e) @ [Dropped (descriptor e)] else []) t),
      bt_retain (\<lambda>_ e. \<not> flags_cloexec c (fflags e)) t)"

section \<open>fcntl\<close>

definition i32_try_from :: "nat \<Rightarrow> errno + int" where
  "i32_try_from arg = (if arg < 2 ^ 31 then Inr (int arg) else Inl EINVAL)"

definition do_fcntl ::
    "fd_consts \<Rightarrow> int \<Rightarrow> nat \<Rightarrow> nat \<Rightarrow> fd_table \<Rightarrow> ((errno + int) \<times> fd_effect list \<times> fd_table) run" where
  "do_fcntl c fd cmd arg t =
     (if cmd = 0 then (case i32_try_from arg of Inl e \<Rightarrow> Some (Inl e, [], t)
        | Inr min_fd \<Rightarrow> dup_from fd min_fd 0 t)
      else if cmd = 1030 then (case i32_try_from arg of Inl e \<Rightarrow> Some (Inl e, [], t)
        | Inr min_fd \<Rightarrow> dup_from fd min_fd (flags_from_raw c (O_CLOEXEC c)) t)
      else if cmd = 1 then (case get_flags fd t of Inl e \<Rightarrow> Some (Inl e, [], t)
        | Inr f \<Rightarrow> Some (Inr (if flags_cloexec c f then 1 else 0), [], t))
      else if cmd = 2 then (case i32_try_from arg of Inl e \<Rightarrow> Some (Inl e, [], t)
        | Inr raw \<Rightarrow> (case get_flags fd t of Inl e \<Rightarrow> Some (Inl e, [], t)
          | Inr current \<Rightarrow>
              let new_raw = (if odd raw then current OR O_CLOEXEC c else current AND NOT (O_CLOEXEC c))
              in case set_flags fd (flags_from_raw c new_raw) t of
                   (Inl e, t) \<Rightarrow> Some (Inl e, [], t) | (Inr _, t) \<Rightarrow> Some (Inr 0, [], t)))
      else if cmd = F_GETFL c then (case get_flags fd t of Inl e \<Rightarrow> Some (Inl e, [], t)
        | Inr f \<Rightarrow> Some (Inr (sint f), [], t))
      else if cmd = F_SETFL c then (case i32_try_from arg of Inl e \<Rightarrow> Some (Inl e, [], t)
        | Inr raw \<Rightarrow> (case set_flags fd (flags_from_raw c (word_of_int raw)) t of
             (Inl e, t) \<Rightarrow> Some (Inl e, [], t) | (Inr _, t) \<Rightarrow> Some (Inr 0, [], t)))
      else Some (Inl EINVAL, [], t))"

section \<open>Reference counts of descriptors\<close>

definition held :: "file_descriptor \<Rightarrow> fd_table \<Rightarrow> int" where
  "held d t = int (count (image_mset (descriptor \<circ> snd) (mset t)) d)"

definition net_effect :: "file_descriptor \<Rightarrow> fd_effect list \<Rightarrow> int" where
  "net_effect d es = int (count_list es (Cloned d)) - int (count_list es (Dropped d))"

lemma net_effect_simps [simp]:
  "net_effect d [] = 0"
  "net_effect d (Cloned e # es) = (if e = d then 1 else 0) + net_effect d es"
  "net_effect d (Dropped e # es) = (if e = d then - 1 else 0) + net_effect d es"
  "net_effect d (RequestClose n # es) = net_effect d es"
  "net_effect d (xs @ ys) = net_effect d xs + net_effect d ys"
  by (auto simp: net_effect_def)

lemma held_remove:
  "bt_wf t \<Longrightarrow> bt_get t fd = Some e \<Longrightarrow> held d t = held d (bt_remove fd t) + (if descriptor e = d then 1 else 0)"
  by (simp add: held_def count_list_remove[of t fd e])

lemma held_insert_new:
  "bt_get t fd = None \<Longrightarrow> held d (bt_insert fd e t) = held d t + (if descriptor e = d then 1 else 0)"
  by (simp add: held_def mset_bt_insert_new)

lemma bt_insert_removed: "bt_wf t \<Longrightarrow> bt_insert k v (bt_remove k t) = bt_insert k v t"
proof (induction t)
  case (Cons x xs)
  have wf: "bt_wf xs" using Cons.prems by (simp add: bt_wf_def)
  show ?case
  proof (cases "fst x = k")
    case True
    then have "k \<notin> fst ` set xs" "\<forall>y\<in>set xs. k < fst y" using Cons.prems by (auto simp: bt_wf_def)
    moreover from this have "bt_remove k xs = xs" unfolding bt_remove_def by (intro filter_True) force
    ultimately show ?thesis using True by (cases xs) (auto simp: bt_remove_def)
  next
    case False
    then have "bt_remove k (x # xs) = x # bt_remove k xs" by (simp add: bt_remove_def)
    moreover have "bt_remove k xs = xs" if "k < fst x"
    proof -
      have "\<forall>y\<in>set xs. fst y \<noteq> k" using Cons.prems that by (auto simp: bt_wf_def)
      then show ?thesis unfolding bt_remove_def by (intro filter_True) simp
    qed
    ultimately show ?thesis using Cons.IH[OF wf] False by auto
  qed
qed (simp add: bt_remove_def)

lemma held_insert_over:
  assumes "bt_wf t" "bt_get t fd = Some e"
  shows "held d (bt_insert fd e' t) = held d t + (if descriptor e' = d then 1 else 0) - (if descriptor e = d then 1 else 0)"
  using held_insert_new[of "bt_remove fd t" fd d e'] held_remove[OF assms, of d] bt_insert_removed[OF assms(1), of fd e']
  by simp

lemma find_fd_spec:
  assumes "find_fd t n = Some k"
  shows "n \<le> k \<and> k < 2 ^ 31 - 1 \<and> bt_get t k = None \<and> (\<forall>j. n \<le> j \<longrightarrow> j < k \<longrightarrow> bt_get t j \<noteq> None)"
  using assms first_unused_spec[of t n] by (auto simp: find_fd_def run_simps)

lemma find_fd_returns:
  assumes "n + int (length t) < 2 ^ 31 - 1"
  shows "\<exists>k. find_fd t n = Some k"
  using assms first_unused_spec[of t n] by (auto simp: find_fd_def)

lemma net_effect_concat: "net_effect d (concat xss) = sum_list (map (net_effect d) xss)"
  by (induction xss) auto

lemma held_sum: "held d t = sum_list (map (\<lambda>x. if descriptor (snd x) = d then 1 else 0) t)"
  by (induction t) (auto simp: held_def)

lemma net_effect_close_tcp [simp]: "net_effect d (close_tcp_if_needed e) = 0"
  by (simp add: close_tcp_if_needed_def split: file_descriptor.splits)

lemma close_all_count:
  assumes "close_all t = (es, t')" shows "held d t' = held d t + net_effect d es"
proof -
  have "net_effect d (map (\<lambda>(_, e). Dropped (descriptor e)) t) = - held d t"
    by (induction t) (auto simp: held_sum)
  moreover have "net_effect d (concat (map (\<lambda>(_, e). close_tcp_if_needed (descriptor e)) t)) = 0"
    by (induction t) auto
  ultimately show ?thesis using assms by (auto simp: close_all_def held_def)
qed

lemma close_cloexec_count:
  assumes "close_cloexec_fds c t = (es, t')" shows "held d t' = held d t + net_effect d es"
proof -
  have "held d (bt_retain (\<lambda>_ e. \<not> flags_cloexec c (fflags e)) t) = held d t
    + net_effect d (concat (map (\<lambda>(_, e). if flags_cloexec c (fflags e)
         then close_tcp_if_needed (descriptor e) @ [Dropped (descriptor e)] else []) t))"
    by (induction t) (auto simp: held_sum bt_retain_def)
  then show ?thesis using assms by (auto simp: close_cloexec_fds_def)
qed

section \<open>Properties\<close>

text \<open>
  C16: allocating a descriptor returns the lowest unused number, installs exactly the given descriptor
  with no flags there, and leaves every other entry alone; with fewer than \<^verbatim>\<open>i32::MAX\<close> entries it
  always succeeds.
\<close>

theorem fd_allocate_lowest:
  assumes "bt_wf t" "length t < 2 ^ 31 - 1"
  shows "\<exists>fd t'. allocate d t = Some (fd, t') \<and> 0 \<le> fd \<and> bt_get t fd = None
    \<and> (\<forall>j. 0 \<le> j \<longrightarrow> j < fd \<longrightarrow> bt_get t j \<noteq> None)
    \<and> bt_get t' = (bt_get t)(fd \<mapsto> \<lparr>descriptor = d, fflags = 0\<rparr>) \<and> bt_wf t'"
proof -
  obtain fd where fd: "find_fd t 0 = Some fd" using find_fd_returns[of 0 t] assms(2) by auto
  from find_fd_spec[OF this] show ?thesis using fd assms(1) by (auto simp: allocate_def)
qed

theorem fd_allocate_lowest_witness:
  "\<exists>fd t'. allocate (PipeRead 7) [(0, \<lparr>descriptor = Tty 0, fflags = 0\<rparr>), (2, \<lparr>descriptor = Tty 0, fflags = 0\<rparr>)] = Some (fd, t')
    \<and> fd = 1"
proof -
  let ?t = "[(0, \<lparr>descriptor = Tty 0, fflags = 0\<rparr>), (2, \<lparr>descriptor = Tty 0, fflags = 0\<rparr>)] :: fd_table"
  obtain fd t' where a: "allocate (PipeRead 7) ?t = Some (fd, t')" "0 \<le> fd" "bt_get ?t fd = None"
      "\<forall>j. 0 \<le> j \<longrightarrow> j < fd \<longrightarrow> bt_get ?t j \<noteq> None"
    using fd_allocate_lowest[of ?t "PipeRead 7"] by (auto simp: bt_wf_def)
  have "fd \<noteq> 0" using a(3) by auto
  moreover have "\<not> 1 < fd" using a(4)[rule_format, of 1] by auto
  ultimately have "fd = 1" using a(2) by linarith
  then show ?thesis using a(1) by blast
qed

text \<open>
  C17: the table never leaks or double-frees a descriptor.  For every object, the number of table entries
  that hold it changes exactly by the clones minus the drops the operation performs, plus what the caller
  moves in and minus what it takes out; so the reference counts of pipe ends stay the number of handles.
\<close>

theorem fd_table_refcounts:
  assumes "bt_wf t"
  shows "(\<forall>fd t'. allocate e t = Some (fd, t') \<longrightarrow> held d t' = held d t + (if e = d then 1 else 0))
    \<and> (\<forall>r es t'. replace_descriptor fd e t = (r, es, t') \<longrightarrow> held d t' = held d t + (if e = d then 1 else 0) + net_effect d es)
    \<and> (\<forall>r es t'. dup_from fd n f t = Some (r, es, t') \<longrightarrow> held d t' = held d t + net_effect d es)
    \<and> (\<forall>r es t'. dup_to c fd fd' raw t = (r, es, t') \<longrightarrow> held d t' = held d t + net_effect d es)
    \<and> (\<forall>x t'. fd_close fd t = (Inr x, t') \<longrightarrow> held d t' = held d t - (if descriptor x = d then 1 else 0))
    \<and> (\<forall>es t'. close_all t = (es, t') \<longrightarrow> held d t' = held d t + net_effect d es)
    \<and> (\<forall>es t'. close_cloexec_fds c t = (es, t') \<longrightarrow> held d t' = held d t + net_effect d es)"
proof (intro conjI allI impI)
  fix fd t' assume "allocate e t = Some (fd, t')"
  then show "held d t' = held d t + (if e = d then 1 else 0)"
    using find_fd_spec[of t 0 fd] by (auto simp: allocate_def run_simps held_insert_new)
next
  fix r es t' assume "replace_descriptor fd e t = (r, es, t')"
  then show "held d t' = held d t + (if e = d then 1 else 0) + net_effect d es"
    using held_insert_over[OF assms, of fd] by (auto simp: replace_descriptor_def split: option.splits)
next
  fix r es t' assume "dup_from fd n f t = Some (r, es, t')"
  then show "held d t' = held d t + net_effect d es"
    using find_fd_spec[of t n] by (auto simp: dup_from_def run_simps held_insert_new split: option.splits)
next
  fix r es t' assume "dup_to c fd fd' raw t = (r, es, t')"
  then show "held d t' = held d t + net_effect d es"
    using held_insert_over[OF assms, of fd'] held_insert_new[of t fd']
    by (auto simp: dup_to_def bt_insert_removed[OF assms] split: if_splits option.splits)
next
  fix x t' assume "fd_close fd t = (Inr x, t')"
  then show "held d t' = held d t - (if descriptor x = d then 1 else 0)"
    using held_remove[OF assms, of fd x d] by (auto simp: fd_close_def split: option.splits)
qed (rule close_all_count close_cloexec_count, assumption)+

theorem fd_table_refcounts_witness:
  "\<exists>t'. fd_close 0 [(0, \<lparr>descriptor = PipeRead 3, fflags = 0\<rparr>)] = (Inr \<lparr>descriptor = PipeRead 3, fflags = 0\<rparr>, t')
    \<and> held (PipeRead 3) t' = held (PipeRead 3) [(0, \<lparr>descriptor = PipeRead 3, fflags = 0\<rparr>)] - 1"
  using fd_table_refcounts[of "[(0, \<lparr>descriptor = PipeRead 3, fflags = 0\<rparr>)]" undefined "PipeRead 3" 0]
  by (auto simp: bt_wf_def fd_close_def)


definition linux_fd :: fd_consts where
  "linux_fd = \<lparr>O_NONBLOCK = 0x800, O_CLOEXEC = 0x80000, F_GETFL = 3, F_SETFL = 4\<rparr>"


text \<open>
  C19: F\_SETFL replaces all flags of the descriptor, so setting status flags that do not include
  close-on-exec silently clears close-on-exec and the descriptor survives the next exec.
\<close>

theorem fcntl_setfl_clears_cloexec:
  assumes "bt_wf t" "bt_get t fd = Some e" "flags_cloexec c (fflags e)" "arg < 2 ^ 31"
    "word_of_nat arg AND O_CLOEXEC c = 0" "F_SETFL c \<notin> {0, 1, 2, 1030, F_GETFL c}"
  shows "\<exists>t'. do_fcntl c fd (F_SETFL c) arg t = Some (Inr 0, [], t')
    \<and> bt_get (snd (close_cloexec_fds c t)) fd = None \<and> bt_get (snd (close_cloexec_fds c t')) fd \<noteq> None"
proof -
  have "flags_from_raw c (word_of_int (int arg)) AND O_CLOEXEC c = 0"
    using assms(5) by (simp add: flags_from_raw_def) (metis (no_types) and.assoc and.commute and_zero_eq)
  then have "\<not> flags_cloexec c (flags_from_raw c (word_of_int (int arg)))" by (simp add: flags_cloexec_def)
  then show ?thesis
    using assms by (auto simp: do_fcntl_def i32_try_from_def set_flags_def close_cloexec_fds_def bt_get_retain)
qed

theorem fcntl_setfl_clears_cloexec_witness:
  "\<exists>t'. do_fcntl linux_fd 0 4 0x800 [(0, \<lparr>descriptor = PipeRead 3, fflags = 0x80000\<rparr>)] = Some (Inr 0, [], t')
    \<and> bt_get (snd (close_cloexec_fds linux_fd t')) 0 \<noteq> None"
  using fcntl_setfl_clears_cloexec[of "[(0, \<lparr>descriptor = PipeRead 3, fflags = 0x80000\<rparr>)]" 0 _ linux_fd "0x800"]
  by (auto simp: bt_wf_def linux_fd_def flags_cloexec_def)

text \<open>
  C20: F\_DUPFD with the largest minimum panics the kernel: the search for a free number steps over
  \<^verbatim>\<open>i32::MAX\<close>.
\<close>

theorem fcntl_dupfd_max_panics:
  assumes "bt_get t fd = Some e"
  shows "do_fcntl c fd 0 (2 ^ 31 - 1) t = None"
proof -
  obtain k where "first_unused t (2 ^ 31 - 1) = Some k" "2 ^ 31 - 1 \<le> k"
    using first_unused_spec[of t "2 ^ 31 - 1"] by blast
  then show ?thesis using assms by (simp add: do_fcntl_def i32_try_from_def dup_from_def find_fd_def)
qed

theorem fcntl_dupfd_max_panics_witness:
  "do_fcntl linux_fd 0 0 0x7fffffff [(0, \<lparr>descriptor = Tty 0, fflags = 0\<rparr>)] = None"
  using fcntl_dupfd_max_panics[of "[(0, \<lparr>descriptor = Tty 0, fflags = 0\<rparr>)]" 0 _ linux_fd] by simp

end
