(* ===== verification/WaitQueue.thy ===== *)
theory WaitQueue
  imports Prelude "HOL-Library.Multiset"
begin

text \<open>
  The contract of everything in the kernel that parks wakers and later wakes some of them: pipes,
  terminals, futexes, sleeping threads, waiting parents.  A waker is parked at a place; waking for an event
  hands out parked wakers and unparks exactly those.  No waker is lost, invented or woken twice
  for one registration.
\<close>

datatype ('p, 'e, 'w) wait_op = Park 'p 'w | Wake 'e

locale wait_queue =
  fixes ok :: "'s \<Rightarrow> bool"
    and parked :: "'s \<Rightarrow> 'w multiset"
    and park :: "'p \<Rightarrow> 'w \<Rightarrow> 's \<Rightarrow> 's"
    and wake :: "'e \<Rightarrow> 's \<Rightarrow> 'w list \<times> 's"
  assumes park_ok: "ok s \<Longrightarrow> ok (park p w s)"
    and park_parked: "ok s \<Longrightarrow> parked (park p w s) = add_mset w (parked s)"
    and wake_ok: "ok s \<Longrightarrow> wake e s = (ws, s') \<Longrightarrow> ok s'"
    and wake_parked: "ok s \<Longrightarrow> wake e s = (ws, s') \<Longrightarrow> mset ws + parked s' = parked s"
begin

primrec wait_exec :: "('p, 'e, 'w) wait_op list \<Rightarrow> 's \<Rightarrow> 'w list \<times> 's" where
  "wait_exec [] s = ([], s)"
| "wait_exec (x # xs) s = (case x of
     Park p w \<Rightarrow> wait_exec xs (park p w s)
   | Wake e \<Rightarrow> let (ws, s') = wake e s; (vs, t) = wait_exec xs s' in (ws @ vs, t))"

primrec registrations :: "('p, 'e, 'w) wait_op list \<Rightarrow> 'w multiset" where
  "registrations [] = {#}"
| "registrations (x # xs) = (case x of Park p w \<Rightarrow> add_mset w (registrations xs) | Wake e \<Rightarrow> registrations xs)"

lemma wait_exec_conserves:
  "ok s \<Longrightarrow> wait_exec ops s = (ws, t) \<Longrightarrow> mset ws + parked t = parked s + registrations ops \<and> ok t"
proof (induction ops arbitrary: s ws)
  case (Cons x xs)
  show ?case
  proof (cases x)
    case (Park p w)
    then show ?thesis
      using Cons.prems Cons.IH[of "park p w s" ws] by (simp add: park_ok park_parked)
  next
    case (Wake e)
    obtain vs s' where w: "wake e s = (vs, s')" by fastforce
    obtain us where u: "wait_exec xs s' = (us, t)" "ws = vs @ us"
      using Cons.prems(2) Wake w by (auto split: prod.splits)
    have ih: "mset us + parked t = parked s' + registrations xs" "ok t"
      using Cons.IH[OF wake_ok[OF Cons.prems(1) w] u(1)] by auto
    have "mset ws + parked t = mset vs + parked s' + registrations xs"
      using ih(1) u(2) by (simp add: add.assoc)
    then show ?thesis using wake_parked[OF Cons.prems(1) w] Wake ih(2) by simp
  qed
qed simp

end

end
