(* ===== verification/Waiting.thy ===== *)
theory Waiting
  imports BTreeMap WaitQueue "HOL-Library.Product_Lexorder"
begin

text \<open>
  Sleeping and futexes: \<^verbatim>\<open>crates/kernel/src/processes/timer.rs\<close>,
  \<^verbatim>\<open>crates/kernel/src/processes/futex.rs\<close> and the handlers \<^verbatim>\<open>do_nanosleep\<close> and \<^verbatim>\<open>do_futex\<close> of
  \<^verbatim>\<open>crates/kernel/src/syscalls\<close>.  The clock is an argument; the user memory a futex reads is the
  result of the checked read, \<^term>\<open>None\<close> for a bad address.
\<close>

section \<open>Parking under a key\<close>

text \<open>\<^verbatim>\<open>entry(key).or_default().push(waker)\<close>.\<close>

definition push_entry :: "'k :: linorder \<Rightarrow> 'w \<Rightarrow> ('k, 'w list) btree_map \<Rightarrow> ('k, 'w list) btree_map" where
  "push_entry k w m = bt_insert k ((case bt_get m k of None \<Rightarrow> [] | Some ws \<Rightarrow> ws) @ [w]) m"

definition all_parked :: "('k, 'w list) btree_map \<Rightarrow> 'w multiset" where
  "all_parked m = mset (concat (map snd m))"

lemma all_parked_Cons [simp]: "all_parked (x # m) = mset (snd x) + all_parked m"
  by (simp add: all_parked_def)

lemma all_parked_Nil [simp]: "all_parked [] = {#}"
  by (simp add: all_parked_def)

lemma all_parked_insert:
  "bt_wf m \<Longrightarrow> all_parked (bt_insert k ws m) + mset (case bt_get m k of None \<Rightarrow> [] | Some vs \<Rightarrow> vs) = all_parked m + mset ws"
proof (induction m)
  case (Cons x xs)
  have "bt_wf xs" using Cons.prems by (simp add: bt_wf_def)
  moreover have "bt_get xs k = None" if "k \<le> fst x"
    using Cons.prems that by (auto simp: bt_wf_def map_of_eq_None_iff)
  ultimately show ?case using Cons.IH by (cases x) (auto simp: ac_simps)
qed simp

lemma all_parked_push: "bt_wf m \<Longrightarrow> all_parked (push_entry k w m) = add_mset w (all_parked m)"
  using all_parked_insert[of m k "(case bt_get m k of None \<Rightarrow> [] | Some ws \<Rightarrow> ws) @ [w]"]
  by (auto simp: push_entry_def ac_simps)

lemma all_parked_remove:
  "bt_wf m \<Longrightarrow> bt_get m k = Some ws \<Longrightarrow> all_parked m = mset ws + all_parked (bt_remove k m)"
proof (induction m)
  case (Cons x xs)
  have wf: "bt_wf xs" using Cons.prems(1) by (simp add: bt_wf_def)
  show ?case
  proof (cases "fst x = k")
    case True
    then have "\<forall>y\<in>set xs. fst y \<noteq> k" using Cons.prems(1) by (auto simp: bt_wf_def)
    then have "bt_remove k xs = xs" unfolding bt_remove_def by (intro filter_True) simp
    then show ?thesis using True Cons.prems(2) by (cases x) (auto simp: bt_remove_def)
  next
    case False
    then show ?thesis using Cons.IH[OF wf] Cons.prems(2) by (cases x) (auto simp: bt_remove_def ac_simps)
  qed
qed simp

lemma all_parked_split: "all_parked (filter P m) + all_parked (filter (\<lambda>x. \<not> P x) m) = all_parked m"
  by (induction m) (auto simp: ac_simps)

section \<open>Timers\<close>

record timespec =
  tv_sec :: int
  tv_nsec :: int

record sleep_future =
  wakeup_time :: nat
  registered :: bool

definition sleep :: "nat \<Rightarrow> nat \<Rightarrow> timespec \<Rightarrow> sleep_future run" where
  "sleep freq now d = do {
     a \<leftarrow> umul (nat (tv_sec d)) freq;
     b \<leftarrow> umul (nat (tv_nsec d)) freq;
     clocks \<leftarrow> uadd a (b div 1000000000);
     t \<leftarrow> uadd now clocks;
     Some \<lparr>wakeup_time = t, registered = False\<rparr>
   }"

type_synonym 'w wakeup_queue = "(nat, 'w list) btree_map"

definition sleep_poll :: "nat \<Rightarrow> 'w \<Rightarrow> sleep_future \<Rightarrow> 'w wakeup_queue \<Rightarrow> bool \<times> sleep_future \<times> 'w wakeup_queue" where
  "sleep_poll now w f q =
     (if wakeup_time f \<le> now then (True, f, q)
      else if \<not> registered f then (False, f\<lparr>registered := True\<rparr>, push_entry (wakeup_time f) w q)
      else (False, f, q))"

definition wakeup_wakers :: "nat \<Rightarrow> 'w wakeup_queue \<Rightarrow> 'w list \<times> 'w wakeup_queue" where
  "wakeup_wakers now q = (let (due, rest) = split_off_lower_than now q in (concat (map snd due), rest))"

definition current_time :: "nat \<Rightarrow> nat \<Rightarrow> timespec run" where
  "current_time freq clocks = do {
     secs \<leftarrow> udiv clocks freq;
     remaining \<leftarrow> urem clocks freq;
     n \<leftarrow> umul remaining 1000000000;
     nsecs \<leftarrow> udiv n freq;
     Some \<lparr>tv_sec = int secs, tv_nsec = int nsecs\<rparr>
   }"

definition set_timer :: "nat \<Rightarrow> nat \<Rightarrow> nat \<Rightarrow> nat run" where
  "set_timer freq now milliseconds = do {
     x \<leftarrow> umul freq milliseconds;
     Some ((now + x div 1000) mod 2 ^ 64)
   }"

text \<open>The argument is read from user memory first; \<^term>\<open>None\<close> there is the failed validation.\<close>

definition do_nanosleep :: "nat \<Rightarrow> nat \<Rightarrow> timespec option \<Rightarrow> (errno + sleep_future) run" where
  "do_nanosleep freq now arg = (case arg of
     None \<Rightarrow> Some (Inl EFAULT)
   | Some d \<Rightarrow>
       if tv_sec d < 0 \<or> \<not> (0 \<le> tv_nsec d \<and> tv_nsec d \<le> 999999999) then Some (Inl EINVAL)
       else do { f \<leftarrow> sleep freq now d; Some (Inr f) })"

section \<open>Futexes\<close>

type_synonym futex_key = "nat \<times> usize"
type_synonym 'w waiters = "(futex_key, 'w list) btree_map"

definition futex_wait_poll ::
    "32 word option \<Rightarrow> 'w \<Rightarrow> futex_key \<Rightarrow> 32 word \<Rightarrow> 'w waiters \<Rightarrow> errno option \<times> 'w waiters" where
  "futex_wait_poll user_value w key expected waiters =
     (let current_val = (case user_value of None \<Rightarrow> - 1 | Some v \<Rightarrow> v)
      in if current_val \<noteq> expected then (Some EAGAIN, waiters)
         else (None, push_entry key w waiters))"

definition futex_wake :: "futex_key \<Rightarrow> nat \<Rightarrow> 'w waiters \<Rightarrow> (nat \<times> 'w list \<times> 'w waiters) run" where
  "futex_wake key n waiters = (case bt_get waiters key of
     None \<Rightarrow> Some (0, [], waiters)
   | Some wakers \<Rightarrow>
       let wake_count = min n (length wakers);
           to_wake = take wake_count wakers;
           rest = drop wake_count wakers;
           waiters = (if rest = [] then bt_remove key waiters else bt_insert key rest waiters)
       in do { check (wake_count < 2 ^ 31); Some (wake_count, to_wake, waiters) })"

section \<open>No waker is lost\<close>

lemma bt_wf_push [simp]: "bt_wf m \<Longrightarrow> bt_wf (push_entry k w m)"
  by (simp add: push_entry_def)

lemma wakeup_wakers_parked:
  "wakeup_wakers now q = (ws, r) \<Longrightarrow> mset ws + all_parked r = all_parked q"
  using all_parked_split[of "\<lambda>x. fst x < now" q]
  by (auto simp: wakeup_wakers_def split_off_lower_than_def all_parked_def not_less Let_def)

interpretation timers: wait_queue bt_wf all_parked push_entry wakeup_wakers
  by unfold_locales
    (auto simp: all_parked_push wakeup_wakers_parked, auto simp: wakeup_wakers_def split_off_lower_than_def)

definition futex_wake_some :: "futex_key \<times> nat \<Rightarrow> 'w waiters \<Rightarrow> 'w list \<times> 'w waiters" where
  "futex_wake_some e m = (case futex_wake (fst e) (snd e) m of Some (_, ws, m') \<Rightarrow> (ws, m') | None \<Rightarrow> ([], m))"

lemma futex_wake_parked:
  assumes "bt_wf m" "futex_wake key n m = Some (k, ws, m')"
  shows "mset ws + all_parked m' = all_parked m" "bt_wf m'"
proof -
  show "bt_wf m'" using assms by (auto simp: futex_wake_def Let_def run_simps split: option.splits)
  show "mset ws + all_parked m' = all_parked m"
  proof (cases "bt_get m key")
    case None
    then show ?thesis using assms(2) by (simp add: futex_wake_def)
  next
    case (Some vs)
    let ?c = "min n (length vs)"
    have ws: "ws = take ?c vs" "m' = (if drop ?c vs = [] then bt_remove key m else bt_insert key (drop ?c vs) m)"
      using assms(2) Some by (auto simp: futex_wake_def Let_def run_simps)
    have tk: "mset (take ?c vs) + mset (drop ?c vs) = mset vs" by (simp flip: mset_append)
    show ?thesis
    proof (cases "drop ?c vs = []")
      case True
      then show ?thesis using ws tk all_parked_remove[OF assms(1) Some] by simp
    next
      case False
      have "all_parked m' + mset vs = all_parked m + mset (drop ?c vs)"
        using all_parked_insert[OF assms(1), of key "drop ?c vs"] Some ws False by simp
      then have "mset (drop ?c vs) + (mset ws + all_parked m') = mset (drop ?c vs) + all_parked m"
        using tk ws(1) by (simp add: ac_simps flip: tk)
      then show ?thesis by simp
    qed
  qed
qed

interpretation futexes: wait_queue bt_wf all_parked push_entry futex_wake_some
proof unfold_locales
  fix m :: "'w waiters" and e ws m'
  assume "bt_wf m" "futex_wake_some e m = (ws, m')"
  then show "bt_wf m'" "mset ws + all_parked m' = all_parked m"
    using futex_wake_parked[of m "fst e" "snd e"]
    by (auto simp: futex_wake_some_def split: option.splits)
qed (auto simp: all_parked_push)

section \<open>Properties\<close>



text \<open>
  C22: a valid sleep request panics the kernel when its length in clock ticks does not fit 64 bits:
  the handler only bounds the nanoseconds, and the multiplication with the clock frequency overflows.
\<close>

theorem nanosleep_overflow_panics:
  assumes "0 \<le> tv_sec d" "0 \<le> tv_nsec d" "tv_nsec d \<le> 999999999" "2 ^ 64 \<le> nat (tv_sec d) * freq"
  shows "do_nanosleep freq now (Some d) = None"
  using assms by (simp add: do_nanosleep_def sleep_def umul_def)

theorem nanosleep_overflow_panics_witness:
  "do_nanosleep 10000000 0 (Some \<lparr>tv_sec = 2000000000000, tv_nsec = 0\<rparr>) = None"
  using nanosleep_overflow_panics[of "\<lparr>tv_sec = 2000000000000, tv_nsec = 0\<rparr>" 10000000 0] by simp



text \<open>
  C24: waiting on an unmapped address with the expected value 0xffffffff does not fail: the failed read
  counts as that value and the thread is parked.
\<close>

theorem futex_bad_address_parks:
  assumes "bt_wf m"
  shows "fst (futex_wait_poll None w key (- 1) m) = None
    \<and> w \<in># all_parked (snd (futex_wait_poll None w key (- 1) m))
    \<and> (expected \<noteq> - 1 \<longrightarrow> futex_wait_poll None w key expected m = (Some EAGAIN, m))"
  using assms by (simp add: futex_wait_poll_def all_parked_push)

theorem futex_bad_address_parks_witness:
  "fst (futex_wait_poll None (7 :: nat) (1, 64) (- 1) []) = None"
  using futex_bad_address_parks[of "[]" "7 :: nat" "(1, 64)"] by simp

end
