(* ===== verification/Parser.thy ===== *)
theory Parser
  imports Klib
begin

text \<open>
  The byte parser every binary format of the kernel is read with, \<^verbatim>\<open>ConsumableBuffer\<close> of
  \<^verbatim>\<open>crates/klib/src/parser.rs\<close>.  A parsing step may panic (outer \<^term>\<open>None\<close>), fail (inner
  \<^term>\<open>None\<close>, with the position it stopped at) or give a value.
\<close>

record consumable_buffer =
  buf :: "byte list"
  pos :: usize

type_synonym 'a parsed = "('a option \<times> consumable_buffer) run"

definition cb_new :: "byte list \<Rightarrow> consumable_buffer" where
  "cb_new bs = \<lparr>buf = bs, pos = 0\<rparr>"

text \<open>Rust's question mark on an \<^verbatim>\<open>Option\<close>: return early, keeping what was consumed.\<close>

definition pthen :: "('a option \<times> 's) run \<Rightarrow> ('a \<Rightarrow> 's \<Rightarrow> ('b option \<times> 's) run) \<Rightarrow> ('b option \<times> 's) run" where
  "pthen m f = (case m of None \<Rightarrow> None | Some (None, s) \<Rightarrow> Some (None, s) | Some (Some a, s) \<Rightarrow> f a s)"

lemma pthen_simps [simp]:
  "pthen (Some (Some a, s)) f = f a s"
  "pthen (Some (None, s)) f = Some (None, s)"
  "pthen None f = None"
  by (simp_all add: pthen_def)

definition consume_slice :: "usize \<Rightarrow> consumable_buffer \<Rightarrow> byte list parsed" where
  "consume_slice n b = do {
     e \<leftarrow> uadd (pos b) n;
     if e > length (buf b) then Some (None, b)
     else if n = 0 then Some (Some [], b)
     else do { r \<leftarrow> slice_of (buf b) (pos b) e; Some (Some r, b\<lparr>pos := e\<rparr>) }
   }"

primrec le_bytes :: "byte list \<Rightarrow> nat" where
  "le_bytes [] = 0"
| "le_bytes (b # bs) = unat b + 256 * le_bytes bs"

text \<open>\<^verbatim>\<open>consume_sized_type\<close> at an unsigned integer of \<^term>\<open>n\<close> bytes.\<close>

definition consume_uint :: "nat \<Rightarrow> consumable_buffer \<Rightarrow> nat parsed" where
  "consume_uint n b = pthen (consume_slice n b) (\<lambda>bs b. Some (Some (le_bytes bs), b))"

text \<open>\<^verbatim>\<open>consume_unsized_type\<close>: the parser gives the value and the number of bytes it used.\<close>

definition consume_unsized :: "(byte list \<Rightarrow> ('a \<times> nat) option run) \<Rightarrow> consumable_buffer \<Rightarrow> 'a parsed" where
  "consume_unsized p b = do {
     r \<leftarrow> slice_of (buf b) (pos b) (length (buf b));
     x \<leftarrow> p r;
     case x of None \<Rightarrow> Some (None, b)
     | Some (v, n) \<Rightarrow> do {
         e \<leftarrow> uadd (pos b) n;
         if e > length (buf b) then Some (None, b) else Some (Some v, b\<lparr>pos := e\<rparr>) }
   }"

definition consume_alignment :: "usize \<Rightarrow> consumable_buffer \<Rightarrow> unit parsed" where
  "consume_alignment alignment b = do {
     a \<leftarrow> align_up (pos b) alignment;
     d \<leftarrow> usub a (pos b);
     pthen (consume_slice d b) (\<lambda>_ b. Some (Some (), b))
   }"

section \<open>Strings\<close>

text \<open>\<^verbatim>\<open>core::str::from_utf8\<close>: the length of a well-formed UTF-8 sequence at the start of the bytes.\<close>

definition cont :: "byte \<Rightarrow> bool" where
  "cont b \<longleftrightarrow> 0x80 \<le> b \<and> b \<le> 0xBF"

fun utf8_len :: "byte list \<Rightarrow> nat option" where
  "utf8_len [] = None"
| "utf8_len (a # xs) =
    (if a < 0x80 then Some 1
     else if 0xC2 \<le> a \<and> a \<le> 0xDF then
       (case xs of b # _ \<Rightarrow> if cont b then Some 2 else None | _ \<Rightarrow> None)
     else if 0xE0 \<le> a \<and> a \<le> 0xEF then
       (case xs of b # c # _ \<Rightarrow>
          if cont b \<and> cont c \<and> (a = 0xE0 \<longrightarrow> 0xA0 \<le> b) \<and> (a = 0xED \<longrightarrow> b \<le> 0x9F) then Some 3 else None
        | _ \<Rightarrow> None)
     else if 0xF0 \<le> a \<and> a \<le> 0xF4 then
       (case xs of b # c # d # _ \<Rightarrow>
          if cont b \<and> cont c \<and> cont d \<and> (a = 0xF0 \<longrightarrow> 0x90 \<le> b) \<and> (a = 0xF4 \<longrightarrow> b \<le> 0x8F) then Some 4 else None
        | _ \<Rightarrow> None)
     else None)"

lemma utf8_len_pos: "utf8_len xs = Some n \<Longrightarrow> 0 < n \<and> n \<le> length xs"
  by (cases xs) (auto split: if_splits list.splits)

function utf8_valid :: "byte list \<Rightarrow> bool" where
  "utf8_valid bs = (bs = [] \<or> (case utf8_len bs of None \<Rightarrow> False | Some n \<Rightarrow> utf8_valid (drop n bs)))"
  by pat_completeness auto
termination
  by (relation "measure length") (auto dest: utf8_len_pos)

declare utf8_valid.simps [simp del]

lemma utf8_valid_ascii: "\<forall>b\<in>set bs. b < 0x80 \<Longrightarrow> utf8_valid bs"
  by (induction bs) (auto simp: utf8_valid.simps[of "_ # _"] utf8_valid.simps[of "[]"])

text \<open>Index of the first NUL at or after the position.\<close>

definition consume_str :: "consumable_buffer \<Rightarrow> byte list parsed" where
  "consume_str b =
     (let s = takeWhile (\<lambda>x. x \<noteq> 0) (drop (pos b) (buf b));
          len = length s
      in if pos b + len \<ge> length (buf b) then Some (None, b)
         else if \<not> utf8_valid s then Some (None, b)
         else do { p \<leftarrow> uadd (pos b) (len + 1); Some (Some s, b\<lparr>pos := p\<rparr>) })"

definition cb_empty :: "consumable_buffer \<Rightarrow> bool" where
  "cb_empty b \<longleftrightarrow> pos b \<ge> length (buf b)"

definition size_left :: "consumable_buffer \<Rightarrow> nat" where
  "size_left b = (if pos b \<ge> length (buf b) then 0 else length (buf b) - pos b)"

section \<open>Reading a known prefix\<close>

text \<open>
  \<^term>\<open>at pre rest\<close> is the buffer whose consumed part is \<^term>\<open>pre\<close>.
\<close>

definition at :: "byte list \<Rightarrow> byte list \<Rightarrow> consumable_buffer" where
  "at pre rest = \<lparr>buf = pre @ rest, pos = length pre\<rparr>"

lemma at_sel [simp]: "buf (at pre rest) = pre @ rest" "pos (at pre rest) = length pre"
  by (simp_all add: at_def)

lemma at_advance: "\<lparr>buf = pre @ xs @ rest, pos = length pre + length xs\<rparr> = at (pre @ xs) rest"
  by (simp add: at_def)

lemma cb_new_at: "cb_new bs = at [] bs"
  by (simp add: cb_new_def at_def)

lemma consume_slice_at:
  assumes "length (pre @ xs @ rest) < 2 ^ 64" "n = length xs"
  shows "consume_slice n (at pre (xs @ rest)) = Some (Some xs, at (pre @ xs) rest)"
  using assms by (cases xs) (auto simp: consume_slice_def uadd_def slice_of_def at_def)

lemma consume_slice_short:
  assumes "length pre + n < 2 ^ 64" "length rest < n"
  shows "consume_slice n (at pre rest) = Some (None, at pre rest)"
  using assms by (auto simp: consume_slice_def uadd_def)

lemma consume_uint_at:
  assumes "length (pre @ xs @ rest) < 2 ^ 64" "n = length xs"
  shows "consume_uint n (at pre (xs @ rest)) = Some (Some (le_bytes xs), at (pre @ xs) rest)"
  using consume_slice_at[OF assms] by (simp add: consume_uint_def)

lemma consume_uint_short:
  assumes "length pre + n < 2 ^ 64" "length rest < n"
  shows "consume_uint n (at pre rest) = Some (None, at pre rest)"
  using consume_slice_short[OF assms] by (simp add: consume_uint_def)

lemma consume_unsized_at:
  assumes "length (pre @ xs @ rest) < 2 ^ 64" "p (xs @ rest) = Some (Some (v, length xs))"
  shows "consume_unsized p (at pre (xs @ rest)) = Some (Some v, at (pre @ xs) rest)"
  using assms by (auto simp: consume_unsized_def slice_of_def uadd_def at_def)

lemma consume_str_at:
  assumes "length (pre @ s @ [0] @ rest) < 2 ^ 64" "0 \<notin> set s" "utf8_valid s"
  shows "consume_str (at pre (s @ [0] @ rest)) = Some (Some s, at (pre @ s @ [0]) rest)"
proof -
  have "takeWhile (\<lambda>x. x \<noteq> 0) (s @ 0 # rest) = s"
    using assms(2) by (induction s) auto
  then show ?thesis using assms by (simp add: consume_str_def uadd_def at_def)
qed

text \<open>Nothing is consumed past the end.\<close>

lemma consume_slice_bound:
  assumes "consume_slice n b = Some (r, b')" "pos b \<le> length (buf b)"
  shows "buf b' = buf b \<and> pos b \<le> pos b' \<and> pos b' \<le> length (buf b)
    \<and> (\<forall>xs. r = Some xs \<longrightarrow> length xs = n \<and> pos b' = pos b + n) \<and> (r = None \<longrightarrow> b' = b)"
  using assms by (auto simp: consume_slice_def run_simps split: if_splits)

lemma consume_uint_bound:
  assumes "consume_uint n b = Some (r, b')" "pos b \<le> length (buf b)"
  shows "buf b' = buf b \<and> pos b \<le> pos b' \<and> pos b' \<le> length (buf b)
    \<and> (\<forall>v. r = Some v \<longrightarrow> pos b' = pos b + n) \<and> (r = None \<longrightarrow> b' = b)"
proof -
  obtain x c where c: "consume_slice n b = Some (x, c)"
    using assms(1) by (cases "consume_slice n b") (auto simp: consume_uint_def)
  then show ?thesis
    using assms(1) consume_slice_bound[OF c assms(2)] by (cases x) (auto simp: consume_uint_def)
qed

lemma consume_unsized_bound:
  assumes "consume_unsized p b = Some (r, b')" "pos b \<le> length (buf b)"
  shows "buf b' = buf b \<and> pos b \<le> pos b' \<and> pos b' \<le> length (buf b) \<and> (r = None \<longrightarrow> b' = b)"
proof -
  obtain x where x: "p (drop (pos b) (buf b)) = Some x"
    using assms by (cases "p (drop (pos b) (buf b))") (auto simp: consume_unsized_def slice_of_def)
  show ?thesis
    using assms x by (cases x) (auto simp: consume_unsized_def slice_of_def uadd_def split: if_splits)
qed

lemma le_bytes_append: "le_bytes (xs @ ys) = le_bytes xs + 256 ^ length xs * le_bytes ys"
  by (induction xs) auto

lemma le_bytes_bound: "le_bytes xs < 256 ^ length xs"
proof (induction xs)
  case (Cons b bs)
  have "unat b < 256" using unsigned_less[of b, where 'a = nat] by simp
  then show ?case using Cons by simp
qed simp

text \<open>The little-endian encoding of a number.\<close>

primrec to_le :: "nat \<Rightarrow> nat \<Rightarrow> byte list" where
  "to_le 0 v = []"
| "to_le (Suc n) v = word_of_nat (v mod 256) # to_le n (v div 256)"

lemma length_to_le [simp]: "length (to_le n v) = n"
  by (induction n arbitrary: v) auto

lemma unat_of_byte [simp]: "v < 256 \<Longrightarrow> unat (word_of_nat v :: byte) = v"
  by (simp add: unsigned_of_nat take_bit_nat_eq_self)

lemma le_bytes_to_le: "v < 256 ^ n \<Longrightarrow> le_bytes (to_le n v) = v"
proof (induction n arbitrary: v)
  case (Suc n)
  then have "v div 256 < 256 ^ n" by (simp add: less_mult_imp_div_less mult.commute)
  then show ?case using Suc by simp
qed simp

end
