(* ===== verification/Leb128.thy ===== *)
theory Leb128
  imports Parser
begin

unbundle bit_operations_syntax

text \<open>
  LEB128 numbers, \<^verbatim>\<open>crates/kernel/src/debugging/leb128.rs\<close>.  The result is a 64-bit word, because the
  shift drops the bits that do not fit; the second component is the number of bytes used.  The loops run
  over the bytes, and stop after at most ten of them.
\<close>

fun unsigned_parse :: "byte list \<Rightarrow> 64 word \<Rightarrow> nat \<Rightarrow> nat \<Rightarrow> (64 word \<times> nat) option" where
  "unsigned_parse [] result shift n = None"
| "unsigned_parse (b # bs) result shift n =
     (let next_byte = ucast b :: 64 word;
          n = n + 1;
          result = result OR push_bit shift (next_byte AND 0x7F)
      in if next_byte AND 0x80 = 0 then Some (result, n)
         else let shift = shift + 7
              in if shift \<ge> 64 then None else unsigned_parse bs result shift n)"

definition unsigned_leb128 :: "byte list \<Rightarrow> (64 word \<times> nat) option run" where
  "unsigned_leb128 bs = Some (unsigned_parse bs 0 0 0)"

fun signed_parse :: "byte list \<Rightarrow> 64 word \<Rightarrow> nat \<Rightarrow> nat \<Rightarrow> (64 word \<times> nat) option" where
  "signed_parse [] result shift n = None"
| "signed_parse (b # bs) result shift n =
     (let next_byte = ucast b :: 64 word;
          n = n + 1;
          result = result OR push_bit shift (next_byte AND 0x7F);
          shift = shift + 7
      in if shift \<ge> 64 then None
         else if next_byte AND 0x80 = 0
         then Some (if next_byte AND 0x40 \<noteq> 0 then result OR push_bit shift (- 1) else result, n)
         else signed_parse bs result shift n)"

definition signed_leb128 :: "byte list \<Rightarrow> (64 word \<times> nat) option run" where
  "signed_leb128 bs = Some (signed_parse bs 0 0 0)"

section \<open>Encoding\<close>

text \<open>The encoding the DWARF standard defines.\<close>

fun uleb :: "nat \<Rightarrow> byte list" where
  "uleb v = (if v < 128 then [word_of_nat v] else word_of_nat (v mod 128 + 128) # uleb (v div 128))"

declare uleb.simps [simp del]

function sleb :: "int \<Rightarrow> byte list" where
  "sleb v = (if - 64 \<le> v \<and> v < 64 then [word_of_int (v mod 128)]
     else word_of_int (v mod 128 + 128) # sleb (v div 128))"
  by pat_completeness auto
termination
  by (relation "measure (\<lambda>v. nat (abs v))") auto

declare sleb.simps [simp del]

lemma and_masks:
  "(w :: 64 word) AND 0x7F = take_bit 7 w"
  "w AND 0x80 = 0 \<longleftrightarrow> \<not> bit w 7"
  "w AND 0x40 = 0 \<longleftrightarrow> \<not> bit w 6"
proof -
  have "(0x7F :: 64 word) = mask 7" by (simp add: mask_eq_exp_minus_1)
  then show "w AND 0x7F = take_bit 7 w" by (simp only: take_bit_eq_mask)
  have "(0x80 :: 64 word) = push_bit 7 1" "(0x40 :: 64 word) = push_bit 6 1" by simp_all
  then show "w AND 0x80 = 0 \<longleftrightarrow> \<not> bit w 7" "w AND 0x40 = 0 \<longleftrightarrow> \<not> bit w 6"
    by (metis and_exp_eq_0_iff_not_bit push_bit_of_1)+
qed

lemma nat_chunk:
  "bit (v mod 128 :: nat) k \<longleftrightarrow> k < 7 \<and> bit v k"
  "bit (v div 128 :: nat) k \<longleftrightarrow> bit v (k + 7)"
  using bit_take_bit_iff[of 7 v k] bit_drop_bit_eq[of 7 v]
  by (simp_all add: take_bit_eq_mod drop_bit_eq_div add.commute)

lemma byte_bits:
  assumes "m < 128"
  shows "bit (ucast (word_of_nat m :: byte) :: 64 word) k \<longleftrightarrow> bit m k"
    "bit (ucast (word_of_nat (m + 128) :: byte) :: 64 word) k \<longleftrightarrow> bit m k \<or> k = 7"
proof -
  have m: "bit m k \<Longrightarrow> k < 7" for k
    using assms nat_chunk(1)[of m k] by simp
  have "\<not> bit m n \<or> \<not> bit (2 ^ 7 :: nat) n" for n
    using m[of n] by (auto simp only: bit_exp_iff)
  then have "m + 2 ^ 7 = m OR 2 ^ 7" by (rule disjunctive_add)
  then have "bit (m + 2 ^ 7) k \<longleftrightarrow> bit m k \<or> bit (2 ^ 7 :: nat) k" by (simp only: bit_or_iff)
  then have "bit (m + 2 ^ 7) k \<longleftrightarrow> bit m k \<or> k = 7" by (auto simp only: bit_exp_iff possible_bit_nat)
  then have "bit (m + 128) k \<longleftrightarrow> bit m k \<or> k = 7" by simp
  then show "bit (ucast (word_of_nat m :: byte) :: 64 word) k \<longleftrightarrow> bit m k"
    "bit (ucast (word_of_nat (m + 128) :: byte) :: 64 word) k \<longleftrightarrow> bit m k \<or> k = 7"
    using m[of k] by (auto simp: bit_simps simp del: of_nat_add)
qed

lemma byte_low:
  assumes "m < 128"
  shows "take_bit 7 (ucast (word_of_nat m :: byte) :: 64 word) = word_of_nat m"
    "take_bit 7 (ucast (word_of_nat (m + 128) :: byte) :: 64 word) = word_of_nat m"
    "\<not> bit (ucast (word_of_nat m :: byte) :: 64 word) 7"
    "bit (ucast (word_of_nat (m + 128) :: byte) :: 64 word) 7"
proof -
  have m: "bit m k \<Longrightarrow> k < 7" for k
    using assms nat_chunk(1)[of m k] by simp
  show "take_bit 7 (ucast (word_of_nat m :: byte) :: 64 word) = word_of_nat m"
    "take_bit 7 (ucast (word_of_nat (m + 128) :: byte) :: 64 word) = word_of_nat m"
    using m by (auto intro!: bit_word_eqI simp: bit_take_bit_iff byte_bits[OF assms] simp del: of_nat_add)
       (auto simp: bit_simps dest!: m)
  show "\<not> bit (ucast (word_of_nat m :: byte) :: 64 word) 7"
    "bit (ucast (word_of_nat (m + 128) :: byte) :: 64 word) 7"
    using m[of 7] by (simp_all only: byte_bits[OF assms]) auto
qed

section \<open>Round trips\<close>

lemma chunk_or:
  "push_bit s (word_of_nat (v mod 128)) OR push_bit (s + 7) (word_of_nat (v div 128)) = push_bit s (word_of_nat v :: 64 word)"
proof (rule bit_word_eqI)
  fix k
  show "bit (push_bit s (word_of_nat (v mod 128)) OR push_bit (s + 7) (word_of_nat (v div 128)) :: 64 word) k
      = bit (push_bit s (word_of_nat v) :: 64 word) k"
  proof (cases "s + 7 \<le> k")
    case True
    then have "k - (s + 7) + 7 = k - s" "\<not> k - s < 7" by linarith+
    then show ?thesis using True by (simp add: bit_simps nat_chunk) auto
  qed (auto simp: bit_simps nat_chunk)
qed

lemma unsigned_parse_uleb:
  "v < 2 ^ (64 - s) \<Longrightarrow> s < 64 \<Longrightarrow>
   unsigned_parse (uleb v @ rest) r s n = Some (r OR push_bit s (word_of_nat v), n + length (uleb v))"
proof (induction v arbitrary: r s n rule: uleb.induct)
  case (1 v)
  show ?case
  proof (cases "v < 128")
    case True
    then show ?thesis
      using byte_low[of v] by (simp add: uleb.simps[of v] and_masks Let_def)
  next
    case False
    have "\<not> 64 - s \<le> 7"
    proof
      assume "64 - s \<le> 7"
      then have "(2 :: nat) ^ (64 - s) \<le> 2 ^ 7" by (rule power_increasing) simp
      then show False using 1(2) False by simp
    qed
    then have s: "s + 7 < 64" by simp
    have "64 - s = 7 + (64 - (s + 7))" using s by simp
    then have "(2 :: nat) ^ (64 - s) = 2 ^ 7 * 2 ^ (64 - (s + 7))" by (metis power_add)
    then have "v div 128 < 2 ^ (64 - (s + 7))"
      using 1(2) by (simp add: less_mult_imp_div_less mult.commute)
    note ih = 1(1)[OF False this s, of "r OR push_bit s (word_of_nat (v mod 128))" "n + 1"]
    have "v mod 128 < 128" by simp
    note b = byte_low[OF this]
    have "unsigned_parse (uleb v @ rest) r s n =
        unsigned_parse (uleb (v div 128) @ rest) (r OR push_bit s (word_of_nat (v mod 128))) (s + 7) (n + 1)"
      using False s b(2,4) by (simp add: uleb.simps[of v] and_masks Let_def)
    also have "\<dots> = Some (r OR push_bit s (word_of_nat v), n + length (uleb v))"
      using ih chunk_or[of s v] False by (simp add: uleb.simps[of v] or.assoc)
    finally show ?thesis .
  qed
qed

lemma unsigned_leb128_uleb:
  "v < 2 ^ 64 \<Longrightarrow> unsigned_leb128 (uleb v @ rest) = Some (Some (word_of_nat v, length (uleb v)))"
  using unsigned_parse_uleb[of v 0 rest 0 0] by (simp add: unsigned_leb128_def)

lemma signed_parse_length: "signed_parse bs r s n = Some (v, m) \<Longrightarrow> 7 * (m - n) + s < 64 \<and> n < m"
proof (induction bs arbitrary: r s n)
  case (Cons b bs)
  let ?r = "r OR push_bit s (ucast b AND 0x7F)"
  show ?case
  proof (cases "s + 7 < 64 \<and> ucast b AND (0x80 :: 64 word) \<noteq> 0")
    case True
    then have "signed_parse bs ?r (s + 7) (n + 1) = Some (v, m)"
      using Cons.prems by (simp add: Let_def)
    from Cons.IH[OF this] show ?thesis by auto
  next
    case False
    then show ?thesis using Cons.prems by (auto simp: Let_def split: if_splits)
  qed
qed simp

lemma int_chunk:
  "bit (v mod 128 :: int) k \<longleftrightarrow> k < 7 \<and> bit v k"
  "bit (v div 128 :: int) k \<longleftrightarrow> bit v (k + 7)"
  using bit_take_bit_iff[of 7 v k] bit_drop_bit_eq[of 7 v]
  by (simp_all add: take_bit_eq_mod drop_bit_eq_div add.commute)

lemma small_int_bit:
  assumes "- 64 \<le> v" "v < (64 :: int)" "6 \<le> k" shows "bit v k \<longleftrightarrow> v < 0"
proof -
  obtain j where k: "k = 6 + j" using assms(3) le_Suc_ex by blast
  have "v < 0 \<Longrightarrow> v div 64 = - 1" "\<not> v < 0 \<Longrightarrow> v div 64 = 0" using assms(1,2) by linarith+
  then have "drop_bit 6 v = (if v < 0 then - 1 else 0)" by (simp add: drop_bit_eq_div)
  then have "bit (drop_bit 6 v) j \<longleftrightarrow> v < 0" by simp
  then show ?thesis using k by (simp add: bit_drop_bit_eq)
qed

lemma sbyte:
  fixes v :: int
  defines "x \<equiv> ucast (word_of_int (v mod 128) :: byte) :: 64 word"
    and "y \<equiv> ucast (word_of_int (v mod 128 + 128) :: byte) :: 64 word"
  shows "take_bit 7 x = take_bit 7 (word_of_int v)" "take_bit 7 y = take_bit 7 (word_of_int v)"
    "\<not> bit x 7" "bit y 7" "bit x 6 \<longleftrightarrow> bit v 6"
proof -
  define m where "m = nat (v mod 128)"
  have m: "m < 128" "v mod 128 = int m" by (auto simp: m_def)
  have mb: "bit m k \<longleftrightarrow> k < 7 \<and> bit v k" for k
    using int_chunk(1)[of v k] unfolding m(2) by (simp add: bit_of_nat_iff)
  have x: "x = ucast (word_of_nat m :: byte)" "y = ucast (word_of_nat (m + 128) :: byte)"
    by (simp_all add: x_def y_def m(2))
  have t: "take_bit 7 (word_of_int v :: 64 word) = word_of_nat m"
    by (rule bit_word_eqI) (auto simp: bit_simps mb)
  show "take_bit 7 x = take_bit 7 (word_of_int v)" "take_bit 7 y = take_bit 7 (word_of_int v)"
    "\<not> bit x 7" "bit y 7"
    unfolding x t using byte_low[OF m(1)] by simp_all
  show "bit x 6 \<longleftrightarrow> bit v 6" unfolding x using byte_bits(1)[OF m(1), of 6] mb[of 6] by simp
qed

lemma signed_last:
  fixes v :: int
  assumes "- 64 \<le> v" "v < 64"
  shows "push_bit s (take_bit 7 (word_of_int v)) OR (if v < 0 then push_bit (s + 7) (- 1) else 0)
    = push_bit s (word_of_int v :: 64 word)" (is "?l = ?r")
proof (rule bit_word_eqI)
  fix k
  show "bit ?l k = bit ?r k"
  proof (cases "s + 7 \<le> k")
    case True
    then have "bit v (k - s) \<longleftrightarrow> v < 0" using assms by (intro small_int_bit) auto
    then show ?thesis using True by (auto simp: bit_simps)
  qed (auto simp: bit_simps)
qed

lemma signed_chunk:
  "push_bit s (take_bit 7 (word_of_int v)) OR push_bit (s + 7) (word_of_int (v div 128)) = push_bit s (word_of_int v :: 64 word)"
  (is "?l = ?r")
proof (rule bit_word_eqI)
  fix k
  show "bit ?l k = bit ?r k"
  proof (cases "s + 7 \<le> k")
    case True
    then have "k - (s + 7) + 7 = k - s" "\<not> k - s < 7" by linarith+
    then show ?thesis using True by (simp add: bit_simps int_chunk) auto
  qed (auto simp: bit_simps int_chunk)
qed

lemma signed_parse_sleb:
  "- (2 ^ (62 - s)) \<le> v \<Longrightarrow> v < 2 ^ (62 - s) \<Longrightarrow> s < 57 \<Longrightarrow> 7 dvd s \<Longrightarrow>
   signed_parse (sleb v @ rest) r s n = Some (r OR push_bit s (word_of_int v), n + length (sleb v))"
proof (induction v arbitrary: r s n rule: sleb.induct)
  case (1 v)
  show ?case
  proof (cases "- 64 \<le> v \<and> v < 64")
    case True
    define x :: byte where "x = word_of_int (v mod 128)"
    have sl: "sleb v = [x]" using True by (simp add: sleb.simps[of v] x_def)
    note sb = sbyte[of v, folded x_def]
    have "bit v 6 \<longleftrightarrow> v < 0" using True by (intro small_int_bit) auto
    then have "signed_parse (sleb v @ rest) r s n = Some (r OR (push_bit s (take_bit 7 (word_of_int v))
        OR (if v < 0 then push_bit (s + 7) (- 1) else 0)), n + 1)"
      using 1(4) sb by (simp add: sl and_masks Let_def or.assoc)
    then show ?thesis using signed_last[of v s] True by (simp add: sl)
  next
    case False
    have "\<not> 62 - s \<le> 6"
    proof
      assume "62 - s \<le> 6"
      then have "(2 :: int) ^ (62 - s) \<le> 2 ^ 6" by (rule power_increasing) simp
      then show False using 1(2,3) False by simp
    qed
    then have "s < 56" by simp
    then have s: "s + 7 < 57" using 1(5) by presburger
    have "62 - s = 7 + (62 - (s + 7))" using s by simp
    then have e: "(2 :: int) ^ (62 - s) = 128 * 2 ^ (62 - (s + 7))"
      by (simp only: power_add) simp
    have "- (2 ^ (62 - (s + 7))) \<le> v div 128" "v div 128 < 2 ^ (62 - (s + 7))"
      using 1(2,3) unfolding e by linarith+
    note ih = 1(1)[OF False this s, of "r OR push_bit s (take_bit 7 (word_of_int v))" "n + 1"]
    define x :: byte where "x = word_of_int (v mod 128 + 128)"
    have sl: "sleb v = x # sleb (v div 128)" using False by (subst sleb.simps) (auto simp: x_def)
    note sb = sbyte[of v, folded x_def]
    have "signed_parse (sleb v @ rest) r s n =
        signed_parse (sleb (v div 128) @ rest) (r OR push_bit s (take_bit 7 (word_of_int v))) (s + 7) (n + 1)"
      using s sb by (simp add: sl and_masks Let_def)
    also have "\<dots> = Some (r OR push_bit s (word_of_int v), n + length (sleb v))"
      using ih 1(5) signed_chunk[of s v] by (simp add: sl or.assoc)
    finally show ?thesis .
  qed
qed


lemma signed_leb128_sleb:
  "- (2 ^ 62) \<le> v \<Longrightarrow> v < 2 ^ 62 \<Longrightarrow> signed_leb128 (sleb v @ rest) = Some (Some (word_of_int v, length (sleb v)))"
  using signed_parse_sleb[of 0 v rest 0 0] by (simp add: signed_leb128_def)

lemma signed_leb128_size: "signed_leb128 bs = Some (Some (w, n)) \<Longrightarrow> n \<le> 9"
  using signed_parse_length[of bs 0 0 0 w n] by (simp add: signed_leb128_def)

text \<open>
  C25: parsing undoes encoding: every unsigned 64-bit number, and every signed number of at most 63 bits,
  is read back exactly, with the number of bytes its encoding has, whatever follows.  A signed number is
  never read from more than nine bytes, so the full signed 64-bit range is not accepted.
\<close>

theorem leb128_roundtrip:
  "(v < 2 ^ 64 \<longrightarrow> unsigned_leb128 (uleb v @ rest) = Some (Some (word_of_nat v, length (uleb v))))
   \<and> (- (2 ^ 62) \<le> i \<longrightarrow> i < 2 ^ 62 \<longrightarrow>
        signed_leb128 (sleb i @ rest) = Some (Some (word_of_int i, length (sleb i))))
   \<and> (signed_leb128 bs = Some (Some (w, n)) \<longrightarrow> n \<le> 9)"
  using signed_leb128_size[of bs w n] by (simp add: unsigned_leb128_uleb signed_leb128_sleb)

theorem leb128_roundtrip_witness:
  "unsigned_leb128 (uleb 624485 @ [7]) = Some (Some (624485, length (uleb 624485)))
   \<and> signed_leb128 (sleb (- 123456) @ [7]) = Some (Some (- 123456, length (sleb (- 123456))))"
  using leb128_roundtrip[of 624485 "[7]" "- 123456"] by simp

end
