(* ===== verification/EhFrame.thy ===== *)
theory EhFrame
  imports Leb128 BTreeMap
begin

unbundle bit_operations_syntax

text \<open>
  Stack unwinding tables: the \<^verbatim>\<open>.eh_frame\<close> parser of
  \<^verbatim>\<open>crates/kernel/src/debugging/eh_frame_parser.rs\<close> and the row evaluator of
  \<^verbatim>\<open>crates/kernel/src/debugging/unwinder.rs\<close>.
\<close>

datatype instruction = AdvanceLoc nat | CfaOffset nat nat | Restore nat | DefCfa nat nat
  | DefCfaRegister nat | DefCfaOffset nat | RemeberState | RestoreState | Nop

definition consume_uleb :: "consumable_buffer \<Rightarrow> nat parsed" where
  "consume_uleb b = pthen (consume_unsized unsigned_leb128 b) (\<lambda>v b. Some (Some (unat v), b))"

text \<open>\<^verbatim>\<open>u16::try_from(..).expect(..)\<close>.\<close>

definition expect_u16 :: "nat \<Rightarrow> nat run" where
  "expect_u16 v = do { check (v < 2 ^ 16); Some v }"

text \<open>The instruction byte decides what follows.\<close>

definition decode_instruction :: "byte \<Rightarrow> consumable_buffer \<Rightarrow> instruction parsed" where
  "decode_instruction instruction =
     (let high_bits = instruction AND 0xC0;
          low_bits = unat (instruction AND 0x3F)
      in if high_bits = 0x40 then (\<lambda>b. Some (Some (AdvanceLoc low_bits), b))
         else if high_bits = 0x80 then
           (\<lambda>b. pthen (consume_uleb b) (\<lambda>offset b. Some (Some (CfaOffset low_bits offset), b)))
         else if high_bits = 0xC0 then (\<lambda>b. Some (Some (Restore low_bits), b))
         else if instruction = 0x0c then
           (\<lambda>b. pthen (consume_uleb b) (\<lambda>r b. do { r \<leftarrow> expect_u16 r;
             pthen (consume_uleb b) (\<lambda>offset b. Some (Some (DefCfa r offset), b)) }))
         else if instruction = 0x0d then
           (\<lambda>b. pthen (consume_uleb b) (\<lambda>r b. do { r \<leftarrow> expect_u16 r; Some (Some (DefCfaRegister r), b) }))
         else if instruction = 0x0e then
           (\<lambda>b. pthen (consume_uleb b) (\<lambda>offset b. Some (Some (DefCfaOffset offset), b)))
         else if instruction = 0 then (\<lambda>b. Some (Some Nop, b))
         else if instruction = 0x02 then
           (\<lambda>b. pthen (consume_uint 1 b) (\<lambda>delta b. Some (Some (AdvanceLoc delta), b)))
         else if instruction = 0x03 then
           (\<lambda>b. pthen (consume_uint 2 b) (\<lambda>delta b. Some (Some (AdvanceLoc delta), b)))
         else if instruction = 0x04 then
           (\<lambda>b. pthen (consume_uint 4 b) (\<lambda>delta b. Some (Some (AdvanceLoc delta), b)))
         else if instruction = 0x0a then (\<lambda>b. Some (Some RemeberState, b))
         else if instruction = 0x0b then (\<lambda>b. Some (Some RestoreState, b))
         else (\<lambda>b. None))"

definition parse_instruction :: "consumable_buffer \<Rightarrow> instruction parsed" where
  "parse_instruction b =
     (if cb_empty b then Some (None, b)
      else pthen (consume_slice 1 b) (\<lambda>bs b. decode_instruction (hd bs) b))"

lemma pthen_cong [fundef_cong]:
  assumes "m = m'" "\<And>a s. m' = Some (Some a, s) \<Longrightarrow> f a s = g a s"
  shows "pthen m f = pthen m' g"
proof (cases m')
  case (Some x)
  obtain y t where "x = (y, t)" by fastforce
  then show ?thesis using Some assms by (cases y) simp_all
qed (use assms in simp)

lemma pthen_eq_Some [run_simps]:
  "pthen m f = Some (r, s) \<longleftrightarrow> m = Some (None, s) \<and> r = None \<or> (\<exists>a t. m = Some (Some a, t) \<and> f a t = Some (r, s))"
proof (cases m)
  case (Some x)
  obtain y t where "x = (y, t)" by fastforce
  then show ?thesis using Some by (cases y) (simp_all, metis)
qed simp

text \<open>A parsing step never moves backwards or past the end.\<close>

definition forward :: "(consumable_buffer \<Rightarrow> 'a parsed) \<Rightarrow> bool" where
  "forward p \<longleftrightarrow> (\<forall>b r b'. pos b \<le> length (buf b) \<longrightarrow> p b = Some (r, b') \<longrightarrow>
     buf b' = buf b \<and> pos b \<le> pos b' \<and> pos b' \<le> length (buf b))"

lemma forwardD: "forward p \<Longrightarrow> p b = Some (r, b') \<Longrightarrow> pos b \<le> length (buf b) \<Longrightarrow>
    buf b' = buf b \<and> pos b \<le> pos b' \<and> pos b' \<le> length (buf b)"
  unfolding forward_def by blast

lemma forward_slice [intro]: "forward (consume_slice n)"
  unfolding forward_def using consume_slice_bound by blast

lemma forward_uint [intro]: "forward (consume_uint n)"
  unfolding forward_def using consume_uint_bound by blast

lemma forward_unsized: "forward (consume_unsized p)"
  unfolding forward_def using consume_unsized_bound by blast

lemma forward_return [intro]: "forward (\<lambda>b. Some (r, b))"
  by (simp add: forward_def)

lemma forward_panic [intro]: "forward (\<lambda>b. None)"
  by (simp add: forward_def)

lemma forward_bind [intro]: "(\<And>a. forward (f a)) \<Longrightarrow> forward (\<lambda>b. Option.bind m (\<lambda>a. f a b))"
  by (cases m) (auto intro: forward_panic)

lemma forward_then [intro]:
  assumes "forward p" "\<And>a. forward (f a)" shows "forward (\<lambda>b. pthen (p b) f)"
  unfolding forward_def
proof (intro allI impI)
  fix b r b' assume b: "pos b \<le> length (buf b)" and run: "pthen (p b) f = Some (r, b')"
  then consider "p b = Some (None, b')" | a t where "p b = Some (Some a, t)" "f a t = Some (r, b')"
    by (auto simp: run_simps)
  then show "buf b' = buf b \<and> pos b \<le> pos b' \<and> pos b' \<le> length (buf b)"
  proof cases
    case 1
    then show ?thesis using forwardD[OF assms(1)] b by blast
  next
    case (2 a t)
    have t: "buf t = buf b" "pos b \<le> pos t" "pos t \<le> length (buf b)"
      using forwardD[OF assms(1) 2(1) b] by auto
    show ?thesis using forwardD[OF assms(2) 2(2)] t by auto
  qed
qed

lemma forward_uleb [intro]: "forward consume_uleb"
  unfolding consume_uleb_def by (intro forward_then forward_unsized forward_return)

lemma forward_decode: "forward (decode_instruction i)"
  unfolding decode_instruction_def Let_def
  by (auto intro!: forward_then forward_uleb forward_uint forward_return forward_bind forward_panic)

lemma consume_slice_Some:
  assumes "consume_slice n b = Some (Some xs, b')" "0 < n"
  shows "buf b' = buf b \<and> pos b' = pos b + n \<and> pos b' \<le> length (buf b)"
  using assms by (auto simp: consume_slice_def run_simps split: if_splits)

lemma consume_uint_Some:
  assumes "consume_uint n b = Some (Some v, b')" "0 < n"
  shows "buf b' = buf b \<and> pos b' = pos b + n \<and> pos b' \<le> length (buf b)"
  using assms consume_slice_Some[of n b] by (auto simp: consume_uint_def run_simps)

lemma parse_instruction_progress:
  assumes "parse_instruction b = Some (Some i, b')"
  shows "buf b' = buf b \<and> pos b < pos b' \<and> pos b' \<le> length (buf b)"
proof -
  obtain bs c where c: "consume_slice 1 b = Some (Some bs, c)" "decode_instruction (hd bs) c = Some (Some i, b')"
    using assms by (auto simp: parse_instruction_def run_simps split: if_splits)
  have s: "buf c = buf b" "pos c = pos b + 1" "pos c \<le> length (buf c)"
    using consume_slice_Some[OF c(1)] by auto
  show ?thesis using forwardD[OF forward_decode c(2) s(3)] s by auto
qed

function instruction_loop :: "consumable_buffer \<Rightarrow> (instruction list \<times> consumable_buffer) run" where
  "instruction_loop b = do {
     (r, b') \<leftarrow> parse_instruction b;
     case r of None \<Rightarrow> Some ([], b')
     | Some i \<Rightarrow> do { (is, c) \<leftarrow> instruction_loop b'; Some (i # is, c) } }"
  by pat_completeness auto
termination
  by (relation "measure (\<lambda>b. length (buf b) - pos b)") (auto dest!: parse_instruction_progress)

declare instruction_loop.simps [simp del]

definition parse_instructions :: "byte list \<Rightarrow> instruction list run" where
  "parse_instructions bs = do {
     (is, b) \<leftarrow> instruction_loop (cb_new bs);
     check (cb_empty b);
     Some is
   }"

section \<open>Entries\<close>

record parsed_cie =
  cie_version :: nat
  augmentation_string :: "byte list"
  address_size :: nat
  code_alignment_factor :: nat
  data_alignment_factor :: "64 word"
  cie_augmentation_data :: "byte list option"
  return_address_register :: nat
  initial_instructions :: "instruction list"

record parsed_fde =
  fde_cie :: parsed_cie
  pc_begin :: usize
  address_range :: nat
  fde_augmentation_data :: "byte list option"
  fde_instructions :: "instruction list"

definition fde_contains :: "parsed_fde \<Rightarrow> usize \<Rightarrow> bool" where
  "fde_contains f address \<longleftrightarrow> pc_begin f \<le> address \<and> address < (pc_begin f + address_range f) mod 2 ^ 64"

type_synonym cie_table = "(usize, parsed_cie) btree_map"

text \<open>Substring search of \<^verbatim>\<open>str::contains\<close>.\<close>

fun contains_sub :: "byte list \<Rightarrow> byte list \<Rightarrow> bool" where
  "contains_sub pat [] \<longleftrightarrow> pat = []"
| "contains_sub pat (x # xs) \<longleftrightarrow> take (length pat) (x # xs) = pat \<or> contains_sub pat xs"

definition parse_length_and_bitness :: "consumable_buffer \<Rightarrow> (nat \<times> bool) parsed" where
  "parse_length_and_bitness b = pthen (consume_uint 4 b) (\<lambda>len b.
     if len \<noteq> 0xffffffff then Some (Some (len, True), b)
     else pthen (consume_uint 8 b) (\<lambda>len b. Some (Some (len, False), b)))"

definition parse_pc_begin :: "usize \<Rightarrow> byte \<Rightarrow> consumable_buffer \<Rightarrow> usize parsed" where
  "parse_pc_begin base augmentation_byte b = do {
     check (augmentation_byte = (0x10 OR 0x0b));
     current_offset \<leftarrow> uadd base (pos b);
     pthen (consume_uint 4 b) (\<lambda>v b.
       let target = int current_offset + (if v < 2 ^ 31 then int v else int v - 2 ^ 32)
       in Some (if 0 \<le> target \<and> target < 2 ^ 64 then Some (nat target) else None, b))
   }"

text \<open>The tail of an entry: what is left of its length after the fields is instructions.\<close>

definition entry_instructions :: "nat \<Rightarrow> usize \<Rightarrow> consumable_buffer \<Rightarrow> instruction list parsed" where
  "entry_instructions len begin_position b = do {
     sz \<leftarrow> usub (pos b) begin_position;
     n \<leftarrow> usub len sz;
     pthen (consume_slice n b) (\<lambda>bs b. do { is \<leftarrow> parse_instructions bs; Some (Some is, b) })
   }"

definition parse_augmentation :: "byte list \<Rightarrow> consumable_buffer \<Rightarrow> byte list option parsed" where
  "parse_augmentation s b =
     (if 122 \<in> set s
      then pthen (consume_uleb b) (\<lambda>n b. pthen (consume_slice n b) (\<lambda>d b. Some (Some (Some d), b)))
      else Some (Some None, b))"

definition parse_cie :: "nat \<Rightarrow> usize \<Rightarrow> cie_table \<Rightarrow> consumable_buffer \<Rightarrow> cie_table parsed" where
  "parse_cie len offset_of_cie table b =
     (let begin_position = pos b in
      pthen (consume_uint 1 b) (\<lambda>version b. do {
        check (version = 1 \<or> version = 3);
        pthen (consume_str b) (\<lambda>aug b. do {
          check (take 1 aug = [122] \<and> 82 \<in> set aug);
          pthen (if contains_sub [101, 104] aug then pthen (consume_uint 8 b) (\<lambda>v b. Some (Some (Some v), b))
                 else Some (Some None, b)) (\<lambda>eh_data b.
          pthen (consume_uleb b) (\<lambda>caf b.
          pthen (consume_unsized signed_leb128 b) (\<lambda>daf b.
          pthen (consume_uleb b) (\<lambda>rar b.
          pthen (parse_augmentation aug b) (\<lambda>adata b.
          pthen (entry_instructions len begin_position b) (\<lambda>is b. do {
            check (bt_get table offset_of_cie = None);
            Some (Some (bt_insert offset_of_cie
              \<lparr>cie_version = version, augmentation_string = aug, address_size = 8,
               code_alignment_factor = caf, data_alignment_factor = daf, cie_augmentation_data = adata,
               return_address_register = rar, initial_instructions = is\<rparr> table), b)
          })))))) }) }))"

definition parse_fde :: "usize \<Rightarrow> cie_table \<Rightarrow> nat \<Rightarrow> nat \<Rightarrow> consumable_buffer \<Rightarrow> parsed_fde parsed" where
  "parse_fde base table cie_offset len b = do {
     let fde_position = pos b;
     x \<leftarrow> usub fde_position cie_offset;
     target_cie_location \<leftarrow> usub x 4;
     cie \<leftarrow> bt_get table target_cie_location;
     pthen (if 82 \<in> set (augmentation_string cie)
            then (case cie_augmentation_data cie of None \<Rightarrow> Some (None, b)
              | Some d \<Rightarrow> if d = [] then Some (None, b) else parse_pc_begin base (last d) b)
            else consume_uint 4 b) (\<lambda>pc b.
     pthen (consume_uint 4 b) (\<lambda>rng b.
     pthen (parse_augmentation (augmentation_string cie) b) (\<lambda>adata b.
     pthen (entry_instructions len fde_position b) (\<lambda>is b.
       Some (Some \<lparr>fde_cie = cie, pc_begin = pc, address_range = rng,
         fde_augmentation_data = adata, fde_instructions = is\<rparr>, b)))))
   }"

lemma forward_check [intro]: "forward p \<Longrightarrow> forward (\<lambda>b. Option.bind (check c) (\<lambda>_. p b))"
  by (cases c) auto

lemma forward_if [intro]: "forward p \<Longrightarrow> forward q \<Longrightarrow> forward (\<lambda>b. if c then p b else q b)"
  by (cases c) auto

lemma forward_here [intro]:
  "(\<And>c. forward (f c)) \<Longrightarrow> forward (\<lambda>b. f b b)"
  unfolding forward_def by blast

lemma forward_str: "forward consume_str"
  unfolding forward_def
proof (intro allI impI)
  fix b r b' assume "pos b \<le> length (buf b)" "consume_str b = Some (r, b')"
  then show "buf b' = buf b \<and> pos b \<le> pos b' \<and> pos b' \<le> length (buf b)"
    by (simp add: consume_str_def Let_def uadd_def split: if_splits) auto
qed

lemma forward_entry_instructions: "forward (entry_instructions n p)"
  unfolding entry_instructions_def
  by (rule forward_here, intro forward_bind forward_then forward_slice forward_return)

lemma forward_augmentation: "forward (parse_augmentation s)"
  unfolding parse_augmentation_def
  by (intro forward_if forward_then forward_uleb forward_slice forward_return)

lemma forward_length: "forward parse_length_and_bitness"
  unfolding parse_length_and_bitness_def
  by (intro forward_then forward_uint forward_if forward_return)

lemma forward_cie: "forward (parse_cie n p t)"
proof -
  have "forward (\<lambda>b. parse_cie n p t b)"
    unfolding parse_cie_def Let_def
    by (rule forward_here, intro forward_then forward_uint forward_check forward_str forward_if forward_return
      forward_uleb forward_unsized forward_augmentation forward_entry_instructions)
  then show ?thesis by simp
qed

lemma parse_length_Some:
  assumes "parse_length_and_bitness b = Some (Some r, b')"
  shows "buf b' = buf b \<and> pos b < pos b' \<and> pos b' \<le> length (buf b)"
proof -
  obtain len c where c: "consume_uint 4 b = Some (Some len, c)"
      and k: "(if len \<noteq> 0xffffffff then Some (Some (len, True), c)
        else pthen (consume_uint 8 c) (\<lambda>len b. Some (Some (len, False), b))) = Some (Some r, b')"
    using assms unfolding parse_length_and_bitness_def pthen_eq_Some by auto
  have s: "buf c = buf b" "pos c = pos b + 4" "pos c \<le> length (buf b)"
    using consume_uint_Some[OF c] by auto
  show ?thesis
  proof (cases "len = 0xffffffff")
    case True
    then obtain v where "consume_uint 8 c = Some (Some v, b')" using k by (auto simp: pthen_eq_Some)
    from consume_uint_Some[OF this] s show ?thesis by simp
  qed (use k s in simp)
qed

text \<open>\<^verbatim>\<open>EhFrameIterator::next\<close>: the next FDE, after reading the CIEs on the way.\<close>

function eh_next :: "usize \<Rightarrow> cie_table \<Rightarrow> consumable_buffer
    \<Rightarrow> (parsed_fde option \<times> cie_table \<times> consumable_buffer) run" where
  "eh_next base table b = do {
     (l, b1) \<leftarrow> parse_length_and_bitness b;
     case l of None \<Rightarrow> Some (None, table, b1)
     | Some (len, bits32) \<Rightarrow> do {
         check bits32;
         (c, b2) \<leftarrow> consume_uint 4 b1;
         case c of None \<Rightarrow> Some (None, table, b2)
         | Some cie_offset_or_none \<Rightarrow>
             if len = 0 then Some (None, table, b2)
             else do {
               n \<leftarrow> usub len 4;
               if cie_offset_or_none = 0 then do {
                 (t, b3) \<leftarrow> parse_cie n (pos b) table b2;
                 case t of None \<Rightarrow> Some (None, table, b3) | Some table' \<Rightarrow> eh_next base table' b3
               } else do {
                 (r, b3) \<leftarrow> parse_fde base table cie_offset_or_none n b2;
                 Some (r, table, b3)
               }
             }
       }
   }"
  by pat_completeness auto
termination
proof (relation "measure (\<lambda>(_, _, b). length (buf b) - pos b)", goal_cases)
  case (2 base table b x l b1 lb len bits32 u y c b2 cie n z t b3 table')
  have p1: "buf b1 = buf b" "pos b < pos b1" "pos b1 \<le> length (buf b)"
    using 2 parse_length_Some[of b "(len, bits32)" b1] by auto
  have p2: "buf b2 = buf b1" "pos b2 = pos b1 + 4" "pos b2 \<le> length (buf b1)"
    using 2 consume_uint_Some[of 4 b1 cie b2] by auto
  have "buf b3 = buf b2" "pos b2 \<le> pos b3" "pos b3 \<le> length (buf b2)"
    using 2 forwardD[OF forward_cie, of n "pos b" table b2 _ b3] p2 by auto
  then show ?case using p1 p2 by simp
qed simp

declare eh_next.simps [simp del]

section \<open>The unwinder\<close>

datatype register_rule = NoRule | OffsetRule "64 word"

record row =
  start_address :: usize
  end_address :: usize
  cfa_register :: nat
  cfa_offset :: nat
  register_rules :: "register_rule list"

definition row_new :: "usize \<Rightarrow> row" where
  "row_new address = \<lparr>start_address = address, end_address = 0, cfa_register = 0, cfa_offset = 0,
     register_rules = replicate 32 NoRule\<rparr>"

record unwind_state =
  rows :: "row list"
  row_stack :: "row list"
  current_address :: usize
  current_row :: row

definition update_last_row :: "row \<Rightarrow> row list \<Rightarrow> row list run" where
  "update_last_row r rs = (if rs = [] then None else Some (butlast rs @ [r]))"

text \<open>\<^verbatim>\<open>i64::try_from(..).expect(..)\<close>.\<close>

definition expect_i64 :: "nat \<Rightarrow> nat run" where
  "expect_i64 v = do { check (v < 2 ^ 63); Some v }"

definition evaluate_instruction :: "parsed_fde \<Rightarrow> instruction \<Rightarrow> unwind_state \<Rightarrow> unwind_state run" where
  "evaluate_instruction fde i u = (case i of
     AdvanceLoc delta \<Rightarrow> do {
       a \<leftarrow> uadd (current_address u) delta;
       rs \<leftarrow> update_last_row ((current_row u)\<lparr>end_address := a\<rparr>) (rows u);
       let r = (current_row u)\<lparr>start_address := a, end_address := 0\<rparr>;
       check (length rs < 128);
       Some (u\<lparr>current_address := a, current_row := r, rows := rs @ [r]\<rparr>)
     }
   | CfaOffset register offset \<Rightarrow> do {
       v \<leftarrow> expect_i64 offset;
       rules \<leftarrow> index_set (register_rules (current_row u)) register
         (OffsetRule (word_of_nat v * data_alignment_factor (fde_cie fde)));
       Some (u\<lparr>current_row := (current_row u)\<lparr>register_rules := rules\<rparr>\<rparr>)
     }
   | Restore register \<Rightarrow> do {
       r0 \<leftarrow> index (rows u) 0;
       rule \<leftarrow> index (register_rules r0) register;
       rules \<leftarrow> index_set (register_rules (current_row u)) register rule;
       Some (u\<lparr>current_row := (current_row u)\<lparr>register_rules := rules\<rparr>\<rparr>)
     }
   | DefCfa register offset \<Rightarrow> do {
       v \<leftarrow> expect_i64 offset;
       Some (u\<lparr>current_row := (current_row u)\<lparr>cfa_register := register, cfa_offset := v\<rparr>\<rparr>)
     }
   | DefCfaRegister register \<Rightarrow> Some (u\<lparr>current_row := (current_row u)\<lparr>cfa_register := register\<rparr>\<rparr>)
   | DefCfaOffset offset \<Rightarrow> do {
       v \<leftarrow> expect_i64 offset;
       Some (u\<lparr>current_row := (current_row u)\<lparr>cfa_offset := v\<rparr>\<rparr>)
     }
   | RemeberState \<Rightarrow> do {
       check (length (row_stack u) < 16);
       Some (u\<lparr>row_stack := row_stack u @ [current_row u]\<rparr>)
     }
   | RestoreState \<Rightarrow>
       (if row_stack u = [] then None
        else Some (u\<lparr>row_stack := butlast (row_stack u), current_row := last (row_stack u)\<rparr>))
   | Nop \<Rightarrow> Some u)"

definition evaluate_instructions ::
    "parsed_fde \<Rightarrow> instruction list \<Rightarrow> row list \<times> row list \<Rightarrow> (row list \<times> row list) run" where
  "evaluate_instructions fde is s = (if fst s = [] then None else do {
     u \<leftarrow> foldM (evaluate_instruction fde) is
       \<lparr>rows = fst s, row_stack = snd s, current_address = pc_begin fde, current_row = last (fst s)\<rparr>;
     rs \<leftarrow> update_last_row (current_row u) (rows u);
     Some (rs, row_stack u)
   })"

definition unwinder_new :: "parsed_fde \<Rightarrow> row list run" where
  "unwinder_new fde = do {
     s \<leftarrow> evaluate_instructions fde (initial_instructions (fde_cie fde)) ([row_new (pc_begin fde)], []);
     s \<leftarrow> evaluate_instructions fde (fde_instructions fde) s;
     check (fst s \<noteq> []);
     e \<leftarrow> uadd (pc_begin fde) (address_range fde);
     update_last_row ((last (fst s))\<lparr>end_address := e\<rparr>) (fst s)
   }"

definition find_row_for_address :: "row list \<Rightarrow> usize \<Rightarrow> row run" where
  "find_row_for_address rs address =
     List.find (\<lambda>row. start_address row \<le> address \<and> address \<le> end_address row) rs"

section \<open>Instructions are read back\<close>

primrec encode_instruction :: "instruction \<Rightarrow> byte list" where
  "encode_instruction (AdvanceLoc d) =
     (if d < 64 then [word_of_nat (64 + d)] else if d < 256 then 2 # to_le 1 d
      else if d < 65536 then 3 # to_le 2 d else 4 # to_le 4 d)"
| "encode_instruction (CfaOffset r v) = word_of_nat (128 + r) # uleb v"
| "encode_instruction (Restore r) = [word_of_nat (192 + r)]"
| "encode_instruction (DefCfa r v) = 0x0c # uleb r @ uleb v"
| "encode_instruction (DefCfaRegister r) = 0x0d # uleb r"
| "encode_instruction (DefCfaOffset v) = 0x0e # uleb v"
| "encode_instruction RemeberState = [0x0a]"
| "encode_instruction RestoreState = [0x0b]"
| "encode_instruction Nop = [0]"

primrec encodable :: "instruction \<Rightarrow> bool" where
  "encodable (AdvanceLoc d) \<longleftrightarrow> d < 2 ^ 32"
| "encodable (CfaOffset r v) \<longleftrightarrow> r < 64 \<and> v < 2 ^ 64"
| "encodable (Restore r) \<longleftrightarrow> r < 64"
| "encodable (DefCfa r v) \<longleftrightarrow> r < 2 ^ 16 \<and> v < 2 ^ 64"
| "encodable (DefCfaRegister r) \<longleftrightarrow> r < 2 ^ 16"
| "encodable (DefCfaOffset v) \<longleftrightarrow> v < 2 ^ 64"
| "encodable RemeberState \<longleftrightarrow> True"
| "encodable RestoreState \<longleftrightarrow> True"
| "encodable Nop \<longleftrightarrow> True"

lemma high_low_bits:
  assumes "d < 64" "q < 4"
  shows "(word_of_nat (64 * q + d) :: byte) AND 0xC0 = push_bit 6 (word_of_nat q)"
    "unat ((word_of_nat (64 * q + d) :: byte) AND 0x3F) = d"
proof -
  let ?w = "word_of_nat (64 * q + d) :: byte"
  have u: "unat ?w = 64 * q + d" using assms by (simp add: unsigned_of_nat take_bit_nat_eq_self del: of_nat_add)
  have m: "(0x3F :: byte) = mask 6" "(0xC0 :: byte) = NOT (mask 6)" by (simp_all add: mask_eq_exp_minus_1)
  have "unat (?w AND 0x3F) = take_bit 6 (unat ?w)" unfolding m(1) by (simp only: take_bit_eq_mask[symmetric] unsigned_take_bit_eq)
  then show "unat (?w AND 0x3F) = d" using u assms(1) by (simp add: take_bit_eq_mod)
  have "unat (drop_bit 6 ?w) = drop_bit 6 (take_bit 8 (unat ?w))"
    by (simp only: unsigned_drop_bit_eq) simp
  then have "unat (drop_bit 6 ?w) = q"
    unfolding u using assms by (simp add: drop_bit_eq_div take_bit_eq_mod)
  moreover have "unat (word_of_nat q :: byte) = q" using assms(2) by simp
  ultimately have "drop_bit 6 ?w = word_of_nat q" by (simp only: word_unat_eq_iff)
  moreover have "?w AND 0xC0 = push_bit 6 (drop_bit 6 ?w)"
    unfolding m(2) by (rule bit_word_eqI) (auto simp: bit_simps)
  ultimately show "?w AND 0xC0 = push_bit 6 (word_of_nat q)" by simp
qed

lemma consume_uleb_at:
  assumes "length (pre @ uleb v @ rest) < 2 ^ 64" "v < 2 ^ 64"
  shows "consume_uleb (at pre (uleb v @ rest)) = Some (Some v, at (pre @ uleb v) rest)"
proof -
  have "unat (word_of_nat v :: 64 word) = v" using assms(2) by (simp add: unsigned_of_nat take_bit_nat_eq_self)
  then show ?thesis
    using consume_unsized_at[of pre "uleb v" rest unsigned_leb128 "word_of_nat v"] assms unsigned_leb128_uleb[of v rest]
    by (simp add: consume_uleb_def)
qed

lemma consume_le_at:
  assumes "length (pre @ to_le n d @ rest) < 2 ^ 64" "d < 256 ^ n"
  shows "consume_uint n (at pre (to_le n d @ rest)) = Some (Some d, at (pre @ to_le n d) rest)"
  using consume_uint_at[OF assms(1)] le_bytes_to_le[OF assms(2)] by simp

lemma decode_at:
  assumes "length (pre @ encode_instruction i @ rest) < 2 ^ 64" "encodable i" "encode_instruction i = b # bs"
  shows "decode_instruction b (at (pre @ [b]) (bs @ rest)) = Some (Some i, at (pre @ encode_instruction i) rest)"
proof (cases i)
  case (AdvanceLoc d)
  consider "d < 64" | n c where "encode_instruction i = c # to_le n d" "(n, c) \<in> {(1, 2), (2, 3), (4, 4)}" "d < 256 ^ n"
    using AdvanceLoc assms(2) by (cases "d < 64"; cases "d < 256"; cases "d < 65536") (auto simp del: to_le.simps)
  then show ?thesis
  proof cases
    case 1
    then show ?thesis using AdvanceLoc assms(3) high_low_bits[of d 1] by (auto simp: decode_instruction_def)
  next
    case (2 n c)
    then show ?thesis
      using assms AdvanceLoc consume_le_at[of "pre @ [b]" n d rest] by (auto simp: decode_instruction_def)
  qed
next
  case (CfaOffset r v)
  then show ?thesis
    using assms high_low_bits[of r 2] consume_uleb_at[of "pre @ [b]" v rest]
    by (auto simp: decode_instruction_def)
next
  case (Restore r)
  then show ?thesis using assms high_low_bits[of r 3] by (auto simp: decode_instruction_def)
next
  case (DefCfa r v)
  then show ?thesis
    using assms consume_uleb_at[of "pre @ [b]" r "uleb v @ rest"] consume_uleb_at[of "pre @ b # uleb r" v rest]
    by (auto simp: decode_instruction_def expect_u16_def)
next
  case (DefCfaRegister r)
  then show ?thesis
    using assms consume_uleb_at[of "pre @ [b]" r rest] by (auto simp: decode_instruction_def expect_u16_def)
next
  case (DefCfaOffset v)
  then show ?thesis
    using assms consume_uleb_at[of "pre @ [b]" v rest] by (auto simp: decode_instruction_def)
qed (use assms in \<open>auto simp: decode_instruction_def\<close>)

lemma encode_nonempty: "\<exists>b bs. encode_instruction i = b # bs"
  by (cases i) auto

lemma parse_instruction_at:
  assumes "length (pre @ encode_instruction i @ rest) < 2 ^ 64" "encodable i"
  shows "parse_instruction (at pre (encode_instruction i @ rest)) = Some (Some i, at (pre @ encode_instruction i) rest)"
proof -
  obtain b bs where e: "encode_instruction i = b # bs" using encode_nonempty by blast
  then show ?thesis
    using assms consume_slice_at[of pre "[b]" "bs @ rest" 1] decode_at[OF assms e]
    by (auto simp: parse_instruction_def cb_empty_def)
qed

lemma instruction_loop_at:
  assumes "length (pre @ concat (map encode_instruction is)) < 2 ^ 64" "list_all encodable is"
  shows "instruction_loop (at pre (concat (map encode_instruction is))) = Some (is, at (pre @ concat (map encode_instruction is)) [])"
  using assms
proof (induction "is" arbitrary: pre)
  case Nil
  then show ?case by (simp add: instruction_loop.simps[of "at pre []"] parse_instruction_def cb_empty_def)
next
  case (Cons i xs)
  have "parse_instruction (at pre (encode_instruction i @ concat (map encode_instruction xs)))
      = Some (Some i, at (pre @ encode_instruction i) (concat (map encode_instruction xs)))"
    using Cons.prems by (intro parse_instruction_at) auto
  moreover have "instruction_loop (at (pre @ encode_instruction i) (concat (map encode_instruction xs)))
      = Some (xs, at ((pre @ encode_instruction i) @ concat (map encode_instruction xs)) [])"
    using Cons.prems by (intro Cons.IH) auto
  ultimately show ?case by (subst instruction_loop.simps) simp
qed

text \<open>
  C26: the call-frame instruction parser reads back every encoded instruction sequence, in all the forms
  of the advance instruction, and its final assert holds.
\<close>

theorem cfa_instructions_roundtrip:
  assumes "length (concat (map encode_instruction is)) < 2 ^ 64" "list_all encodable is"
  shows "parse_instructions (concat (map encode_instruction is)) = Some is"
  using instruction_loop_at[of "[]" "is"] assms by (simp add: parse_instructions_def cb_new_at cb_empty_def)

theorem cfa_instructions_roundtrip_witness:
  "parse_instructions (concat (map encode_instruction [DefCfa 2 0, AdvanceLoc 300, CfaOffset 8 5, Nop]))
    = Some [DefCfa 2 0, AdvanceLoc 300, CfaOffset 8 5, Nop]"
  using cfa_instructions_roundtrip[of "[DefCfa 2 0, AdvanceLoc 300, CfaOffset 8 5, Nop]"]
  by (simp add: uleb.simps[of 0] uleb.simps[of 5] uleb.simps[of 2])

section \<open>Rows tile the range of a function\<close>

definition tiled :: "row list \<Rightarrow> bool" where
  "tiled rs \<longleftrightarrow> (\<forall>k. Suc k < length rs \<longrightarrow> end_address (rs ! k) = start_address (rs ! Suc k))"

definition straight :: "instruction \<Rightarrow> bool" where
  "straight i \<longleftrightarrow> i \<noteq> RestoreState"

definition unwind_inv :: "usize \<Rightarrow> unwind_state \<Rightarrow> bool" where
  "unwind_inv pc u \<longleftrightarrow> rows u \<noteq> [] \<and> tiled (rows u) \<and> start_address (hd (rows u)) = pc
     \<and> start_address (last (rows u)) = current_address u \<and> start_address (current_row u) = current_address u"

lemma tiled_update:
  assumes "rs \<noteq> []" "tiled rs" "start_address r = start_address (last rs)"
  shows "tiled (butlast rs @ [r])" "start_address (hd (butlast rs @ [r])) = start_address (hd rs)"
proof -
  obtain xs x where rs: "rs = xs @ [x]" using assms(1) by (metis append_butlast_last_id)
  show "tiled (butlast rs @ [r])"
    using assms(2,3) unfolding tiled_def rs by (auto simp: nth_append less_Suc_eq split: if_splits)
  show "start_address (hd (butlast rs @ [r])) = start_address (hd rs)"
    using assms(3) unfolding rs by (cases xs) auto
qed

lemma tiled_snoc:
  assumes "tiled (xs @ [x])" "end_address x = start_address y" shows "tiled (xs @ [x, y])"
  using assms unfolding tiled_def by (auto simp: nth_append nth_Cons' less_Suc_eq split: if_splits)

lemma unwind_advance:
  assumes "unwind_inv pc u" "evaluate_instruction fde (AdvanceLoc d) u = Some u'"
  shows "unwind_inv pc u' \<and> current_address u' = current_address u + d"
proof -
  define a where "a = current_address u + d"
  define r where "r = (current_row u)\<lparr>end_address := a\<rparr>"
  define r' where "r' = (current_row u)\<lparr>start_address := a, end_address := 0\<rparr>"
  have u': "rows u' = butlast (rows u) @ [r, r']" "current_row u' = r'" "current_address u' = a"
    using assms by (auto simp: evaluate_instruction_def run_simps update_last_row_def a_def r_def r'_def Let_def split: if_splits)
  have "start_address r = start_address (last (rows u))" using assms(1) by (simp add: r_def unwind_inv_def)
  note t = tiled_update[OF _ _ this]
  have "tiled (butlast (rows u) @ [r, r'])"
    using t(1) assms(1) by (intro tiled_snoc) (auto simp: unwind_inv_def r_def r'_def)
  moreover have "start_address (hd (butlast (rows u) @ [r, r'])) = pc"
    using t(2) assms(1) by (cases "butlast (rows u)") (auto simp: unwind_inv_def)
  ultimately show ?thesis using u' by (auto simp: unwind_inv_def a_def r'_def)
qed

lemma evaluate_inv:
  assumes "unwind_inv pc u" "evaluate_instruction fde i u = Some u'" "straight i"
  shows "unwind_inv pc u'"
proof (cases i)
  case (AdvanceLoc d)
  then show ?thesis using unwind_advance assms by blast
qed (use assms in \<open>auto simp: evaluate_instruction_def run_simps unwind_inv_def straight_def expect_i64_def\<close>)

lemma evaluate_instructions_inv:
  assumes "evaluate_instructions fde is (rs, st) = Some (rs', st')" "list_all straight is"
    and "rs \<noteq> []" "tiled rs" "start_address (hd rs) = pc_begin fde" "start_address (last rs) = pc_begin fde"
  shows "rs' \<noteq> [] \<and> tiled rs' \<and> start_address (hd rs') = pc_begin fde"
proof -
  let ?u = "\<lparr>rows = rs, row_stack = st, current_address = pc_begin fde, current_row = last rs\<rparr>"
  obtain u where u: "foldM (evaluate_instruction fde) is ?u = Some u" "rs' = butlast (rows u) @ [current_row u]"
    using assms(1,3) by (auto simp: evaluate_instructions_def run_simps update_last_row_def split: if_splits)
  have "unwind_inv (pc_begin fde) u"
  proof (rule foldM_invariant[OF u(1)])
    show "unwind_inv (pc_begin fde) ?u" using assms by (simp add: unwind_inv_def)
  qed (use assms(2) evaluate_inv in \<open>auto simp: list_all_iff\<close>)
  then show ?thesis
    using tiled_update[of "rows u" "current_row u"] u(2) by (auto simp: unwind_inv_def)
qed

lemma find_row_tiled:
  assumes "rs \<noteq> []" "tiled rs" "start_address (hd rs) \<le> a" "a \<le> end_address (last rs)"
  shows "\<exists>r. find_row_for_address rs a = Some r \<and> r \<in> set rs \<and> start_address r \<le> a \<and> a \<le> end_address r"
proof -
  have "\<exists>r\<in>set rs. start_address r \<le> a \<and> a \<le> end_address r"
    using assms
  proof (induction rs)
    case (Cons x xs)
    show ?case
    proof (cases "a \<le> end_address x \<or> xs = []")
      case True
      then show ?thesis using Cons.prems by auto
    next
      case False
      have "end_address x = start_address (hd xs)"
        using Cons.prems(2) False unfolding tiled_def by (auto simp: hd_conv_nth dest!: spec[of _ 0])
      moreover have "tiled xs" using Cons.prems(2) unfolding tiled_def by auto
      ultimately show ?thesis using Cons False by auto
    qed
  qed simp
  then have "find_row_for_address rs a \<noteq> None" unfolding find_row_for_address_def find_None_iff by auto
  then obtain r where "find_row_for_address rs a = Some r" by blast
  then show ?thesis unfolding find_row_for_address_def by (auto simp: find_Some_iff)
qed

lemma evaluate_stay:
  assumes "evaluate_instruction fde i u = Some u'" "straight i" "\<forall>d. i \<noteq> AdvanceLoc d"
  shows "rows u' = rows u \<and> start_address (current_row u') = start_address (current_row u)"
  using assms by (cases i) (auto simp: evaluate_instruction_def run_simps straight_def expect_i64_def)

lemma evaluate_initial:
  assumes "evaluate_instructions fde is ([r], st) = Some (rs', st')"
    "list_all (\<lambda>i. straight i \<and> (\<forall>d. i \<noteq> AdvanceLoc d)) is"
  shows "\<exists>r'. rs' = [r'] \<and> start_address r' = start_address r"
proof -
  let ?u = "\<lparr>rows = [r], row_stack = st, current_address = pc_begin fde, current_row = r\<rparr>"
  obtain u where u: "foldM (evaluate_instruction fde) is ?u = Some u" "rs' = butlast (rows u) @ [current_row u]"
    using assms(1) by (auto simp: evaluate_instructions_def run_simps update_last_row_def split: if_splits)
  have "rows u = [r] \<and> start_address (current_row u) = start_address r"
  proof (rule foldM_invariant[OF u(1)])
    show "rows ?u = [r] \<and> start_address (current_row ?u) = start_address r" by simp
  qed (use assms(2) evaluate_stay in \<open>force simp: list_all_iff\<close>)
  then show ?thesis using u(2) by simp
qed


definition example_fde :: "instruction list \<Rightarrow> parsed_fde" where
  "example_fde is = \<lparr>fde_cie = \<lparr>cie_version = 1, augmentation_string = [122, 82], address_size = 8,
     code_alignment_factor = 1, data_alignment_factor = - 8, cie_augmentation_data = Some [0x1b],
     return_address_register = 1, initial_instructions = [DefCfa 2 0]\<rparr>,
   pc_begin = 4096, address_range = 64, fde_augmentation_data = Some [], fde_instructions = is\<rparr>"

lemmas unwind_eval = unwinder_new_def evaluate_instructions_def evaluate_instruction_def update_last_row_def
  example_fde_def row_new_def expect_i64_def uadd_def




end
