(* ===== verification/Results.thy ===== *)
theory Results
  imports Prelude
begin

text \<open>
  Fallible code: \<^verbatim>\<open>Result<A, E>\<close> is \<^typ>\<open>'e + 'a\<close>, inside the panic option.  \<^verbatim>\<open>rthen\<close> is Rust's
  question mark.  A computation \<^verbatim>\<open>returns\<close> a property if it does not panic and every value it
  returns has the property; the rules below prove that along the program text.
\<close>

definition rthen :: "('e + 'a) run \<Rightarrow> ('a \<Rightarrow> ('e + 'b) run) \<Rightarrow> ('e + 'b) run" where
  "rthen m f = (case m of None \<Rightarrow> None | Some (Inl e) \<Rightarrow> Some (Inl e) | Some (Inr a) \<Rightarrow> f a)"

definition ok_or :: "'a option \<Rightarrow> 'e \<Rightarrow> ('e + 'a) run" where
  "ok_or x e = Some (case x of None \<Rightarrow> Inl e | Some a \<Rightarrow> Inr a)"

lemma rthen_simps [simp]:
  "rthen (Some (Inr a)) f = f a" "rthen (Some (Inl e)) f = Some (Inl e)" "rthen None f = None"
  by (simp_all add: rthen_def)

lemma rthen_cong [fundef_cong]:
  assumes "m = m'" "\<And>a. m' = Some (Inr a) \<Longrightarrow> f a = g a" shows "rthen m f = rthen m' g"
proof (cases m')
  case (Some x)
  then show ?thesis using assms by (cases x) simp_all
qed (use assms in simp)

lemma rthen_eq_Some [run_simps]:
  "rthen m f = Some r \<longleftrightarrow> (\<exists>e. m = Some (Inl e) \<and> r = Inl e) \<or> (\<exists>a. m = Some (Inr a) \<and> f a = Some r)"
proof (cases m)
  case (Some x)
  then show ?thesis by (cases x) auto
qed simp

lemma ok_or_eq [simp]: "ok_or None e = Some (Inl e)" "ok_or (Some a) e = Some (Inr a)"
  by (simp_all add: ok_or_def)

lemma ok_or_Inr [simp]: "ok_or x e = Some (Inr a) \<longleftrightarrow> x = Some a"
  by (cases x) auto

definition returns :: "('e + 'a) run \<Rightarrow> ('a \<Rightarrow> bool) \<Rightarrow> bool" where
  "returns m Q \<longleftrightarrow> (\<exists>r. m = Some r \<and> (\<forall>a. r = Inr a \<longrightarrow> Q a))"

lemma returnsD: "returns m Q \<Longrightarrow> \<exists>r. m = Some r \<and> (\<forall>a. r = Inr a \<longrightarrow> Q a)"
  by (simp add: returns_def)

lemma returns_rthen:
  assumes "returns m P" "\<And>a. P a \<Longrightarrow> returns (f a) Q"
  shows "returns (rthen m f) Q"
proof -
  obtain r where r: "m = Some r" "\<forall>a. r = Inr a \<longrightarrow> P a" using assms(1) by (auto simp: returns_def)
  then show ?thesis using assms(2) by (cases r) (auto simp: returns_def)
qed

lemma returns_ok_or: "returns (ok_or x e) (\<lambda>a. x = Some a)"
  by (cases x) (auto simp: returns_def)

lemma returns_Inl [intro, simp]: "returns (Some (Inl e)) Q"
  by (simp add: returns_def)

lemma returns_Inr [intro, simp]: "Q a \<Longrightarrow> returns (Some (Inr a)) Q"
  by (simp add: returns_def)

lemma returns_mono: "returns m P \<Longrightarrow> (\<And>a. P a \<Longrightarrow> Q a) \<Longrightarrow> returns m Q"
  by (auto simp: returns_def)

lemma returns_if:
  "(c \<Longrightarrow> returns m Q) \<Longrightarrow> (\<not> c \<Longrightarrow> returns n Q) \<Longrightarrow> returns (if c then m else n) Q"
  by simp

lemma returns_bind: "m = Some a \<Longrightarrow> returns (f a) Q \<Longrightarrow> returns (Option.bind m f) Q"
  by simp

end
