(* ===== verification/Cpio.thy ===== *)
theory Cpio
  imports Parser Results
begin

text \<open>
  The initramfs archive reader, \<^verbatim>\<open>crates/kernel/src/initramfs/cpio.rs\<close>: the newc variant of cpio.
\<close>

datatype cpio_error = Truncated | BadMagic | BadHex | InvalidName

record cpio_entry =
  ino :: nat
  mode :: nat
  nlink :: nat
  ename :: "byte list"
  edata :: "byte list"

definition HEADER_SIZE :: nat where "HEADER_SIZE = 110"

definition MAGIC :: "byte list" where "MAGIC = [48, 55, 48, 55, 48, 49]"

definition TRAILER :: "byte list" where
  "TRAILER = [84, 82, 65, 73, 76, 69, 82, 33, 33, 33]"

definition nibble :: "byte \<Rightarrow> nat option" where
  "nibble b = (if 48 \<le> b \<and> b \<le> 57 then Some (unat b - 48)
     else if 97 \<le> b \<and> b \<le> 102 then Some (unat b - 97 + 10)
     else if 65 \<le> b \<and> b \<le> 70 then Some (unat b - 65 + 10)
     else None)"

text \<open>The accumulator is a \<^verbatim>\<open>u32\<close>; eight nibbles fill it exactly.\<close>

primrec hex_loop :: "byte list \<Rightarrow> nat \<Rightarrow> cpio_error + nat" where
  "hex_loop [] acc = Inr acc"
| "hex_loop (b # bs) acc = (case nibble b of None \<Rightarrow> Inl BadHex
     | Some n \<Rightarrow> hex_loop bs (acc * 16 mod 2 ^ 32 + n))"

definition parse_hex :: "byte list \<Rightarrow> (cpio_error + nat) run" where
  "parse_hex bs = do { check (length bs = 8); Some (hex_loop bs 0) }"

definition align4 :: "nat \<Rightarrow> nat run" where
  "align4 x = do { y \<leftarrow> uadd x 3; Some (y div 4 * 4) }"

text \<open>\<^verbatim>\<open>slice.get(a..b)\<close>.\<close>

definition get_slice :: "'a list \<Rightarrow> nat \<Rightarrow> nat \<Rightarrow> 'a list option" where
  "get_slice xs a b = slice_of xs a b"

definition field :: "byte list \<Rightarrow> nat \<Rightarrow> (cpio_error + nat) run" where
  "field header a = do { h \<leftarrow> slice_of header a (a + 8); parse_hex h }"

text \<open>The three parts of \<^verbatim>\<open>read_one\<close>: name, data, and the whole record.\<close>

definition read_name :: "byte list \<Rightarrow> nat \<Rightarrow> nat \<Rightarrow> (cpio_error + (byte list \<times> nat)) run" where
  "read_name b name_start namesize =
     rthen (ok_or (uadd name_start namesize) Truncated) (\<lambda>name_end.
     rthen (ok_or (get_slice b name_start name_end) Truncated) (\<lambda>name_bytes.
       if namesize = 0 \<or> last name_bytes \<noteq> 0 then Some (Inl InvalidName)
       else if \<not> utf8_valid (take (namesize - 1) name_bytes) then Some (Inl InvalidName)
       else Some (Inr (take (namesize - 1) name_bytes, name_end))))"

definition read_data :: "byte list \<Rightarrow> nat \<Rightarrow> nat \<Rightarrow> (cpio_error + (byte list \<times> nat)) run" where
  "read_data b name_end filesize = do {
     data_start \<leftarrow> align4 name_end;
     rthen (ok_or (uadd data_start filesize) Truncated) (\<lambda>data_end.
     rthen (ok_or (get_slice b data_start data_end) Truncated) (\<lambda>d. do {
       next_pos \<leftarrow> align4 data_end;
       Some (Inr (d, next_pos)) }))
   }"

definition read_one :: "byte list \<Rightarrow> nat \<Rightarrow> (cpio_error + (cpio_entry \<times> nat)) run" where
  "read_one b p = do {
     header_end \<leftarrow> uadd p HEADER_SIZE;
     rthen (ok_or (get_slice b p header_end) Truncated) (\<lambda>header.
     if take 6 header \<noteq> MAGIC then Some (Inl BadMagic) else
     rthen (field header 6) (\<lambda>i.
     rthen (field header 14) (\<lambda>m.
     rthen (field header 38) (\<lambda>l.
     rthen (field header 54) (\<lambda>filesize.
     rthen (field header 94) (\<lambda>namesize.
     rthen (read_name b header_end namesize) (\<lambda>(name, name_end).
     rthen (read_data b name_end filesize) (\<lambda>(d, next_pos).
       Some (Inr (\<lparr>ino = i, mode = m, nlink = l, ename = name, edata = d\<rparr>, next_pos))))))))))
   }"

record cpio_iter =
  cbuf :: "byte list"
  cpos :: nat
  cdone :: bool

definition cpio_next :: "cpio_iter \<Rightarrow> ((cpio_error + cpio_entry) option \<times> cpio_iter) run" where
  "cpio_next it =
     (if cdone it \<or> cpos it \<ge> length (cbuf it) then Some (None, it)
      else do {
        r \<leftarrow> read_one (cbuf it) (cpos it);
        Some (case r of
          Inl e \<Rightarrow> (Some (Inl e), it\<lparr>cdone := True\<rparr>)
        | Inr (entry, new_pos) \<Rightarrow>
            if ename entry = TRAILER then (None, it\<lparr>cdone := True\<rparr>)
            else (Some (Inr entry), it\<lparr>cpos := new_pos\<rparr>))
      })"

text \<open>The loop over the archive in \<^verbatim>\<open>extract_into\<close>: the entries seen, and the error that ended it.\<close>

lemma read_one_progress: "read_one b p = Some (Inr (e, q)) \<Longrightarrow> p < q"
  by (auto simp: read_one_def read_name_def read_data_def align4_def run_simps HEADER_SIZE_def
      split: if_splits)

lemma cpio_next_progress:
  assumes "cpio_next it = Some (Some (Inr e), it')"
  shows "cbuf it' = cbuf it \<and> cpos it < cpos it' \<and> cpos it < length (cbuf it)"
proof -
  have c: "\<not> (cdone it \<or> cpos it \<ge> length (cbuf it))" using assms by (auto simp: cpio_next_def)
  with assms obtain r where r: "read_one (cbuf it) (cpos it) = Some r"
    by (auto simp: cpio_next_def bind_eq_Some_conv)
  then show ?thesis using assms c read_one_progress
    by (cases r) (auto simp: cpio_next_def split: if_splits)
qed

function cpio_entries :: "cpio_iter \<Rightarrow> (cpio_entry list \<times> cpio_error option) run" where
  "cpio_entries it = do {
     (r, it') \<leftarrow> cpio_next it;
     case r of
       None \<Rightarrow> Some ([], None)
     | Some (Inl e) \<Rightarrow> Some ([], Some e)
     | Some (Inr entry) \<Rightarrow> do { (es, err) \<leftarrow> cpio_entries it'; Some (entry # es, err) }
   }"
  by pat_completeness auto
termination
proof (relation "measure (\<lambda>it. length (cbuf it) - cpos it)")
  fix it :: cpio_iter and x r it' x2 entry
  assume "cpio_next it = Some x" "(r, it') = x" "r = Some x2" "x2 = Inr entry"
  then have "cpio_next it = Some (Some (Inr entry), it')" by auto
  from cpio_next_progress[OF this]
  show "(it', it) \<in> measure (\<lambda>it. length (cbuf it) - cpos it)" by auto
qed simp

declare cpio_entries.simps [simp del]

definition cpio_start :: "byte list \<Rightarrow> cpio_iter" where
  "cpio_start archive = \<lparr>cbuf = archive, cpos = 0, cdone = False\<rparr>"

section \<open>Safety\<close>

lemma field_some: "length h = 110 \<Longrightarrow> a \<le> 102 \<Longrightarrow> \<exists>r. field h a = Some r"
  by (simp add: field_def slice_of_def parse_hex_def)

lemma align4_eq: "x + 3 < 2 ^ 64 \<Longrightarrow> align4 x = Some ((x + 3) div 4 * 4)"
  by (simp add: align4_def uadd_def)

lemma read_name_returns: "returns (read_name b q n) (\<lambda>x. snd x = q + n \<and> snd x \<le> length b)"
  unfolding read_name_def
  by (intro returns_rthen[OF returns_ok_or] returns_if returns_Inl returns_Inr)
    (auto simp: get_slice_def run_simps)

lemma read_data_returns:
  assumes "length b + 128 < 2 ^ 64" "q \<le> length b"
  shows "returns (read_data b q n) (\<lambda>x. q \<le> snd x \<and> snd x < length b + 4)"
proof -
  have al: "align4 x = Some ((x + 3) div 4 * 4)" if "x \<le> length b" for x
    using align4_eq[of x] that assms(1) by simp
  have "q \<le> (q + 3) div 4 * 4" by linarith
  then show ?thesis
    unfolding read_data_def using assms(2)
    by (intro returns_bind[OF al[OF assms(2)]] returns_rthen[OF returns_ok_or] returns_bind[OF al] returns_Inr)
      (auto simp: get_slice_def run_simps)
qed

lemma field_returns: "length h = 110 \<Longrightarrow> a \<le> 102 \<Longrightarrow> returns (field h a) (\<lambda>_. True)"
  using field_some[of h a] by (auto simp: returns_def)

lemma read_one_returns:
  assumes "length b + 128 < 2 ^ 64" "p < length b"
  shows "returns (read_one b p) (\<lambda>x. p < snd x \<and> snd x < length b + 4)"
proof -
  have p: "uadd p HEADER_SIZE = Some (p + 110)" using assms by (simp add: uadd_def HEADER_SIZE_def)
  have name: "returns (rthen (read_name b (p + 110) n) (\<lambda>(name, q). rthen (read_data b q f) (\<lambda>(d, nx).
      Some (Inr (\<lparr>ino = i, mode = m, nlink = l, ename = name, edata = d\<rparr>, nx)))))
      (\<lambda>x. p < snd x \<and> snd x < length b + 4)" for n f i m l
  proof (rule returns_rthen[OF read_name_returns], clarsimp)
    fix name q assume "p + 110 + n \<le> length b"
    then show "returns (rthen (read_data b (p + 110 + n) f) (\<lambda>(d, nx).
        Some (Inr (\<lparr>ino = i, mode = m, nlink = l, ename = name, edata = d\<rparr>, nx))))
        (\<lambda>x. p < snd x \<and> snd x < length b + 4)"
      by (intro returns_rthen[OF read_data_returns[OF assms(1)]]) auto
  qed
  show ?thesis
    unfolding read_one_def
    by (intro returns_bind[OF p] returns_rthen[OF returns_ok_or] returns_if returns_Inl
        returns_rthen[OF field_returns] name)
      (auto simp: get_slice_def run_simps)
qed

lemma cpio_next_some:
  assumes "length (cbuf it) + 128 < 2 ^ 64"
  shows "\<exists>r it'. cpio_next it = Some (r, it') \<and> cbuf it' = cbuf it"
proof (cases "cdone it \<or> cpos it \<ge> length (cbuf it)")
  case False
  then have "cpos it < length (cbuf it)" by simp
  from returnsD[OF read_one_returns[OF assms this]] obtain r
    where "read_one (cbuf it) (cpos it) = Some r" by blast
  with False show ?thesis by (cases r) (auto simp: cpio_next_def)
qed (auto simp: cpio_next_def)

lemma cpio_entries_total:
  assumes "length (cbuf it) + 128 < 2 ^ 64"
  shows "\<exists>r. cpio_entries it = Some r"
  using assms
proof (induction it rule: cpio_entries.induct)
  case (1 it)
  obtain r it' where n: "cpio_next it = Some (r, it')" "cbuf it' = cbuf it"
    using cpio_next_some[OF "1.prems"] by blast
  show ?case
  proof (cases "\<exists>e. r = Some (Inr e)")
    case True
    then obtain e where e: "r = Some (Inr e)" by blast
    obtain es err where "cpio_entries it' = Some (es, err)"
      using "1.IH"[OF n(1) refl e refl] "1.prems" n(2) by auto
    then show ?thesis using n e by (subst cpio_entries.simps) simp
  next
    case False
    then show ?thesis using n by (subst cpio_entries.simps) (auto split: option.split sum.split)
  qed
qed

section \<open>The format\<close>

text \<open>The encoder the reader inverts: eight digit fields, and padding to four bytes.\<close>

definition hexdig :: "nat \<Rightarrow> byte" where
  "hexdig d = of_nat (if d < 10 then 48 + d else 87 + d)"

primrec hexs :: "nat \<Rightarrow> nat \<Rightarrow> byte list" where
  "hexs 0 n = []"
| "hexs (Suc k) n = hexdig (n div 16 ^ k mod 16) # hexs k n"

definition pad4 :: "byte list \<Rightarrow> byte list" where
  "pad4 xs = xs @ replicate ((4 - length xs mod 4) mod 4) 0"

definition enc_header :: "cpio_entry \<Rightarrow> byte list" where
  "enc_header e = MAGIC @ hexs 8 (ino e) @ hexs 8 (mode e) @ hexs 8 0 @ hexs 8 0 @ hexs 8 (nlink e)
     @ hexs 8 0 @ hexs 8 (length (edata e)) @ hexs 8 0 @ hexs 8 0 @ hexs 8 0 @ hexs 8 0
     @ hexs 8 (Suc (length (ename e))) @ hexs 8 0"

definition enc_entry :: "cpio_entry \<Rightarrow> byte list" where
  "enc_entry e = pad4 (enc_header e @ ename e @ [0]) @ pad4 (edata e)"

definition cpio_entry_ok :: "cpio_entry \<Rightarrow> bool" where
  "cpio_entry_ok e \<longleftrightarrow> ino e < 2 ^ 32 \<and> mode e < 2 ^ 32 \<and> nlink e < 2 ^ 32
     \<and> length (edata e) < 2 ^ 32 \<and> Suc (length (ename e)) < 2 ^ 32 \<and> utf8_valid (ename e)"

lemma nibble_hexdig: "d < 16 \<Longrightarrow> nibble (hexdig d) = Some d"
proof -
  assume "d < 16"
  then have "d \<in> set [0..<16]" by simp
  moreover have "\<forall>d\<in>set [0..<16]. nibble (hexdig d) = Some d" by code_simp
  ultimately show ?thesis by blast
qed

lemma length_hexs [simp]: "length (hexs k n) = k"
  by (induction k) simp_all

lemma hex_loop_hexs:
  "acc * 16 ^ k + n mod 16 ^ k < 2 ^ 32 \<Longrightarrow> hex_loop (hexs k n) acc = Inr (acc * 16 ^ k + n mod 16 ^ k)"
proof (induction k arbitrary: acc)
  case (Suc k)
  let ?d = "n div 16 ^ k mod 16"
  have split: "n mod 16 ^ Suc k = ?d * 16 ^ k + n mod 16 ^ k"
    using mod_mult2_eq[of n "16 ^ k" 16] by (simp only: power_Suc2 mult.commute)
  have e: "(acc * 16 + ?d) * 16 ^ k + n mod 16 ^ k = acc * 16 ^ Suc k + n mod 16 ^ Suc k"
    unfolding split by (simp add: algebra_simps)
  have "acc * 16 * 1 \<le> acc * 16 * 16 ^ k" by (intro mult_le_mono2) simp
  also have "\<dots> = acc * 16 ^ Suc k" by simp
  finally have "acc * 16 < 2 ^ 32" using Suc.prems by linarith
  then have "hex_loop (hexs (Suc k) n) acc = hex_loop (hexs k n) (acc * 16 + ?d)"
    by (simp add: nibble_hexdig)
  then show ?case using Suc.IH[of "acc * 16 + ?d"] Suc.prems e by simp
qed simp

lemma parse_hex_hexs: "n < 2 ^ 32 \<Longrightarrow> parse_hex (hexs 8 n) = Some (Inr n)"
  using hex_loop_hexs[of 0 8 n] by (simp add: parse_hex_def)

lemma length_pad4: "length (pad4 xs) = (length xs + 3) div 4 * 4"
proof -
  have "length xs mod 4 < 4" by simp
  then consider "length xs mod 4 = 0" | "length xs mod 4 = 1" | "length xs mod 4 = 2" | "length xs mod 4 = 3"
    by linarith
  then show ?thesis unfolding pad4_def by cases (simp, presburger)+
qed

lemma length_enc_header [simp]: "length (enc_header e) = 110"
  by (simp add: enc_header_def MAGIC_def)

lemma length_enc_entry: "length (enc_entry e) \<ge> 110"
  by (simp add: enc_entry_def pad4_def)

lemma slice_mid:
  assumes "length a = i" "length m = j - i" "i \<le> j"
  shows "slice_of (a @ m @ c) i j = Some m"
  using assms by (auto simp: slice_of_def)

lemma header_fields:
  assumes "cpio_entry_ok e"
  shows "take 6 (enc_header e) = MAGIC" "field (enc_header e) 6 = Some (Inr (ino e))"
    "field (enc_header e) 14 = Some (Inr (mode e))" "field (enc_header e) 38 = Some (Inr (nlink e))"
    "field (enc_header e) 54 = Some (Inr (length (edata e)))"
    "field (enc_header e) 94 = Some (Inr (Suc (length (ename e))))"
  using assms
  by (simp_all add: cpio_entry_ok_def field_def enc_header_def slice_of_def MAGIC_def parse_hex_hexs)

lemma read_name_enc:
  assumes "b = a @ ename e @ [0] @ rest" "length b < 2 ^ 64" "utf8_valid (ename e)"
  shows "read_name b (length a) (Suc (length (ename e)))
    = Some (Inr (ename e, length a + Suc (length (ename e))))"
  using assms by (simp add: read_name_def get_slice_def slice_of_def uadd_def)

lemma read_data_enc:
  assumes "b = a @ replicate k 0 @ edata e @ rest" "length b + 128 < 2 ^ 64"
    "length a + k = (length a + 3) div 4 * 4"
  shows "read_data b (length a) (length (edata e))
    = Some (Inr (edata e, length a + k + (length (edata e) + 3) div 4 * 4))"
proof -
  have al: "(length a + k + n + 3) div 4 * 4 = length a + k + (n + 3) div 4 * 4" for n
    using assms(3) by presburger
  show ?thesis
    using assms(1,2) al[of "length (edata e)"] assms(3)[symmetric]
    by (simp add: read_data_def get_slice_def slice_of_def uadd_def align4_eq)
qed

lemma align_shift:
  fixes n :: nat
  assumes "4 dvd p" "n + k = (n + 3) div 4 * 4"
  shows "p + n + k = (p + n + 3) div 4 * 4"
  using assms by presburger

lemma read_one_enc:
  assumes b: "b = pre @ enc_entry e @ rest" and pre: "4 dvd length pre" and e: "cpio_entry_ok e"
    and len: "length b + 128 < 2 ^ 64"
  shows "read_one b (length pre) = Some (Inr (e, length pre + length (enc_entry e)))"
proof -
  let ?a = "pre @ enc_header e" and ?n = "enc_header e @ ename e @ [0]"
  let ?k = "(4 - length ?n mod 4) mod 4" and ?j = "(4 - length (edata e) mod 4) mod 4"
  have bh: "b = pre @ enc_header e @ (ename e @ [0] @ replicate ?k 0 @ edata e @ replicate ?j 0 @ rest)"
    using b by (simp add: enc_entry_def pad4_def)
  have h: "get_slice b (length pre) (length pre + 110) = Some (enc_header e)"
    unfolding get_slice_def bh by (rule slice_mid) simp_all
  have n: "read_name b (length pre + 110) (Suc (length (ename e)))
      = Some (Inr (ename e, length pre + 110 + Suc (length (ename e))))"
    using read_name_enc[of b ?a e, OF bh[folded append_assoc[of pre]]] len e by (simp add: cpio_entry_ok_def)
  have "length (pad4 ?n) = length ?n + ?k" by (simp add: pad4_def)
  then have k: "length ?n + ?k = (length ?n + 3) div 4 * 4" using length_pad4[of ?n] by simp
  have "length (pre @ ?n) + ?k = (length (pre @ ?n) + 3) div 4 * 4"
    using align_shift[OF pre k] by (simp only: length_append)
  from read_data_enc[OF _ len this, of e "replicate ?j 0 @ rest"] bh
  have d: "read_data b (length (pre @ ?n)) (length (edata e))
      = Some (Inr (edata e, length (pre @ ?n) + ?k + (length (edata e) + 3) div 4 * 4))"
    by (simp only: append_assoc)
  have en: "length (enc_entry e) = length ?n + ?k + (length (edata e) + 3) div 4 * 4"
    unfolding enc_entry_def length_append length_pad4[of "edata e"] by (simp add: pad4_def)
  have d': "read_data b (length pre + 110 + Suc (length (ename e))) (length (edata e))
      = Some (Inr (edata e, length pre + length (enc_entry e)))"
    using d unfolding en length_append length_enc_header by (simp add: add.assoc add.left_commute)
  have "length pre \<le> length b" unfolding b by simp
  then have "uadd (length pre) HEADER_SIZE = Some (length pre + 110)"
    using len by (simp add: uadd_def HEADER_SIZE_def)
  then show ?thesis using h n d' header_fields[OF e] by (simp add: read_one_def)
qed

lemma cpio_entries_enc:
  assumes "b = pre @ concat (map enc_entry es) @ enc_entry t @ rest" "4 dvd length pre"
    "list_all (\<lambda>e. cpio_entry_ok e \<and> ename e \<noteq> TRAILER) es" "cpio_entry_ok t" "ename t = TRAILER"
    "length b + 128 < 2 ^ 64"
  shows "cpio_entries \<lparr>cbuf = b, cpos = length pre, cdone = False\<rparr> = Some (es, None)"
  using assms
proof (induction es arbitrary: pre)
  case Nil
  then have "read_one b (length pre) = Some (Inr (t, length pre + length (enc_entry t)))"
    by (intro read_one_enc) simp_all
  moreover have "enc_entry t \<noteq> []" using length_enc_entry[of t] by auto
  ultimately show ?case using Nil by (subst cpio_entries.simps) (simp add: cpio_next_def)
next
  case (Cons e es)
  have r: "read_one b (length pre) = Some (Inr (e, length pre + length (enc_entry e)))"
    using Cons.prems by (intro read_one_enc[where rest = "concat (map enc_entry es) @ enc_entry t @ rest"]) simp_all
  have nz: "enc_entry e \<noteq> []" using length_enc_entry[of e] by auto
  have "4 dvd length (pre @ enc_entry e)"
    using Cons.prems(2) by (simp add: enc_entry_def length_pad4)
  then have "cpio_entries \<lparr>cbuf = b, cpos = length (pre @ enc_entry e), cdone = False\<rparr> = Some (es, None)"
    using Cons.prems by (intro Cons.IH) simp_all
  then show ?case using r nz Cons.prems by (subst cpio_entries.simps) (simp add: cpio_next_def)
qed

text \<open>
  C29: the archive reader is total and inverts the format.  On any bytes the loop over the entries
  ends without a panic.  On an archive written with the newc layout (hexadecimal fields, padding to
  four bytes, a trailer, anything after it) it returns exactly the entries, in order.
\<close>

theorem cpio_reader_correct:
  assumes "length b + 128 < 2 ^ 64"
  shows "(\<exists>r. cpio_entries (cpio_start b) = Some r)
    \<and> (b = concat (map enc_entry es) @ enc_entry t @ rest \<longrightarrow>
        list_all (\<lambda>e. cpio_entry_ok e \<and> ename e \<noteq> TRAILER) es \<longrightarrow> cpio_entry_ok t \<longrightarrow> ename t = TRAILER \<longrightarrow>
        cpio_entries (cpio_start b) = Some (es, None))"
proof (intro conjI impI)
  show "\<exists>r. cpio_entries (cpio_start b) = Some r"
    using cpio_entries_total[of "cpio_start b"] assms by (simp add: cpio_start_def)
next
  assume "b = concat (map enc_entry es) @ enc_entry t @ rest"
    "list_all (\<lambda>e. cpio_entry_ok e \<and> ename e \<noteq> TRAILER) es" "cpio_entry_ok t" "ename t = TRAILER"
  then show "cpio_entries (cpio_start b) = Some (es, None)"
    using cpio_entries_enc[of b "[]" es t rest] assms by (simp add: cpio_start_def)
qed

definition sample_entry :: cpio_entry where
  "sample_entry = \<lparr>ino = 7, mode = 33188, nlink = 1, ename = [104, 105], edata = [1, 2, 3, 4, 5]\<rparr>"

definition trailer_entry :: cpio_entry where
  "trailer_entry = \<lparr>ino = 0, mode = 0, nlink = 1, ename = TRAILER, edata = []\<rparr>"

lemma sample_entries_ok:
  "cpio_entry_ok sample_entry" "ename sample_entry \<noteq> TRAILER" "cpio_entry_ok trailer_entry" "ename trailer_entry = TRAILER"
  by (simp_all add: sample_entry_def trailer_entry_def cpio_entry_ok_def TRAILER_def utf8_valid.simps)

lemma sample_archive_small: "length (enc_entry sample_entry @ enc_entry trailer_entry) = 248"
  by (simp add: enc_entry_def length_pad4 sample_entry_def trailer_entry_def TRAILER_def)

theorem cpio_reader_correct_witness:
  "cpio_entries (cpio_start (enc_entry sample_entry @ enc_entry trailer_entry)) = Some ([sample_entry], None)"
  using cpio_reader_correct[of "enc_entry sample_entry @ enc_entry trailer_entry" "[sample_entry]" trailer_entry "[]"]
    sample_entries_ok sample_archive_small
  by simp

end
