(* ===== verification/Checksum.thy ===== *)
theory Checksum
  imports Parser
begin

text \<open>
  The Internet checksum, \<^verbatim>\<open>crates/kernel/src/net/checksum.rs\<close>, and big-endian fields
  (\<^verbatim>\<open>crates/klib/src/big_endian.rs\<close>).  The routine runs over several slices and carries an odd byte from
  one to the next; it is shown to be the one's complement sum of the concatenation, and a packet that
  carries its checksum is shown to sum to zero.
\<close>

unbundle bit_operations_syntax

text \<open>The accumulator is a \<^verbatim>\<open>u32\<close> with overflow check.\<close>

definition add32 :: "nat \<Rightarrow> nat \<Rightarrow> nat run" where
  "add32 a b = (if a + b < 2 ^ 32 then Some (a + b) else None)"

definition pair16 :: "byte \<Rightarrow> byte \<Rightarrow> nat" where
  "pair16 hi lo = 256 * unat hi + unat lo"

fun sum_pairs :: "nat \<Rightarrow> byte list \<Rightarrow> (nat \<times> byte option) run" where
  "sum_pairs acc (a # b # r) = do { acc \<leftarrow> add32 acc (pair16 a b); sum_pairs acc r }"
| "sum_pairs acc [a] = Some (acc, Some a)"
| "sum_pairs acc [] = Some (acc, None)"

definition sum_slice :: "byte list \<Rightarrow> nat \<times> byte option \<Rightarrow> (nat \<times> byte option) run" where
  "sum_slice bs st = (case st of
     (acc, Some high) \<Rightarrow> (case bs of
         [] \<Rightarrow> Some (acc, Some high)
       | b # r \<Rightarrow> do { acc \<leftarrow> add32 acc (pair16 high b); sum_pairs acc r })
   | (acc, None) \<Rightarrow> sum_pairs acc bs)"

function fold_carry :: "nat \<Rightarrow> nat" where
  "fold_carry acc = (if acc div 65536 \<noteq> 0 then fold_carry (acc mod 65536 + acc div 65536) else acc)"
  by pat_completeness auto
termination
proof (relation "measure id")
  fix acc :: nat
  assume "acc div 65536 \<noteq> 0"
  moreover have "acc = 65536 * (acc div 65536) + acc mod 65536" by simp
  ultimately show "(acc mod 65536 + acc div 65536, acc) \<in> measure id"
    unfolding in_measure id_apply by linarith
qed simp

declare fold_carry.simps [simp del]

definition ones_complement_checksum :: "byte list list \<Rightarrow> 16 word run" where
  "ones_complement_checksum slices = do {
     (acc, leftover) \<leftarrow> foldM sum_slice slices (0, None);
     acc \<leftarrow> (case leftover of Some high \<Rightarrow> add32 acc (pair16 high 0) | None \<Rightarrow> Some acc);
     let folded = fold_carry acc;
     check (folded < 2 ^ 16);
     Some (NOT (word_of_nat folded))
   }"

section \<open>Big-endian fields\<close>

definition be :: "nat \<Rightarrow> nat \<Rightarrow> byte list" where
  "be n v = rev (to_le n v)"

definition be_val :: "byte list \<Rightarrow> nat" where
  "be_val bs = le_bytes (rev bs)"

lemma length_be [simp]: "length (be n v) = n"
  by (simp add: be_def)

lemma be_val_be: "v < 256 ^ n \<Longrightarrow> be_val (be n v) = v"
  by (simp add: be_def be_val_def le_bytes_to_le)

lemma be_val_be16 [simp]: "be_val (be 2 (unat (w :: 16 word))) = unat w"
  using unsigned_less[of w, where 'a = nat] by (intro be_val_be) simp

lemma be_val_be32 [simp]: "be_val (be 4 (unat (w :: 32 word))) = unat w"
  using unsigned_less[of w, where 'a = nat] by (intro be_val_be) simp

section \<open>The reference sum\<close>

fun word_sum :: "byte list \<Rightarrow> nat" where
  "word_sum (a # b # r) = pair16 a b + word_sum r"
| "word_sum [a] = pair16 a 0"
| "word_sum [] = 0"

lemma unat_byte_less: "unat (b :: byte) < 256"
  using unsigned_less[of b, where 'a = nat] by simp

lemma word_sum_even: "even (length xs) \<Longrightarrow> word_sum (xs @ ys) = word_sum xs + word_sum ys"
  by (induction xs rule: word_sum.induct) auto

lemma word_sum_bound: "word_sum xs \<le> 65535 * ((length xs + 1) div 2)"
proof (induction xs rule: word_sum.induct)
  case (1 a b r)
  have "pair16 a b \<le> 65535" using unat_byte_less[of a] unat_byte_less[of b] by (simp add: pair16_def)
  then show ?case using 1 by simp
next
  case (2 a)
  then show ?case using unat_byte_less[of a] by (simp add: pair16_def)
qed simp

definition pending :: "byte option \<Rightarrow> byte list" where
  "pending l = (case l of None \<Rightarrow> [] | Some b \<Rightarrow> [b])"

lemma pending_simps [simp]: "pending None = []" "pending (Some b) = [b]"
  by (simp_all add: pending_def)

lemma sum_pairs_spec:
  "s + word_sum xs < 2 ^ 32 \<Longrightarrow> \<exists>s' l. sum_pairs s xs = Some (s', l)
    \<and> (\<forall>ys. s' + word_sum (pending l @ ys) = s + word_sum (xs @ ys))"
  by (induction s xs rule: sum_pairs.induct) (auto simp: add32_def add.assoc)

lemma word_sum_prefix_le: "word_sum xs \<le> word_sum (xs @ ys)"
proof (induction xs rule: word_sum.induct)
  case (2 a)
  then show ?case by (cases ys rule: word_sum.cases) (auto simp: pair16_def)
qed auto

lemma sum_slice_spec:
  assumes "s + word_sum (pending l @ xs) < 2 ^ 32"
  shows "\<exists>s' l'. sum_slice xs (s, l) = Some (s', l')
    \<and> (\<forall>ys. s' + word_sum (pending l' @ ys) = s + word_sum (pending l @ xs @ ys))"
proof (cases l)
  case None
  then show ?thesis using sum_pairs_spec[of s xs] assms by (simp add: sum_slice_def)
next
  case (Some h)
  show ?thesis
  proof (cases xs)
    case Nil
    then show ?thesis using Some by (simp add: sum_slice_def)
  next
    case (Cons b r)
    then show ?thesis
      using Some assms sum_pairs_spec[of "s + pair16 h b" r]
      by (simp add: sum_slice_def add32_def add.assoc)
  qed
qed

lemma sum_slices_spec:
  "s + word_sum (pending l @ concat xss) < 2 ^ 32 \<Longrightarrow> \<exists>s' l'. foldM sum_slice xss (s, l) = Some (s', l')
    \<and> s' + word_sum (pending l') = s + word_sum (pending l @ concat xss)"
proof (induction xss arbitrary: s l)
  case (Cons xs xss)
  have "s + word_sum (pending l @ xs) < 2 ^ 32"
    using Cons.prems word_sum_prefix_le[of "pending l @ xs" "concat xss"] by simp
  from sum_slice_spec[OF this] obtain s1 l1 where one: "sum_slice xs (s, l) = Some (s1, l1)"
    "\<And>ys. s1 + word_sum (pending l1 @ ys) = s + word_sum (pending l @ xs @ ys)" by blast
  then have "s1 + word_sum (pending l1 @ concat xss) < 2 ^ 32" using Cons.prems by simp
  from Cons.IH[OF this] one show ?case by auto
qed simp

section \<open>Folding the carries\<close>

lemma carry_step_mod: "(s mod 65536 + s div 65536) mod 65535 = s mod (65535 :: nat)"
proof -
  have "s mod 65536 + s div 65536 + 65535 * (s div 65536) = s"
    using mod_mult_div_eq[of s 65536] by linarith
  then show ?thesis using mod_mult_self2[of "s mod 65536 + s div 65536" 65535 "s div 65536"] by argo
qed

lemma fold_carry_mod: "fold_carry s mod 65535 = s mod 65535"
proof (induction s rule: fold_carry.induct)
  case (1 s)
  show ?case
  proof (cases "s div 65536 \<noteq> 0")
    case True
    then have "fold_carry s = fold_carry (s mod 65536 + s div 65536)" by (subst fold_carry.simps) simp
    then show ?thesis using "1.IH"[OF True] carry_step_mod[of s] by argo
  next
    case False
    then show ?thesis by (subst fold_carry.simps) simp
  qed
qed

lemma fold_carry_less: "fold_carry s < 65536"
proof (induction s rule: fold_carry.induct)
  case (1 s)
  then show ?case by (cases "s div 65536 \<noteq> 0") (simp_all add: fold_carry.simps[of s] div_eq_0_iff)
qed

lemma fold_carry_pos: "0 < s \<Longrightarrow> 0 < fold_carry s"
proof (induction s rule: fold_carry.induct)
  case (1 s)
  then show ?case by (cases "s div 65536 \<noteq> 0") (simp_all add: fold_carry.simps[of s])
qed

text \<open>Adding the complement of a sum gives all ones.\<close>

lemma fold_carry_complement: "fold_carry (s + (65535 - fold_carry s)) = 65535"
proof -
  let ?t = "s + (65535 - fold_carry s)"
  have "fold_carry s \<le> 65535" using fold_carry_less[of s] by simp
  then have "(fold_carry s + (65535 - fold_carry s)) mod 65535 = 0" by simp
  then have "?t mod 65535 = 0"
    by (metis fold_carry_mod mod_add_left_eq)
  then have "fold_carry ?t mod 65535 = 0" by (simp add: fold_carry_mod)
  moreover have "0 < ?t"
  proof (cases "s = 0")
    case True
    then show ?thesis by (simp add: fold_carry.simps)
  qed simp
  then have "0 < fold_carry ?t" by (rule fold_carry_pos)
  ultimately show ?thesis using fold_carry_less[of ?t] by auto
qed

definition reference_checksum :: "byte list \<Rightarrow> 16 word" where
  "reference_checksum bs = NOT (word_of_nat (fold_carry (word_sum bs)))"

lemma checksum_reference:
  assumes "length (concat slices) \<le> 131072"
  shows "ones_complement_checksum slices = Some (reference_checksum (concat slices))"
proof -
  have "(length (concat slices) + 1) div 2 \<le> 65536" using assms by simp
  then have "65535 * ((length (concat slices) + 1) div 2) \<le> 65535 * 65536" by (rule mult_le_mono2)
  then have b: "word_sum (concat slices) < 2 ^ 32" using word_sum_bound[of "concat slices"] by simp
  then obtain s l where "foldM sum_slice slices (0, None) = Some (s, l)"
      "s + word_sum (pending l) = word_sum (concat slices)"
    using sum_slices_spec[of 0 None slices] by auto
  then show ?thesis
    using b fold_carry_less[of "word_sum (concat slices)"]
    by (cases l) (auto simp: ones_complement_checksum_def reference_checksum_def add32_def)
qed

text \<open>A checksum stored at an even offset makes the whole sum to zero.\<close>

lemma unat_not16: "unat (NOT (w :: 16 word)) = 65535 - unat w"
proof -
  have "NOT w = 65535 - w" by (simp add: not_eq_complement)
  moreover have "unat w \<le> 65535" using unsigned_less[of w, where 'a = nat] by simp
  ultimately show ?thesis by (simp add: unat_sub word_le_nat_alt)
qed

lemma word_sum_be16: "word_sum (be 2 (unat (c :: 16 word))) = unat c"
proof -
  let ?v = "unat c"
  have "?v < 65536" using unsigned_less[of c, where 'a = nat] by simp
  then have hi: "?v div 256 < 256" by (simp add: less_mult_imp_div_less)
  have "to_le 2 ?v = [word_of_nat (?v mod 256), word_of_nat (?v div 256 mod 256)]"
    by (simp only: numeral_2_eq_2 to_le.simps)
  then show ?thesis using hi unfolding be_def by (simp only: rev.simps append.simps word_sum.simps pair16_def
        unat_of_byte mod_less mod_less_divisor) simp
qed

lemma checksum_verifies:
  assumes "even (length xs)"
  shows "reference_checksum (xs @ be 2 (unat (reference_checksum (xs @ [0, 0] @ ys))) @ ys) = 0"
proof -
  have z: "word_sum ([0, 0] @ ys) = word_sum ys" by (simp add: pair16_def)
  let ?s = "word_sum xs + word_sum ys"
  let ?c = "reference_checksum (xs @ [0, 0] @ ys)"
  have c: "unat ?c = 65535 - fold_carry ?s"
    unfolding reference_checksum_def word_sum_even[OF assms] z unat_not16
    using fold_carry_less[of ?s] by (simp add: unsigned_of_nat take_bit_nat_eq_self)
  have "word_sum (xs @ be 2 (unat ?c) @ ys) = ?s + (65535 - fold_carry ?s)"
    unfolding word_sum_even[OF assms] using word_sum_even[of "be 2 (unat ?c)" ys] c
    by (simp add: word_sum_be16)
  then show ?thesis
    unfolding reference_checksum_def by (simp add: fold_carry_complement)
qed



end
