(* ===== verification/Packets.thy ===== *)
theory Packets
  imports Checksum Results
begin

text \<open>
  The wire formats of \<^verbatim>\<open>crates/kernel/src/net\<close>: Ethernet, ARP, IPv4, UDP and TCP headers, their
  construction and their parsers.  A header is a record of machine words; \<^verbatim>\<open>as_slice\<close> is its byte
  image, all fields big-endian.  Received buffers are heap allocations and all headers start at even
  offsets, so the alignment assertion of \<^verbatim>\<open>ref_from_bytes\<close> holds and is left out.  The constants of
  the generated headers are a parameter.
\<close>

unbundle bit_operations_syntax

datatype ipv4 = Ip byte byte byte byte

datatype mac = Mac byte byte byte byte byte byte

primrec octets :: "ipv4 \<Rightarrow> byte list" where
  "octets (Ip a b c d) = [a, b, c, d]"

primrec mac_bytes :: "mac \<Rightarrow> byte list" where
  "mac_bytes (Mac a b c d e f) = [a, b, c, d, e, f]"

definition ip_of :: "byte list \<Rightarrow> ipv4" where
  "ip_of bs = Ip (bs ! 0) (bs ! 1) (bs ! 2) (bs ! 3)"

definition mac_of :: "byte list \<Rightarrow> mac" where
  "mac_of bs = Mac (bs ! 0) (bs ! 1) (bs ! 2) (bs ! 3) (bs ! 4) (bs ! 5)"

definition BROADCAST_MAC :: mac where "BROADCAST_MAC = Mac 255 255 255 255 255 255"
definition BROADCAST :: ipv4 where "BROADCAST = Ip 255 255 255 255"
definition UNSPECIFIED :: ipv4 where "UNSPECIFIED = Ip 0 0 0 0"

record net_consts =
  IPPROTO_TCP :: byte
  IPPROTO_UDP :: byte
  TH_FIN :: "16 word"
  TH_SYN :: "16 word"
  TH_RST :: "16 word"
  TH_ACK :: "16 word"

text \<open>The address the stack was given and the address of its primary device.\<close>

record net_host =
  ip_addr :: ipv4
  current_mac_address :: mac

definition DRIVER_HEADER_RESERVE :: nat where "DRIVER_HEADER_RESERVE = 12"

definition be16 :: "16 word \<Rightarrow> byte list" where "be16 w = be 2 (unat w)"
definition be32 :: "32 word \<Rightarrow> byte list" where "be32 w = be 4 (unat w)"
definition get16 :: "byte list \<Rightarrow> nat \<Rightarrow> 16 word" where "get16 bs i = word_of_nat (be_val (take 2 (drop i bs)))"
definition get32 :: "byte list \<Rightarrow> nat \<Rightarrow> 32 word" where "get32 bs i = word_of_nat (be_val (take 4 (drop i bs)))"

section \<open>Ethernet\<close>

datatype ether_types = Arp | IPv4

datatype ether_error = EtherTooSmall | UnknownEtherType | UnknownDestinationMac

record ethernet_header =
  destination_mac :: mac
  source_mac :: mac
  ether_type :: "16 word"

definition ether_try_from :: "16 word \<Rightarrow> ether_types option" where
  "ether_try_from v = (if v = 0x0806 then Some Arp else if v = 0x0800 then Some IPv4 else None)"

definition ether_into :: "ether_types \<Rightarrow> 16 word" where
  "ether_into t = (case t of Arp \<Rightarrow> 0x0806 | IPv4 \<Rightarrow> 0x0800)"

definition ethernet_new :: "mac \<Rightarrow> mac \<Rightarrow> ether_types \<Rightarrow> ethernet_header" where
  "ethernet_new d s t = \<lparr>destination_mac = d, source_mac = s, ether_type = ether_into t\<rparr>"

definition ethernet_slice :: "ethernet_header \<Rightarrow> byte list" where
  "ethernet_slice h = mac_bytes (destination_mac h) @ mac_bytes (source_mac h) @ be16 (ether_type h)"

definition ethernet_of :: "byte list \<Rightarrow> ethernet_header" where
  "ethernet_of bs = \<lparr>destination_mac = mac_of bs, source_mac = mac_of (drop 6 bs), ether_type = get16 bs 12\<rparr>"

definition try_parse :: "net_host \<Rightarrow> byte list \<Rightarrow> ether_error + (ethernet_header \<times> byte list)" where
  "try_parse host d =
     (if length d < 14 then Inl EtherTooSmall
      else let header = ethernet_of d; rest = drop 14 d
      in if ether_try_from (ether_type header) = None then Inl UnknownEtherType
         else if destination_mac header \<noteq> current_mac_address host \<and> destination_mac header \<noteq> BROADCAST_MAC
         then Inl UnknownDestinationMac
         else Inr (header, rest))"

section \<open>ARP\<close>

record arp_packet =
  hardware_address_type :: "16 word"
  protocol_address_type :: "16 word"
  hardware_address_length :: byte
  protocol_address_length :: byte
  operation :: "16 word"
  source_mac_address :: mac
  source_ip_address :: ipv4
  destination_mac_address :: mac
  destination_ip_address :: ipv4

definition arp_slice :: "arp_packet \<Rightarrow> byte list" where
  "arp_slice p = be16 (hardware_address_type p) @ be16 (protocol_address_type p)
     @ [hardware_address_length p, protocol_address_length p] @ be16 (operation p)
     @ mac_bytes (source_mac_address p) @ octets (source_ip_address p)
     @ mac_bytes (destination_mac_address p) @ octets (destination_ip_address p)"

definition arp_of :: "byte list \<Rightarrow> arp_packet" where
  "arp_of bs = \<lparr>hardware_address_type = get16 bs 0, protocol_address_type = get16 bs 2,
     hardware_address_length = bs ! 4, protocol_address_length = bs ! 5, operation = get16 bs 6,
     source_mac_address = mac_of (drop 8 bs), source_ip_address = ip_of (drop 14 bs),
     destination_mac_address = mac_of (drop 18 bs), destination_ip_address = ip_of (drop 24 bs)\<rparr>"

definition arp_new_reply :: "net_host \<Rightarrow> mac \<Rightarrow> ipv4 \<Rightarrow> arp_packet" where
  "arp_new_reply host m i = \<lparr>hardware_address_type = 1, protocol_address_type = 0x0800,
     hardware_address_length = 6, protocol_address_length = 4, operation = 2,
     source_mac_address = current_mac_address host, source_ip_address = ip_addr host,
     destination_mac_address = m, destination_ip_address = i\<rparr>"

text \<open>The reply to send, and the cache entry to record.\<close>

definition process_and_respond ::
    "net_host \<Rightarrow> byte list \<Rightarrow> (byte list \<times> ipv4 \<times> mac) option run" where
  "process_and_respond host d = do {
     check (length d \<ge> 28);
     let h = arp_of d;
     check (hardware_address_type h = 1);
     check (protocol_address_type h = 0x0800);
     check (hardware_address_length h = 6);
     check (protocol_address_length h = 4);
     check (operation h = 1);
     Some (if destination_ip_address h \<noteq> ip_addr host then None
       else Some (replicate DRIVER_HEADER_RESERVE 0
                  @ ethernet_slice (ethernet_new (source_mac_address h) (current_mac_address host) Arp)
                  @ arp_slice (arp_new_reply host (source_mac_address h) (source_ip_address h)),
                  source_ip_address h, source_mac_address h))
   }"

section \<open>IPv4\<close>

record ip_header =
  version_and_ihl :: byte
  tos :: byte
  total_packet_length :: "16 word"
  identification :: "16 word"
  flags_and_offset :: "16 word"
  ttl :: byte
  upper_protocol :: byte
  header_checksum :: "16 word"
  source_ip :: ipv4
  destination_ip :: ipv4

definition ip_slice :: "ip_header \<Rightarrow> byte list" where
  "ip_slice h = [version_and_ihl h, tos h] @ be16 (total_packet_length h) @ be16 (identification h)
     @ be16 (flags_and_offset h) @ [ttl h, upper_protocol h] @ be16 (header_checksum h)
     @ octets (source_ip h) @ octets (destination_ip h)"

definition ip_header_of :: "byte list \<Rightarrow> ip_header" where
  "ip_header_of bs = \<lparr>version_and_ihl = bs ! 0, tos = bs ! 1, total_packet_length = get16 bs 2,
     identification = get16 bs 4, flags_and_offset = get16 bs 6, ttl = bs ! 8, upper_protocol = bs ! 9,
     header_checksum = get16 bs 10, source_ip = ip_of (drop 12 bs), destination_ip = ip_of (drop 16 bs)\<rparr>"

definition ip_new :: "net_host \<Rightarrow> ipv4 \<Rightarrow> byte \<Rightarrow> nat \<Rightarrow> ip_header run" where
  "ip_new host dst protocol payload_size = do {
     n \<leftarrow> uadd 20 payload_size;
     check (n < 2 ^ 16);
     Some \<lparr>version_and_ihl = 0x45, tos = 0, total_packet_length = word_of_nat n, identification = 0,
       flags_and_offset = 0, ttl = 128, upper_protocol = protocol, header_checksum = 0,
       source_ip = ip_addr host, destination_ip = dst\<rparr>
   }"

definition calculate_checksum :: "ip_header \<Rightarrow> 16 word run" where
  "calculate_checksum h = ones_complement_checksum [ip_slice h]"

definition ip_process :: "net_consts \<Rightarrow> net_host \<Rightarrow> byte list \<Rightarrow> (ip_header \<times> byte list) option run" where
  "ip_process c host d =
     (if length d < 20 then Some None
      else do {
        let h = ip_header_of d;
        let rest = drop 20 d;
        check (drop_bit 4 (version_and_ihl h) = 4);
        check (version_and_ihl h AND 0x0F = 5);
        check (unat (total_packet_length h) \<le> length d);
        check (flags_and_offset h AND 4 = 0);
        check (destination_ip h = ip_addr host \<or> destination_ip h = BROADCAST \<or> ip_addr host = UNSPECIFIED);
        check (upper_protocol h = IPPROTO_UDP c \<or> upper_protocol h = IPPROTO_TCP c);
        cks \<leftarrow> calculate_checksum h;
        check (cks = 0);
        Some (Some (h, rest))
      })"

section \<open>UDP\<close>

record udp_header =
  udp_source_port :: "16 word"
  udp_destination_port :: "16 word"
  udp_length :: "16 word"
  udp_checksum :: "16 word"

definition udp_slice :: "udp_header \<Rightarrow> byte list" where
  "udp_slice h = be16 (udp_source_port h) @ be16 (udp_destination_port h) @ be16 (udp_length h)
     @ be16 (udp_checksum h)"

definition udp_header_of :: "byte list \<Rightarrow> udp_header" where
  "udp_header_of bs = \<lparr>udp_source_port = get16 bs 0, udp_destination_port = get16 bs 2,
     udp_length = get16 bs 4, udp_checksum = get16 bs 6\<rparr>"

definition udp_compute_checksum :: "byte list \<Rightarrow> udp_header \<Rightarrow> ip_header \<Rightarrow> 16 word run" where
  "udp_compute_checksum d h ip = do {
     n \<leftarrow> usub (unat (udp_length h)) 8;
     check (length d = n);
     ones_complement_checksum
       [octets (source_ip ip) @ octets (destination_ip ip) @ [0, 17] @ be16 (udp_length h), udp_slice h, d]
   }"

definition create_udp_packet ::
    "net_host \<Rightarrow> ipv4 \<Rightarrow> 16 word \<Rightarrow> mac \<Rightarrow> 16 word \<Rightarrow> byte list \<Rightarrow> byte list run" where
  "create_udp_packet host dst dport dmac sport d = do {
     n \<leftarrow> uadd 8 (length d);
     check (n < 2 ^ 16);
     let udp = \<lparr>udp_source_port = sport, udp_destination_port = dport, udp_length = word_of_nat n, udp_checksum = 0\<rparr>;
     ip \<leftarrow> ip_new host dst 17 n;
     cks \<leftarrow> udp_compute_checksum d udp ip;
     let udp = udp\<lparr>udp_checksum := cks\<rparr>;
     cks \<leftarrow> calculate_checksum ip;
     let ip = ip\<lparr>header_checksum := cks\<rparr>;
     let ethernet = ethernet_new dmac (current_mac_address host) IPv4;
     Some (replicate DRIVER_HEADER_RESERVE 0 @ ethernet_slice ethernet @ ip_slice ip @ udp_slice udp @ d)
   }"

definition udp_process :: "byte list \<Rightarrow> ip_header \<Rightarrow> (udp_header \<times> byte list) option run" where
  "udp_process d ip =
     (if length d < 8 then Some None
      else do {
        let h = udp_header_of d;
        let rest = drop 8 d;
        check (length rest + 8 \<ge> unat (udp_length h));
        data_length \<leftarrow> usub (unat (udp_length h)) 8;
        rest \<leftarrow> slice_of rest 0 data_length;
        if udp_checksum h \<noteq> 0 then do {
          cks \<leftarrow> udp_compute_checksum rest h ip;
          check (cks = 0);
          Some (Some (h, rest)) }
        else Some (Some (h, rest))
      })"

section \<open>TCP\<close>

datatype tcp_parse_error = TcpTooSmall | InvalidDataOffset | InvalidChecksum

record tcp_header =
  tcp_source_port :: "16 word"
  tcp_destination_port :: "16 word"
  sequence_number :: "32 word"
  acknowledgment_number :: "32 word"
  data_offset_and_flags :: "16 word"
  window_size :: "16 word"
  tcp_checksum :: "16 word"
  urgent_pointer :: "16 word"

definition tcp_flags :: "tcp_header \<Rightarrow> 16 word" where
  "tcp_flags h = data_offset_and_flags h AND 0x1FF"

definition tcp_slice :: "tcp_header \<Rightarrow> byte list" where
  "tcp_slice h = be16 (tcp_source_port h) @ be16 (tcp_destination_port h) @ be32 (sequence_number h)
     @ be32 (acknowledgment_number h) @ be16 (data_offset_and_flags h) @ be16 (window_size h)
     @ be16 (tcp_checksum h) @ be16 (urgent_pointer h)"

definition tcp_header_of :: "byte list \<Rightarrow> tcp_header" where
  "tcp_header_of bs = \<lparr>tcp_source_port = get16 bs 0, tcp_destination_port = get16 bs 2,
     sequence_number = get32 bs 4, acknowledgment_number = get32 bs 8, data_offset_and_flags = get16 bs 12,
     window_size = get16 bs 14, tcp_checksum = get16 bs 16, urgent_pointer = get16 bs 18\<rparr>"

definition pseudo_header :: "net_consts \<Rightarrow> ip_header \<Rightarrow> nat \<Rightarrow> byte list run" where
  "pseudo_header c ip tcp_length = do {
     check (tcp_length < 2 ^ 16);
     Some (octets (source_ip ip) @ octets (destination_ip ip) @ [0, IPPROTO_TCP c] @ be 2 tcp_length)
   }"

definition tcp_compute_checksum :: "net_consts \<Rightarrow> byte list \<Rightarrow> tcp_header \<Rightarrow> ip_header \<Rightarrow> 16 word run" where
  "tcp_compute_checksum c d h ip = do {
     n \<leftarrow> uadd 20 (length d);
     pseudo \<leftarrow> pseudo_header c ip n;
     ones_complement_checksum [pseudo, tcp_slice h, d]
   }"

definition compute_checksum_raw :: "net_consts \<Rightarrow> byte list \<Rightarrow> ip_header \<Rightarrow> nat \<Rightarrow> 16 word run" where
  "compute_checksum_raw c tcp_bytes ip tcp_length = do {
     pseudo \<leftarrow> pseudo_header c ip tcp_length;
     ones_complement_checksum [pseudo, tcp_bytes]
   }"

definition create_tcp_packet ::
    "net_consts \<Rightarrow> net_host \<Rightarrow> ipv4 \<Rightarrow> mac \<Rightarrow> 16 word \<Rightarrow> 16 word \<Rightarrow> 32 word \<Rightarrow> 32 word \<Rightarrow> 16 word \<Rightarrow> 16 word
     \<Rightarrow> byte list \<Rightarrow> byte list run" where
  "create_tcp_packet c host dst dmac sport dport seq ack flags window d = do {
     let h = \<lparr>tcp_source_port = sport, tcp_destination_port = dport, sequence_number = seq,
       acknowledgment_number = ack, data_offset_and_flags = push_bit 12 5 OR (flags AND 0x1FF),
       window_size = window, tcp_checksum = 0, urgent_pointer = 0\<rparr>;
     n \<leftarrow> uadd 20 (length d);
     ip \<leftarrow> ip_new host dst (IPPROTO_TCP c) n;
     cks \<leftarrow> tcp_compute_checksum c d h ip;
     let h = h\<lparr>tcp_checksum := cks\<rparr>;
     cks \<leftarrow> calculate_checksum ip;
     let ip = ip\<lparr>header_checksum := cks\<rparr>;
     let ethernet = ethernet_new dmac (current_mac_address host) IPv4;
     Some (replicate DRIVER_HEADER_RESERVE 0 @ ethernet_slice ethernet @ ip_slice ip @ tcp_slice h @ d)
   }"

definition tcp_process ::
    "net_consts \<Rightarrow> byte list \<Rightarrow> ip_header \<Rightarrow> (tcp_parse_error + (tcp_header \<times> byte list)) run" where
  "tcp_process c d ip =
     (if length d < 20 then Some (Inl TcpTooSmall)
      else let h = tcp_header_of d;
               data_offset = unat (drop_bit 12 (data_offset_and_flags h));
               header_bytes = data_offset * 4
      in if data_offset < 5 then Some (Inl InvalidDataOffset)
         else if length d < header_bytes then Some (Inl TcpTooSmall)
         else do {
           let payload = drop header_bytes d;
           total_tcp_len \<leftarrow> usub (unat (total_packet_length ip)) 20;
           payload_len \<leftarrow> usub total_tcp_len header_bytes;
           payload \<leftarrow> slice_of payload 0 payload_len;
           tcp_bytes \<leftarrow> slice_of d 0 total_tcp_len;
           computed \<leftarrow> compute_checksum_raw c tcp_bytes ip total_tcp_len;
           if computed \<noteq> 0 then Some (Inl InvalidChecksum) else Some (Inr (h, payload))
         })"

section \<open>Parsers invert the byte images\<close>

lemma length_be_fields [simp]: "length (be16 w) = 2" "length (be32 v) = 4"
  by (simp_all add: be16_def be32_def)

lemma be16_zero: "be16 0 = [0, 0]"
  by (simp add: be16_def be_def numeral_2_eq_2)

lemma get16_at: "length xs = i \<Longrightarrow> get16 (xs @ be16 w @ ys) i = w"
  by (simp add: get16_def be16_def)

lemma get32_at: "length xs = i \<Longrightarrow> get32 (xs @ be32 w @ ys) i = w"
  by (simp add: get32_def be32_def)

lemma length_addresses [simp]: "length (octets i) = 4" "length (mac_bytes m) = 6"
  by (cases i, simp) (cases m, simp)

lemma ip_of_octets [simp]: "ip_of (octets i @ r) = i" "ip_of (octets i) = i"
  by (cases i, simp add: ip_of_def)+

lemma mac_of_bytes [simp]: "mac_of (mac_bytes m @ r) = m"
  by (cases m) (simp add: mac_of_def eval_nat_numeral)

lemma length_slices [simp]:
  "length (ethernet_slice e) = 14" "length (arp_slice a) = 28" "length (ip_slice h) = 20"
  "length (udp_slice u) = 8" "length (tcp_slice t) = 20"
  by (simp_all add: ethernet_slice_def arp_slice_def ip_slice_def udp_slice_def tcp_slice_def)

lemma ethernet_of_slice [simp]: "ethernet_of (ethernet_slice e @ r) = e"
proof -
  have "get16 (ethernet_slice e @ r) 12 = ether_type e"
    using get16_at[of "mac_bytes (destination_mac e) @ mac_bytes (source_mac e)" 12 "ether_type e" r]
    by (simp add: ethernet_slice_def)
  then show ?thesis by (simp add: ethernet_of_def) (simp add: ethernet_slice_def)
qed

lemma ip_header_of_slice [simp]: "ip_header_of (ip_slice h @ r) = h"
proof -
  have g: "get16 (ip_slice h @ r) 2 = total_packet_length h" "get16 (ip_slice h @ r) 4 = identification h"
    "get16 (ip_slice h @ r) 6 = flags_and_offset h" "get16 (ip_slice h @ r) 10 = header_checksum h"
    by (simp_all add: ip_slice_def get16_def be16_def)
  show ?thesis
    by (simp add: ip_header_of_def g) (simp add: ip_slice_def nth_append)
qed

lemma udp_header_of_slice [simp]: "udp_header_of (udp_slice h @ r) = h"
  by (simp add: udp_header_of_def udp_slice_def get16_def be16_def)

lemma tcp_header_of_slice [simp]: "tcp_header_of (tcp_slice h @ r) = h"
  by (simp add: tcp_header_of_def tcp_slice_def get16_def be16_def get32_def be32_def)

lemma arp_of_slice [simp]: "arp_of (arp_slice h @ r) = h"
  by (simp add: arp_of_def arp_slice_def get16_def be16_def nth_append)

section \<open>Checksums of built headers\<close>

lemma ip_checksum_ok:
  assumes "calculate_checksum (h\<lparr>header_checksum := 0\<rparr>) = Some k"
  shows "calculate_checksum (h\<lparr>header_checksum := k\<rparr>) = Some 0"
proof -
  let ?xs = "[version_and_ihl h, tos h] @ be16 (total_packet_length h) @ be16 (identification h)
     @ be16 (flags_and_offset h) @ [ttl h, upper_protocol h]"
  let ?ys = "octets (source_ip h) @ octets (destination_ip h)"
  have z: "concat [ip_slice (h\<lparr>header_checksum := 0\<rparr>)] = ?xs @ [0, 0] @ ?ys"
    and s: "ip_slice (h\<lparr>header_checksum := k\<rparr>) = ?xs @ be 2 (unat k) @ ?ys"
    by (simp_all add: ip_slice_def be16_zero) (simp add: be16_def)
  have k: "k = reference_checksum (?xs @ [0, 0] @ ?ys)"
    using assms checksum_reference[of "[ip_slice (h\<lparr>header_checksum := 0\<rparr>)]"] z
    by (simp add: calculate_checksum_def)
  show ?thesis
    unfolding calculate_checksum_def using checksum_reference[of "[ip_slice (h\<lparr>header_checksum := k\<rparr>)]"]
      checksum_verifies[of ?xs ?ys] s k by simp
qed

lemma transport_checksum_ok:
  assumes "even (length xs)" and "concat slices = xs @ [0, 0] @ ys" and "concat slices' = xs @ be16 k @ ys"
    and "length (concat slices) \<le> 131072" and "ones_complement_checksum slices = Some k"
  shows "ones_complement_checksum slices' = Some 0"
proof -
  have "length (concat slices') \<le> 131072" using assms(2-4) by simp
  from checksum_reference[OF this] have "ones_complement_checksum slices' = Some (reference_checksum (xs @ be16 k @ ys))"
    using assms(3) by simp
  moreover have "k = reference_checksum (xs @ [0, 0] @ ys)"
    using checksum_reference[OF assms(4)] assms(2,5) by simp
  ultimately show ?thesis using checksum_verifies[OF assms(1), of ys] by (simp add: be16_def)
qed

lemma tcp_checksum_ok:
  assumes "tcp_compute_checksum c d (h\<lparr>tcp_checksum := 0\<rparr>) ip = Some k"
  shows "compute_checksum_raw c (tcp_slice (h\<lparr>tcp_checksum := k\<rparr>) @ d) ip (20 + length d) = Some 0"
proof -
  obtain p where p: "pseudo_header c ip (20 + length d) = Some p" "20 + length d < 2 ^ 16"
    and k: "ones_complement_checksum [p, tcp_slice (h\<lparr>tcp_checksum := 0\<rparr>), d] = Some k"
    using assms by (auto simp: tcp_compute_checksum_def pseudo_header_def run_simps)
  let ?xs = "p @ be16 (tcp_source_port h) @ be16 (tcp_destination_port h) @ be32 (sequence_number h)
     @ be32 (acknowledgment_number h) @ be16 (data_offset_and_flags h) @ be16 (window_size h)"
  let ?ys = "be16 (urgent_pointer h) @ d"
  have p12: "length p = 12" using p by (auto simp: pseudo_header_def run_simps)
  have "ones_complement_checksum [p, tcp_slice (h\<lparr>tcp_checksum := k\<rparr>) @ d] = Some 0"
    by (rule transport_checksum_ok[OF _ _ _ _ k, of ?xs ?ys])
      (use p12 p(2) in \<open>simp_all add: tcp_slice_def be16_zero\<close>)
  then show ?thesis by (simp add: compute_checksum_raw_def p)
qed

lemma udp_checksum_ok:
  assumes "udp_compute_checksum d (h\<lparr>udp_checksum := 0\<rparr>) ip = Some k"
  shows "udp_compute_checksum d (h\<lparr>udp_checksum := k\<rparr>) ip = Some 0"
proof -
  let ?p = "octets (source_ip ip) @ octets (destination_ip ip) @ [0, 17] @ be16 (udp_length h)"
  have k: "ones_complement_checksum [?p, udp_slice (h\<lparr>udp_checksum := 0\<rparr>), d] = Some k"
    and n: "8 \<le> unat (udp_length h)" "length d = unat (udp_length h) - 8"
    using assms by (auto simp: udp_compute_checksum_def run_simps)
  let ?xs = "?p @ be16 (udp_source_port h) @ be16 (udp_destination_port h) @ be16 (udp_length h)"
  have "unat (udp_length h) < 65536" using unsigned_less[of "udp_length h", where 'a = nat] by simp
  then have "ones_complement_checksum [?p, udp_slice (h\<lparr>udp_checksum := k\<rparr>), d] = Some 0"
    using n(2)
    by (intro transport_checksum_ok[OF _ _ _ _ k, of ?xs d]) (simp_all add: udp_slice_def be16_zero)
  then show ?thesis using n by (simp add: udp_compute_checksum_def usub_def)
qed


section \<open>Built packets\<close>

lemma checksum_some: "length (concat slices) \<le> 131072 \<Longrightarrow> \<exists>k. ones_complement_checksum slices = Some k"
  using checksum_reference by blast

lemma unat_of_nat16: "v < 2 ^ 16 \<Longrightarrow> unat (word_of_nat v :: 16 word) = v"
  by (simp add: unsigned_of_nat take_bit_nat_eq_self)

lemma ip_new_eq:
  "ip_new host dst proto n = (if 20 + n < 2 ^ 16
     then Some \<lparr>version_and_ihl = 0x45, tos = 0, total_packet_length = word_of_nat (20 + n), identification = 0,
       flags_and_offset = 0, ttl = 128, upper_protocol = proto, header_checksum = 0,
       source_ip = ip_addr host, destination_ip = dst\<rparr> else None)"
  by (simp add: ip_new_def uadd_def)

lemma calculate_checksum_some: "\<exists>k. calculate_checksum h = Some k"
  unfolding calculate_checksum_def by (rule checksum_some) simp

lemma tcp_compute_checksum_some:
  assumes "20 + length d < 2 ^ 16"
  shows "\<exists>k. tcp_compute_checksum c d h ip = Some k"
proof -
  have "\<exists>k. ones_complement_checksum [octets (source_ip ip) @ octets (destination_ip ip) @ [0, IPPROTO_TCP c]
      @ be 2 (20 + length d), tcp_slice h, d] = Some k"
    by (rule checksum_some) (use assms in simp)
  then show ?thesis using assms by (simp add: tcp_compute_checksum_def pseudo_header_def uadd_def)
qed

text \<open>The IP header of a packet of \<^verbatim>\<open>n\<close> payload bytes, complete with its checksum.\<close>

definition ip_built :: "net_host \<Rightarrow> ipv4 \<Rightarrow> byte \<Rightarrow> nat \<Rightarrow> ip_header \<Rightarrow> bool" where
  "ip_built host dst proto n ip \<longleftrightarrow> version_and_ihl ip = 0x45 \<and> unat (total_packet_length ip) = 20 + n
     \<and> flags_and_offset ip = 0 \<and> upper_protocol ip = proto \<and> source_ip ip = ip_addr host
     \<and> destination_ip ip = dst \<and> calculate_checksum ip = Some 0"

lemma ip_built_new:
  assumes "ip_new host dst proto n = Some ip" "calculate_checksum ip = Some k"
  shows "ip_built host dst proto n (ip\<lparr>header_checksum := k\<rparr>)"
proof -
  have ip: "20 + n < 2 ^ 16" "ip = \<lparr>version_and_ihl = 0x45, tos = 0, total_packet_length = word_of_nat (20 + n),
      identification = 0, flags_and_offset = 0, ttl = 128, upper_protocol = proto, header_checksum = 0,
      source_ip = ip_addr host, destination_ip = dst\<rparr>"
    using assms(1) by (auto simp: ip_new_eq split: if_splits)
  have "ip\<lparr>header_checksum := 0\<rparr> = ip" by (simp add: ip(2))
  then have "calculate_checksum (ip\<lparr>header_checksum := k\<rparr>) = Some 0"
    using ip_checksum_ok[of ip k] assms(2) by simp
  moreover have "unat (total_packet_length ip) = 20 + n"
    by (simp only: ip(2) ip_header.select_convs unat_of_nat16[OF ip(1)])
  ultimately show ?thesis by (simp add: ip_built_def ip(2))
qed

lemma create_tcp_packet_spec:
  assumes "40 + length d < 2 ^ 16"
  shows "\<exists>ip h. create_tcp_packet c host dst dmac sport dport seq ack flags window d
      = Some (replicate DRIVER_HEADER_RESERVE 0 @ ethernet_slice (ethernet_new dmac (current_mac_address host) IPv4)
              @ ip_slice ip @ tcp_slice h @ d)
    \<and> ip_built host dst (IPPROTO_TCP c) (20 + length d) ip
    \<and> tcp_source_port h = sport \<and> tcp_destination_port h = dport \<and> sequence_number h = seq
    \<and> acknowledgment_number h = ack \<and> data_offset_and_flags h = push_bit 12 5 OR (flags AND 0x1FF)
    \<and> window_size h = window
    \<and> compute_checksum_raw c (tcp_slice h @ d) ip (20 + length d) = Some 0"
proof -
  let ?h = "\<lparr>tcp_source_port = sport, tcp_destination_port = dport, sequence_number = seq,
       acknowledgment_number = ack, data_offset_and_flags = push_bit 12 5 OR (flags AND 0x1FF),
       window_size = window, tcp_checksum = 0, urgent_pointer = 0\<rparr>"
  obtain ip where ip: "ip_new host dst (IPPROTO_TCP c) (20 + length d) = Some ip"
    using assms by (simp add: ip_new_eq)
  obtain k where k: "tcp_compute_checksum c d ?h ip = Some k"
    using tcp_compute_checksum_some[of d c ?h ip] assms by auto
  obtain j where j: "calculate_checksum ip = Some j" using calculate_checksum_some by blast
  have cks: "compute_checksum_raw c (tcp_slice (?h\<lparr>tcp_checksum := k\<rparr>) @ d) ip (20 + length d) = Some 0"
    using tcp_checksum_ok[of c d ?h ip k] k by simp
  have "compute_checksum_raw c (tcp_slice (?h\<lparr>tcp_checksum := k\<rparr>) @ d) (ip\<lparr>header_checksum := j\<rparr>) (20 + length d) = Some 0"
    using cks by (simp add: compute_checksum_raw_def pseudo_header_def)
  moreover have "create_tcp_packet c host dst dmac sport dport seq ack flags window d
      = Some (replicate DRIVER_HEADER_RESERVE 0 @ ethernet_slice (ethernet_new dmac (current_mac_address host) IPv4)
              @ ip_slice (ip\<lparr>header_checksum := j\<rparr>) @ tcp_slice (?h\<lparr>tcp_checksum := k\<rparr>) @ d)"
    using assms ip k j by (simp add: create_tcp_packet_def uadd_def)
  ultimately show ?thesis using ip_built_new[OF ip j]
    by (intro exI[of _ "ip\<lparr>header_checksum := j\<rparr>"] exI[of _ "?h\<lparr>tcp_checksum := k\<rparr>"]) simp
qed

lemma create_tcp_packet_some:
  "40 + length d < 2 ^ 16 \<Longrightarrow> \<exists>p. create_tcp_packet c host dst dmac sport dport seq ack flags window d = Some p"
  using create_tcp_packet_spec by blast

lemma create_tcp_packet_too_long:
  "2 ^ 16 \<le> 40 + length d \<Longrightarrow> create_tcp_packet c host dst dmac sport dport seq ack flags window d = None"
  by (simp add: create_tcp_packet_def ip_new_eq uadd_def)

lemma udp_compute_checksum_some:
  assumes "8 + length d < 2 ^ 16" "unat (udp_length h) = 8 + length d"
  shows "\<exists>k. udp_compute_checksum d h ip = Some k"
proof -
  have "\<exists>k. ones_complement_checksum [octets (source_ip ip) @ octets (destination_ip ip) @ [0, 17]
      @ be16 (udp_length h), udp_slice h, d] = Some k"
    by (rule checksum_some) (use assms in simp)
  then show ?thesis using assms by (simp add: udp_compute_checksum_def usub_def)
qed

lemma create_udp_packet_spec:
  assumes "28 + length d < 2 ^ 16"
  shows "\<exists>ip h. create_udp_packet host dst dport dmac sport d
      = Some (replicate DRIVER_HEADER_RESERVE 0 @ ethernet_slice (ethernet_new dmac (current_mac_address host) IPv4)
              @ ip_slice ip @ udp_slice h @ d)
    \<and> ip_built host dst 17 (8 + length d) ip
    \<and> udp_source_port h = sport \<and> udp_destination_port h = dport \<and> unat (udp_length h) = 8 + length d
    \<and> udp_compute_checksum d h ip = Some 0"
proof -
  let ?h = "\<lparr>udp_source_port = sport, udp_destination_port = dport, udp_length = word_of_nat (8 + length d), udp_checksum = 0\<rparr>"
  obtain ip where ip: "ip_new host dst 17 (8 + length d) = Some ip"
    using assms by (simp add: ip_new_eq)
  have len: "unat (udp_length ?h) = 8 + length d"
    using assms by (simp only: udp_header.select_convs unat_of_nat16)
  obtain k where k: "udp_compute_checksum d ?h ip = Some k"
    using udp_compute_checksum_some[of d ?h ip] assms len by auto
  obtain j where j: "calculate_checksum ip = Some j" using calculate_checksum_some by blast
  have "udp_compute_checksum d (?h\<lparr>udp_checksum := k\<rparr>) ip = Some 0"
    using udp_checksum_ok[of d ?h ip k] k by simp
  then have "udp_compute_checksum d (?h\<lparr>udp_checksum := k\<rparr>) (ip\<lparr>header_checksum := j\<rparr>) = Some 0"
    by (simp add: udp_compute_checksum_def)
  moreover have "create_udp_packet host dst dport dmac sport d
      = Some (replicate DRIVER_HEADER_RESERVE 0 @ ethernet_slice (ethernet_new dmac (current_mac_address host) IPv4)
              @ ip_slice (ip\<lparr>header_checksum := j\<rparr>) @ udp_slice (?h\<lparr>udp_checksum := k\<rparr>) @ d)"
    using assms ip k j by (simp add: create_udp_packet_def uadd_def)
  ultimately show ?thesis using ip_built_new[OF ip j] len
    by (intro exI[of _ "ip\<lparr>header_checksum := j\<rparr>"] exI[of _ "?h\<lparr>udp_checksum := k\<rparr>"]) simp
qed

section \<open>Accepted packets\<close>

lemma try_parse_built:
  assumes "dmac = current_mac_address host \<or> dmac = BROADCAST_MAC"
  shows "try_parse host (ethernet_slice (ethernet_new dmac smac t) @ r) = Inr (ethernet_new dmac smac t, r)"
  using assms by (cases t) (simp_all add: try_parse_def ethernet_new_def ether_into_def ether_try_from_def)

lemma ip_process_built:
  assumes "ip_built from dst proto n ip" "length r \<ge> n" "proto = IPPROTO_UDP c \<or> proto = IPPROTO_TCP c"
    "dst = ip_addr host \<or> dst = BROADCAST \<or> ip_addr host = UNSPECIFIED"
  shows "ip_process c host (ip_slice ip @ r) = Some (Some (ip, r))"
  using assms by (auto simp: ip_process_def ip_built_def)

lemma tcp_process_built:
  assumes "ip_built from dst proto (20 + length d) ip" "compute_checksum_raw c (tcp_slice h @ d) ip (20 + length d) = Some 0"
    "data_offset_and_flags h = push_bit 12 5 OR (flags AND 0x1FF)"
  shows "tcp_process c (tcp_slice h @ d @ pad) ip = Some (Inr (h, d))"
proof -
  have "drop_bit 12 (data_offset_and_flags h) = 5"
    unfolding assms(3) by (rule bit_eqI) (auto simp: bit_simps)
  then show ?thesis
    using assms(1,2) by (simp add: tcp_process_def ip_built_def usub_def slice_of_def)
qed

lemma tcp_flags_built:
  "data_offset_and_flags h = push_bit 12 5 OR (flags AND 0x1FF) \<Longrightarrow> tcp_flags h = flags AND 0x1FF"
  unfolding tcp_flags_def by (simp add: bit.conj_disj_distrib2 and.assoc)

lemma udp_process_built:
  assumes "unat (udp_length h) = 8 + length d" "udp_compute_checksum d h ip = Some 0"
  shows "udp_process (udp_slice h @ d @ pad) ip = Some (Some (h, d))"
  using assms by (simp add: udp_process_def usub_def slice_of_def)

end
