(* ===== verification/Tcp.thy ===== *)
theory Tcp
  imports Packets ByteStream "HOL-Library.Sublist"
begin

text \<open>
  TCP connections, \<^verbatim>\<open>crates/kernel/src/net/tcp_connection.rs\<close>.  Every connection is served by one kernel
  task.  The task is a state machine: between two polls it waits in the handshake, in the established
  loop or for the acknowledgement of its FIN, and a poll runs it until it waits again or ends.  What a poll
  does to the outside is a list of actions, in order.  Each wait with a timeout starts a new timer, so
  only the first wait of a poll can find its timer expired.
\<close>

unbundle bit_operations_syntax

definition WINDOW_SIZE :: "16 word" where "WINDOW_SIZE = 8192"
definition MAX_RETRANSMITS :: nat where "MAX_RETRANSMITS = 5"

definition allocate_ephemeral_port :: "16 word \<Rightarrow> (16 word \<times> 16 word) run" where
  "allocate_ephemeral_port next_port = do { check (next_port \<ge> 49152); Some (next_port, next_port + 1) }"

definition len_as_seq :: "nat \<Rightarrow> 32 word run" where
  "len_as_seq n = do { check (n < 2 ^ 32); Some (word_of_nat n) }"

record connection_id =
  local_port :: "16 word"
  remote_ip :: ipv4
  remote_port :: "16 word"

record received_segment =
  seg_seq :: "32 word"
  seg_ack :: "32 word"
  seg_flags :: "16 word"
  seg_data :: "byte list"

record 'w tcp_connection =
  tcp_id :: connection_id
  remote_mac :: mac
  send_seq :: "32 word"
  recv_ack :: "32 word"
  recv_buffer :: "byte list"
  recv_waker :: "'w option"
  segment_mailbox :: "received_segment list"
  segment_waker :: "'w option"
  established :: bool
  closed :: bool
  user_close_requested :: bool
  send_buffer :: "byte list"

definition tcp_new :: "connection_id \<Rightarrow> mac \<Rightarrow> 32 word \<Rightarrow> 'w tcp_connection" where
  "tcp_new i m initial_seq = \<lparr>tcp_id = i, remote_mac = m, send_seq = initial_seq, recv_ack = 0,
     recv_buffer = [], recv_waker = None, segment_mailbox = [], segment_waker = None, established = False,
     closed = False, user_close_requested = False, send_buffer = []\<rparr>"

definition deliver_segment ::
    "received_segment \<Rightarrow> 'w tcp_connection \<Rightarrow> 'w option \<times> 'w tcp_connection" where
  "deliver_segment s t = (segment_waker t,
     t\<lparr>segment_mailbox := segment_mailbox t @ [s], segment_waker := None\<rparr>)"

definition recv_data :: "nat \<Rightarrow> 'w tcp_connection \<Rightarrow> byte list \<times> 'w tcp_connection" where
  "recv_data n t = (let k = min n (length (recv_buffer t))
     in (take k (recv_buffer t), t\<lparr>recv_buffer := drop k (recv_buffer t)\<rparr>))"

definition queue_send_data :: "byte list \<Rightarrow> 'w tcp_connection \<Rightarrow> 'w option \<times> 'w tcp_connection" where
  "queue_send_data d t = (segment_waker t, t\<lparr>send_buffer := send_buffer t @ d, segment_waker := None\<rparr>)"

definition request_close :: "'w tcp_connection \<Rightarrow> 'w option \<times> 'w tcp_connection" where
  "request_close t = (segment_waker t, t\<lparr>user_close_requested := True, segment_waker := None\<rparr>)"

record ('w, 'c) tcp_listener =
  backlog :: "'c list"
  listener_waker :: "'w option"

definition listener_new :: "('w, 'c) tcp_listener" where
  "listener_new = \<lparr>backlog = [], listener_waker = None\<rparr>"

definition push_connection :: "'c \<Rightarrow> ('w, 'c) tcp_listener \<Rightarrow> 'w option \<times> ('w, 'c) tcp_listener" where
  "push_connection x l = (listener_waker l, l\<lparr>backlog := backlog l @ [x], listener_waker := None\<rparr>)"

definition wait_for_accept_poll :: "'w \<Rightarrow> ('w, 'c) tcp_listener \<Rightarrow> 'c poll \<times> ('w, 'c) tcp_listener" where
  "wait_for_accept_poll w l = (case backlog l of
     x # r \<Rightarrow> (Ready x, l\<lparr>backlog := r\<rparr>)
   | [] \<Rightarrow> (Pending, l\<lparr>listener_waker := Some w\<rparr>))"

definition wait_for_recv_data_poll ::
    "'w \<Rightarrow> nat \<Rightarrow> 'w tcp_connection \<Rightarrow> byte list poll \<times> 'w tcp_connection" where
  "wait_for_recv_data_poll w n t =
     (if recv_buffer t \<noteq> [] then map_prod Ready id (recv_data n t)
      else if closed t then (Ready [], t)
      else (Pending, t\<lparr>recv_waker := Some w\<rparr>))"

section \<open>The futures of the task\<close>

definition wait_for_segment_poll ::
    "'w \<Rightarrow> 'w tcp_connection \<Rightarrow> received_segment option poll \<times> 'w tcp_connection" where
  "wait_for_segment_poll w t = (case segment_mailbox t of
     s # r \<Rightarrow> (Ready (Some s), t\<lparr>segment_mailbox := r\<rparr>)
   | [] \<Rightarrow> if user_close_requested t \<or> send_buffer t \<noteq> [] then (Ready None, t)
           else (Pending, t\<lparr>segment_waker := Some w\<rparr>))"

definition segment_or_timeout_poll ::
    "'w \<Rightarrow> bool \<Rightarrow> 'w tcp_connection \<Rightarrow> received_segment option poll \<times> 'w tcp_connection" where
  "segment_or_timeout_poll w expired t = (case wait_for_segment_poll w t of
     (Ready s, t) \<Rightarrow> (Ready s, t)
   | (Pending, t) \<Rightarrow> (if expired then Ready None else Pending, t))"

datatype 'w tcp_action = SendPacket "byte list" | WakeReader 'w | Accepted | Cleanup

datatype tcp_task = ServerHandshake "32 word" nat | ClientHandshake "32 word" nat | EstablishedLoop
  | WaitForFinAck nat | Finished

type_synonym 'w tcp_run = "(tcp_task \<times> 'w tcp_connection \<times> 'w tcp_action list) run"

definition and_then :: "'w tcp_action list \<Rightarrow> 'w tcp_run \<Rightarrow> 'w tcp_run" where
  "and_then as r = do { (k, t, bs) \<leftarrow> r; Some (k, t, as @ bs) }"

definition wake_reader :: "'w option \<Rightarrow> 'w tcp_action list" where
  "wake_reader w = (case w of None \<Rightarrow> [] | Some x \<Rightarrow> [WakeReader x])"

definition send_data_packet ::
    "net_consts \<Rightarrow> net_host \<Rightarrow> 'w tcp_connection \<Rightarrow> 16 word \<Rightarrow> 32 word \<Rightarrow> 32 word \<Rightarrow> byte list
     \<Rightarrow> 'w tcp_action list run" where
  "send_data_packet c host t flags seq ack d = do {
     p \<leftarrow> create_tcp_packet c host (remote_ip (tcp_id t)) (remote_mac t) (local_port (tcp_id t))
            (remote_port (tcp_id t)) seq ack flags WINDOW_SIZE d;
     Some [SendPacket p]
   }"

definition send_rst ::
    "net_consts \<Rightarrow> net_host \<Rightarrow> ipv4 \<Rightarrow> mac \<Rightarrow> 16 word \<Rightarrow> 16 word \<Rightarrow> 32 word \<Rightarrow> 32 word \<Rightarrow> 'w tcp_action list run" where
  "send_rst c host ip m sport dport seq ack = do {
     p \<leftarrow> create_tcp_packet c host ip m sport dport seq ack (TH_RST c OR TH_ACK c) 0 [];
     Some [SendPacket p]
   }"

definition flush_send_buffer ::
    "net_consts \<Rightarrow> net_host \<Rightarrow> 'w tcp_connection \<Rightarrow> ('w tcp_connection \<times> 'w tcp_action list) run" where
  "flush_send_buffer c host t =
     (if send_buffer t \<noteq> [] then do {
        n \<leftarrow> len_as_seq (length (send_buffer t));
        p \<leftarrow> send_data_packet c host t (TH_ACK c) (send_seq t) (recv_ack t) (send_buffer t);
        Some (t\<lparr>send_buffer := [], send_seq := send_seq t + n\<rparr>, p) }
      else Some (t, []))"

definition send_fin ::
    "net_consts \<Rightarrow> net_host \<Rightarrow> 'w tcp_connection \<Rightarrow> ('w tcp_connection \<times> 'w tcp_action list) run" where
  "send_fin c host t = do {
     p \<leftarrow> send_data_packet c host t (TH_FIN c OR TH_ACK c) (send_seq t) (recv_ack t) [];
     Some (t\<lparr>send_seq := send_seq t + 1\<rparr>, p)
   }"

section \<open>Closing\<close>

text \<open>The loop of \<^verbatim>\<open>wait_for_fin_ack\<close> and what its callers do after it.\<close>

definition finish :: "'w tcp_connection \<Rightarrow> 'w tcp_run" where
  "finish t = Some (Finished, t\<lparr>closed := True\<rparr>, [Cleanup])"

primrec wait_for_fin_ack ::
    "net_consts \<Rightarrow> net_host \<Rightarrow> 'w \<Rightarrow> nat \<Rightarrow> bool \<Rightarrow> 'w tcp_connection \<Rightarrow> 'w tcp_run" where
  "wait_for_fin_ack c host w 0 expired t = finish t"
| "wait_for_fin_ack c host w (Suc n) expired t = (case segment_or_timeout_poll w expired t of
     (Pending, t) \<Rightarrow> Some (WaitForFinAck (Suc n), t, [])
   | (Ready (Some seg), t) \<Rightarrow>
       if seg_flags seg AND TH_ACK c \<noteq> 0 then
         (if seg_flags seg AND TH_FIN c \<noteq> 0 then do {
            let t = t\<lparr>recv_ack := recv_ack t + 1\<rparr>;
            p \<leftarrow> send_data_packet c host t (TH_ACK c) (send_seq t) (recv_ack t) [];
            and_then p (finish t) }
          else finish t)
       else if seg_flags seg AND TH_RST c \<noteq> 0 then finish t
       else wait_for_fin_ack c host w n False t
   | (Ready None, t) \<Rightarrow> do {
       p \<leftarrow> send_data_packet c host t (TH_FIN c OR TH_ACK c) (send_seq t - 1) (recv_ack t) [];
       and_then p (wait_for_fin_ack c host w n False t) })"

definition user_close :: "net_consts \<Rightarrow> net_host \<Rightarrow> 'w \<Rightarrow> 'w tcp_connection \<Rightarrow> 'w tcp_run" where
  "user_close c host w t = do {
     (t, p) \<leftarrow> flush_send_buffer c host t;
     (t, q) \<leftarrow> send_fin c host t;
     and_then (p @ q) (wait_for_fin_ack c host w MAX_RETRANSMITS False t)
   }"

section \<open>The established loop\<close>

text \<open>
  One received segment: the connection after it, the reader to wake, the acknowledgement to send, and
  whether the segment carried a FIN.
\<close>

definition accept_segment ::
    "net_consts \<Rightarrow> received_segment \<Rightarrow> 'w tcp_connection
     \<Rightarrow> ('w tcp_connection \<times> 'w option \<times> bool \<times> bool) run" where
  "accept_segment c seg t = do {
     (t, waker, need_ack) \<leftarrow> (if seg_data seg \<noteq> [] \<and> seg_seq seg = recv_ack t then do {
         n \<leftarrow> len_as_seq (length (seg_data seg));
         Some (t\<lparr>recv_ack := recv_ack t + n, recv_buffer := recv_buffer t @ seg_data seg, recv_waker := None\<rparr>,
               recv_waker t, True) }
       else Some (t, None, False));
     if seg_flags seg AND TH_FIN c \<noteq> 0 then
       (case waker of
          Some w \<Rightarrow> Some (t\<lparr>recv_ack := recv_ack t + 1, closed := True\<rparr>, Some w, True, True)
        | None \<Rightarrow> Some (t\<lparr>recv_ack := recv_ack t + 1, closed := True, recv_waker := None\<rparr>, recv_waker t, True, True))
     else Some (t, waker, need_ack, False)
   }"

function established_loop :: "net_consts \<Rightarrow> net_host \<Rightarrow> 'w \<Rightarrow> 'w tcp_connection \<Rightarrow> 'w tcp_run" where
  "established_loop c host w t = do {
     (t, p) \<leftarrow> flush_send_buffer c host t;
     case wait_for_segment_poll w t of
       (Pending, t) \<Rightarrow> Some (EstablishedLoop, t, p)
     | (Ready (Some seg), t) \<Rightarrow>
         if seg_flags seg AND TH_RST c \<noteq> 0 then
           Some (Finished, t\<lparr>closed := True, recv_waker := None\<rparr>, p @ wake_reader (recv_waker t) @ [Cleanup])
         else do {
           (t, waker, need_ack, fin) \<leftarrow> accept_segment c seg t;
           q \<leftarrow> (if need_ack then send_data_packet c host t (TH_ACK c) (send_seq t) (recv_ack t) [] else Some []);
           let as = p @ wake_reader waker @ q;
           if fin then Some (Finished, t, as @ [Cleanup])
           else if user_close_requested t then and_then as (user_close c host w t)
           else and_then as (established_loop c host w t)
         }
     | (Ready None, t) \<Rightarrow>
         if user_close_requested t then and_then p (user_close c host w t)
         else and_then p (established_loop c host w t)
   }"
  by pat_completeness auto

lemma flush_send_buffer_keeps:
  assumes "flush_send_buffer c host t = Some (t', p)"
  shows "send_buffer t' = []" "segment_mailbox t' = segment_mailbox t" "recv_buffer t' = recv_buffer t"
    "recv_ack t' = recv_ack t" "user_close_requested t' = user_close_requested t" "recv_waker t' = recv_waker t"
    "tcp_id t' = tcp_id t" "remote_mac t' = remote_mac t" "closed t' = closed t"
  using assms by (auto simp: flush_send_buffer_def run_simps split: if_splits)

lemma wait_for_segment_poll_segment:
  "wait_for_segment_poll w t = (Ready (Some s), t') \<Longrightarrow> segment_mailbox t = s # segment_mailbox t'
    \<and> t' = t\<lparr>segment_mailbox := segment_mailbox t'\<rparr>"
  by (auto simp: wait_for_segment_poll_def split: list.splits if_splits)

lemma wait_for_segment_poll_none:
  "wait_for_segment_poll w t = (Ready None, t') \<Longrightarrow> segment_mailbox t = [] \<and> t' = t
    \<and> (user_close_requested t \<or> send_buffer t \<noteq> [])"
  by (auto simp: wait_for_segment_poll_def split: list.splits if_splits)

lemma wait_for_segment_poll_pending:
  "wait_for_segment_poll w t = (Pending, t') \<Longrightarrow> segment_mailbox t = [] \<and> t' = t\<lparr>segment_waker := Some w\<rparr>
    \<and> \<not> user_close_requested t \<and> send_buffer t = []"
  by (auto simp: wait_for_segment_poll_def split: list.splits if_splits)

lemma accept_segment_mailbox:
  "accept_segment c seg t = Some (t', r) \<Longrightarrow> segment_mailbox t' = segment_mailbox t"
  by (auto simp: accept_segment_def run_simps split: if_splits option.splits)

lemma flush_drained:
  "flush_send_buffer c host t = Some (t', p) \<Longrightarrow> send_buffer t' = [] \<and> segment_mailbox t' = segment_mailbox t"
  using flush_send_buffer_keeps(1,2) by blast

lemma segment_taken:
  "(Ready (Some s), t') = wait_for_segment_poll w t \<Longrightarrow> length (segment_mailbox t) = Suc (length (segment_mailbox t'))"
  using wait_for_segment_poll_segment[of w t s t'] by simp

termination established_loop
  by (relation "measure (\<lambda>(c, host, w, t). length (segment_mailbox t))")
    (auto dest!: flush_drained segment_taken accept_segment_mailbox wait_for_segment_poll_none[OF sym])

declare established_loop.simps [simp del]

section \<open>Handshakes\<close>

text \<open>The first run of \<^verbatim>\<open>server_connection_task\<close>, then its handshake loop.\<close>

definition server_start ::
    "net_consts \<Rightarrow> net_host \<Rightarrow> received_segment \<Rightarrow> 'w tcp_connection
     \<Rightarrow> ('w tcp_connection \<times> 'w tcp_action list) run" where
  "server_start c host initial_syn t = do {
     let t = t\<lparr>recv_ack := seg_seq initial_syn + 1\<rparr>;
     p \<leftarrow> send_data_packet c host t (TH_SYN c OR TH_ACK c) (send_seq t) (recv_ack t) [];
     Some (t, p)
   }"

function server_handshake ::
    "net_consts \<Rightarrow> net_host \<Rightarrow> 'w \<Rightarrow> 32 word \<Rightarrow> nat \<Rightarrow> bool \<Rightarrow> 'w tcp_connection \<Rightarrow> 'w tcp_run" where
  "server_handshake c host w iss retransmits expired t = (case segment_or_timeout_poll w expired t of
     (Pending, t) \<Rightarrow> Some (ServerHandshake iss retransmits, t, [])
   | (Ready (Some seg), t) \<Rightarrow>
       if seg_flags seg AND TH_ACK c \<noteq> 0 \<and> seg_ack seg = iss + 1 then
         and_then (wake_reader (recv_waker t) @ [Accepted])
           (established_loop c host w (t\<lparr>send_seq := iss + 1, established := True, recv_waker := None\<rparr>))
       else if seg_flags seg AND TH_RST c \<noteq> 0 then Some (Finished, t, [Cleanup])
       else server_handshake c host w iss retransmits False t
   | (Ready None, t) \<Rightarrow>
       if retransmits + 1 \<ge> MAX_RETRANSMITS then Some (Finished, t, [Cleanup])
       else do {
         p \<leftarrow> send_data_packet c host t (TH_SYN c OR TH_ACK c) iss (recv_ack t) [];
         and_then p (server_handshake c host w iss (retransmits + 1) False t) })"
  by pat_completeness auto

lemma segment_or_timeout_segment:
  "segment_or_timeout_poll w e t = (Ready (Some s), t') \<Longrightarrow> segment_mailbox t = s # segment_mailbox t'
    \<and> t' = t\<lparr>segment_mailbox := segment_mailbox t'\<rparr>"
  by (auto simp: segment_or_timeout_poll_def wait_for_segment_poll_def split: list.splits if_splits)

lemma segment_or_timeout_none:
  "segment_or_timeout_poll w e t = (Ready None, t') \<Longrightarrow> segment_mailbox t = []
    \<and> (t' = t \<or> e \<and> t' = t\<lparr>segment_waker := Some w\<rparr>)"
  by (auto simp: segment_or_timeout_poll_def wait_for_segment_poll_def split: list.splits if_splits)

lemma segment_taken_timeout:
  "(Ready (Some s), t') = segment_or_timeout_poll w e t \<Longrightarrow> length (segment_mailbox t) = Suc (length (segment_mailbox t'))"
  using segment_or_timeout_segment[of w e t s t'] by simp

termination server_handshake
  by (relation "measure (\<lambda>(c, host, w, iss, r, e, t). length (segment_mailbox t) + (MAX_RETRANSMITS - r))")
    (auto dest!: segment_taken_timeout segment_or_timeout_none[OF sym])

declare server_handshake.simps [simp del]

text \<open>
  \<^verbatim>\<open>initiate_connect\<close> after its first SYN.  On success the established loop is spawned as a new task,
  which is polled later.
\<close>

function client_handshake ::
    "net_consts \<Rightarrow> net_host \<Rightarrow> 'w \<Rightarrow> 32 word \<Rightarrow> nat \<Rightarrow> bool \<Rightarrow> 'w tcp_connection \<Rightarrow> 'w tcp_run" where
  "client_handshake c host w iss retransmits expired t = (case segment_or_timeout_poll w expired t of
     (Pending, t) \<Rightarrow> Some (ClientHandshake iss retransmits, t, [])
   | (Ready (Some seg), t) \<Rightarrow>
       if seg_flags seg AND TH_SYN c \<noteq> 0 \<and> seg_flags seg AND TH_ACK c \<noteq> 0 then do {
         let t = t\<lparr>recv_ack := seg_seq seg + 1, send_seq := iss + 1, established := True\<rparr>;
         p \<leftarrow> send_data_packet c host t (TH_ACK c) (send_seq t) (recv_ack t) [];
         Some (EstablishedLoop, t, p @ [Accepted]) }
       else if seg_flags seg AND TH_RST c \<noteq> 0 then Some (Finished, t, [Cleanup])
       else client_handshake c host w iss retransmits False t
   | (Ready None, t) \<Rightarrow>
       if retransmits + 1 \<ge> MAX_RETRANSMITS then Some (Finished, t, [Cleanup])
       else do {
         p \<leftarrow> send_data_packet c host t (TH_SYN c) iss 0 [];
         and_then p (client_handshake c host w iss (retransmits + 1) False t) })"
  by pat_completeness auto
termination
  by (relation "measure (\<lambda>(c, host, w, iss, r, e, t). length (segment_mailbox t) + (MAX_RETRANSMITS - r))")
    (auto dest!: segment_taken_timeout segment_or_timeout_none[OF sym])

declare client_handshake.simps [simp del]

definition poll_task :: "net_consts \<Rightarrow> net_host \<Rightarrow> 'w \<Rightarrow> bool \<Rightarrow> tcp_task \<Rightarrow> 'w tcp_connection \<Rightarrow> 'w tcp_run" where
  "poll_task c host w expired k t = (case k of
     ServerHandshake iss r \<Rightarrow> server_handshake c host w iss r expired t
   | ClientHandshake iss r \<Rightarrow> client_handshake c host w iss r expired t
   | EstablishedLoop \<Rightarrow> established_loop c host w t
   | WaitForFinAck n \<Rightarrow> wait_for_fin_ack c host w n expired t
   | Finished \<Rightarrow> Some (Finished, t, []))"

section \<open>The connection table\<close>

record 'w tcp_state =
  connections :: "connection_id \<rightharpoonup> tcp_task \<times> 'w tcp_connection"
  listeners :: "16 word \<rightharpoonup> ('w, connection_id) tcp_listener"

definition register_listener :: "16 word \<Rightarrow> 'w tcp_state \<Rightarrow> 'w tcp_state" where
  "register_listener port st = st\<lparr>listeners := (listeners st)(port \<mapsto> listener_new)\<rparr>"

definition initiate_connect ::
    "net_consts \<Rightarrow> net_host \<Rightarrow> (ipv4 \<rightharpoonup> mac) \<Rightarrow> 32 word \<Rightarrow> connection_id \<Rightarrow> 'w tcp_state
     \<Rightarrow> ('w tcp_action list \<times> 'w tcp_state) option run" where
  "initiate_connect c host arp iss i st = (case arp (remote_ip i) of
     None \<Rightarrow> Some None
   | Some m \<Rightarrow> do {
       let t = tcp_new i m iss;
       p \<leftarrow> send_data_packet c host t (TH_SYN c) iss 0 [];
       Some (Some (p, st\<lparr>connections := (connections st)(i \<mapsto> (ClientHandshake iss 0, t))\<rparr>)) })"

definition process_tcp_packet ::
    "net_consts \<Rightarrow> net_host \<Rightarrow> 32 word \<Rightarrow> ip_header \<Rightarrow> byte list \<Rightarrow> mac \<Rightarrow> 'w tcp_state
     \<Rightarrow> ('w tcp_action list \<times> 'w option \<times> 'w tcp_state) run" where
  "process_tcp_packet c host iss ip d m st = do {
     r \<leftarrow> tcp_process c d ip;
     case r of Inl e \<Rightarrow> Some ([], None, st)
     | Inr (h, payload) \<Rightarrow> do {
         let conn_id = \<lparr>local_port = tcp_destination_port h, remote_ip = source_ip ip, remote_port = tcp_source_port h\<rparr>;
         let segment = \<lparr>seg_seq = sequence_number h, seg_ack = acknowledgment_number h, seg_flags = tcp_flags h,
                        seg_data = payload\<rparr>;
         case connections st conn_id of
           Some (k, t) \<Rightarrow>
             (let (wk, t) = deliver_segment segment t
              in Some ([], wk, st\<lparr>connections := (connections st)(conn_id \<mapsto> (k, t))\<rparr>))
         | None \<Rightarrow>
             if seg_flags segment AND TH_SYN c \<noteq> 0 \<and> listeners st (local_port conn_id) \<noteq> None then do {
               (t, p) \<leftarrow> server_start c host segment (tcp_new conn_id m iss);
               Some (p, None, st\<lparr>connections := (connections st)(conn_id \<mapsto> (ServerHandshake iss 0, t))\<rparr>) }
             else do {
               n \<leftarrow> len_as_seq (length payload);
               n \<leftarrow> add32 (unat n) (if seg_flags segment AND TH_SYN c \<noteq> 0 then 1 else 0);
               p \<leftarrow> send_rst c host (source_ip ip) m (tcp_destination_port h) (tcp_source_port h)
                      (acknowledgment_number h) (sequence_number h + word_of_nat n);
               Some (p, None, st) } }
   }"

section \<open>In-order delivery\<close>

text \<open>
  The peer sends the bytes \<^verbatim>\<open>D\<close>, the first of them with sequence number \<^verbatim>\<open>base\<close>.  A segment of the peer
  is honest if its data are the part of \<^verbatim>\<open>D\<close> that its sequence number says.  The network may drop,
  repeat and reorder honest segments.
\<close>

definition honest :: "net_consts \<Rightarrow> byte list \<Rightarrow> 32 word \<Rightarrow> received_segment \<Rightarrow> bool" where
  "honest c D base s \<longleftrightarrow>
     (if seg_flags s AND TH_SYN c \<noteq> 0 then seg_seq s = base - 1 \<and> seg_data s = []
      else \<exists>i. seg_seq s = base + word_of_nat i \<and> i \<le> length D \<and> seg_data s = take (length (seg_data s)) (drop i D))"

definition in_step :: "32 word \<Rightarrow> byte list \<Rightarrow> 'w tcp_connection \<Rightarrow> bool" where
  "in_step base got t \<longleftrightarrow> recv_ack t = base + word_of_nat (length (got @ recv_buffer t))"

definition rx_inv ::
    "net_consts \<Rightarrow> byte list \<Rightarrow> 32 word \<Rightarrow> tcp_task \<Rightarrow> 'w tcp_connection \<Rightarrow> byte list \<Rightarrow> bool" where
  "rx_inv c D base k t got \<longleftrightarrow> prefix (got @ recv_buffer t) D
     \<and> list_all (honest c D base) (segment_mailbox t)
     \<and> (case k of ClientHandshake _ _ \<Rightarrow> got @ recv_buffer t = []
        | ServerHandshake _ _ \<Rightarrow> in_step base got t | EstablishedLoop \<Rightarrow> in_step base got t | _ \<Rightarrow> True)"

lemma honest_data:
  assumes "honest c D base s" "seg_data s \<noteq> []" "length D < 2 ^ 32" "p \<le> length D"
    "seg_seq s = base + word_of_nat p"
  shows "prefix (take p D @ seg_data s) D"
proof -
  obtain i where i: "seg_seq s = base + word_of_nat i" "i \<le> length D"
      "seg_data s = take (length (seg_data s)) (drop i D)"
    using assms(1,2) by (auto simp: honest_def split: if_splits)
  have "(word_of_nat i :: 32 word) = word_of_nat p" using i(1) assms(5) by simp
  then have "i = p" using i(2) assms(3,4)
    by (simp add: word_of_nat_eq_iff take_bit_nat_eq_self)
  then have "take p D @ seg_data s = take (p + length (seg_data s)) D"
    using i(3) by (metis take_add)
  then show ?thesis by (simp add: take_is_prefix)
qed

lemma accept_segment_in_step:
  assumes "accept_segment c seg t = Some (t', wk, na, fin)" "honest c D base seg" "length D < 2 ^ 32"
    "prefix (got @ recv_buffer t) D" "in_step base got t"
  shows "prefix (got @ recv_buffer t') D" "\<not> fin \<Longrightarrow> in_step base got t'"
proof -
  have p: "take (length (got @ recv_buffer t)) D = got @ recv_buffer t" "length (got @ recv_buffer t) \<le> length D"
    using assms(4) by (auto simp: prefix_def)
  have "prefix (got @ recv_buffer t') D \<and> (\<not> fin \<longrightarrow> in_step base got t')"
  proof (cases "seg_data seg \<noteq> [] \<and> seg_seq seg = recv_ack t")
    case True
    then have "prefix ((got @ recv_buffer t) @ seg_data seg) D"
      using honest_data[OF assms(2) _ assms(3) p(2)] assms(5) p(1) by (simp add: in_step_def)
    moreover have "recv_buffer t' = recv_buffer t @ seg_data seg"
      using assms(1) True by (auto simp: accept_segment_def run_simps split: if_splits option.splits)
    moreover have "recv_ack t' = recv_ack t + word_of_nat (length (seg_data seg))" if "\<not> fin"
      using assms(1) True that
      by (auto simp: accept_segment_def len_as_seq_def run_simps split: if_splits option.splits)
    ultimately show ?thesis using assms(5) by (simp add: in_step_def add.assoc)
  next
    case False
    then have "recv_buffer t' = recv_buffer t" "\<not> fin \<longrightarrow> recv_ack t' = recv_ack t"
      using assms(1) by (auto simp: accept_segment_def run_simps split: if_splits option.splits)
    then show ?thesis using assms(4,5) by (simp add: in_step_def)
  qed
  then show "prefix (got @ recv_buffer t') D" "\<not> fin \<Longrightarrow> in_step base got t'" by blast+
qed

lemma and_then_eq_Some [run_simps]:
  "and_then as r = Some (k, t, bs) \<longleftrightarrow> (\<exists>cs. r = Some (k, t, cs) \<and> bs = as @ cs)"
  by (auto simp: and_then_def run_simps)

text \<open>Closing keeps what was received, and nothing is received after it.\<close>

lemma wait_for_fin_ack_keeps:
  "wait_for_fin_ack c host w n e t = Some (k', t', as) \<Longrightarrow>
     recv_buffer t' = recv_buffer t \<and> (list_all P (segment_mailbox t) \<longrightarrow> list_all P (segment_mailbox t'))
     \<and> (k' = Finished \<or> (\<exists>m. k' = WaitForFinAck m))"
proof (induction n arbitrary: e t as)
  case (Suc n)
  obtain r t1 where r: "segment_or_timeout_poll w e t = (r, t1)" by fastforce
  have k: "recv_buffer t1 = recv_buffer t" "list_all P (segment_mailbox t) \<longrightarrow> list_all P (segment_mailbox t1)"
    using r by (auto simp: segment_or_timeout_poll_def wait_for_segment_poll_def
        split: list.splits if_splits)
  show ?case using Suc.prems r k
    by (auto simp: finish_def Let_def run_simps split: poll.splits option.splits if_splits dest!: Suc.IH)
qed (auto simp: finish_def)

lemma user_close_keeps:
  assumes "user_close c host w t = Some (k', t', as)"
  shows "recv_buffer t' = recv_buffer t \<and> (list_all P (segment_mailbox t) \<longrightarrow> list_all P (segment_mailbox t'))
     \<and> (k' = Finished \<or> (\<exists>m. k' = WaitForFinAck m))"
proof -
  obtain t1 p t2 q cs where f: "flush_send_buffer c host t = Some (t1, p)" "send_fin c host t1 = Some (t2, q)"
      "wait_for_fin_ack c host w MAX_RETRANSMITS False t2 = Some (k', t', cs)"
    using assms by (auto simp: user_close_def run_simps)
  have "recv_buffer t2 = recv_buffer t1" "segment_mailbox t2 = segment_mailbox t1"
    using f(2) by (auto simp: send_fin_def run_simps)
  then show ?thesis using wait_for_fin_ack_keeps[OF f(3), of P] flush_send_buffer_keeps(2,3)[OF f(1)] by simp
qed

lemma established_loop_flush:
  "established_loop c host w t = Some x \<Longrightarrow> \<exists>t1 p. flush_send_buffer c host t = Some (t1, p)"
  by (subst (asm) established_loop.simps) (auto simp: bind_eq_Some_conv)

lemma established_loop_pending:
  assumes "flush_send_buffer c host t = Some (t1, p)" "wait_for_segment_poll w t1 = (Pending, t2)"
  shows "established_loop c host w t = Some (EstablishedLoop, t2, p)"
  by (subst established_loop.simps) (simp add: assms)

lemma established_loop_none:
  assumes "flush_send_buffer c host t = Some (t1, p)" "wait_for_segment_poll w t1 = (Ready None, t2)"
  shows "t2 = t1 \<and> established_loop c host w t = and_then p (user_close c host w t1)"
proof -
  have "t2 = t1" "user_close_requested t1"
    using wait_for_segment_poll_none[OF assms(2)] flush_send_buffer_keeps(1)[OF assms(1)] by blast+
  then show ?thesis by (subst established_loop.simps) (simp add: assms)
qed

lemma established_loop_rst:
  assumes "flush_send_buffer c host t = Some (t1, p)" "wait_for_segment_poll w t1 = (Ready (Some seg), t2)"
    "seg_flags seg AND TH_RST c \<noteq> 0"
  shows "established_loop c host w t
    = Some (Finished, t2\<lparr>closed := True, recv_waker := None\<rparr>, p @ wake_reader (recv_waker t2) @ [Cleanup])"
  by (subst established_loop.simps) (simp add: assms)

lemma established_loop_segment:
  assumes "flush_send_buffer c host t = Some (t1, p)" "wait_for_segment_poll w t1 = (Ready (Some seg), t2)"
    "seg_flags seg AND TH_RST c = 0" "accept_segment c seg t2 = Some (t3, wk, na, fin)"
    "(if na then send_data_packet c host t3 (TH_ACK c) (send_seq t3) (recv_ack t3) [] else Some []) = Some q"
  shows "established_loop c host w t =
    (if fin then Some (Finished, t3, p @ wake_reader wk @ q @ [Cleanup])
     else if user_close_requested t3 then and_then (p @ wake_reader wk @ q) (user_close c host w t3)
     else and_then (p @ wake_reader wk @ q) (established_loop c host w t3))"
  by (subst established_loop.simps) (simp add: assms)

lemma established_loop_accepts:
  assumes "established_loop c host w t = Some x" "flush_send_buffer c host t = Some (t1, p)"
    "wait_for_segment_poll w t1 = (Ready (Some seg), t2)" "seg_flags seg AND TH_RST c = 0"
  shows "\<exists>t3 wk na fin q. accept_segment c seg t2 = Some (t3, wk, na, fin)
    \<and> (if na then send_data_packet c host t3 (TH_ACK c) (send_seq t3) (recv_ack t3) [] else Some []) = Some q"
proof (rule ccontr)
  assume n: "\<not> ?thesis"
  have "established_loop c host w t = None"
  proof (cases "accept_segment c seg t2")
    case None
    then show ?thesis by (subst established_loop.simps) (simp add: assms)
  next
    case (Some r)
    then obtain t3 wk na fin where r: "accept_segment c seg t2 = Some (t3, wk, na, fin)" by (cases r) auto
    then have "(if na then send_data_packet c host t3 (TH_ACK c) (send_seq t3) (recv_ack t3) [] else Some []) = None"
      using n by (metis option.exhaust)
    then show ?thesis by (subst established_loop.simps) (simp add: assms r)
  qed
  then show False using assms(1) by simp
qed

lemma rx_inv_closing:
  assumes "user_close c host w t = Some (k', t', as)" "prefix (got @ recv_buffer t) D"
    "list_all (honest c D base) (segment_mailbox t)"
  shows "rx_inv c D base k' t' got"
  using user_close_keeps[OF assms(1), of "honest c D base"] assms(2,3) by (auto simp: rx_inv_def)

lemma established_loop_inv:
  assumes "established_loop c host w t = Some (k', t', as)" "rx_inv c D base EstablishedLoop t got"
    "length D < 2 ^ 32"
  shows "rx_inv c D base k' t' got"
  using assms(1,2)
proof (induction "length (segment_mailbox t)" arbitrary: t as rule: less_induct)
  case less
  obtain t1 p where f: "flush_send_buffer c host t = Some (t1, p)"
    using established_loop_flush[OF less.prems(1)] by blast
  note keep = flush_send_buffer_keeps[OF f]
  have inv1: "rx_inv c D base EstablishedLoop t1 got"
    using less.prems(2) keep by (simp add: rx_inv_def in_step_def)
  obtain r t2 where r: "wait_for_segment_poll w t1 = (r, t2)" by fastforce
  consider "r = Pending" | "r = Ready None" | seg where "r = Ready (Some seg)"
    by (metis option.exhaust poll.exhaust)
  then show ?case
  proof cases
    case 1
    note r = r[unfolded 1]
    have "t2 = t1\<lparr>segment_waker := Some w\<rparr>" using wait_for_segment_poll_pending[OF r] by blast
    moreover have "k' = EstablishedLoop" "t' = t2" using less.prems(1) established_loop_pending[OF f r] by simp_all
    ultimately show ?thesis using inv1 by (simp add: rx_inv_def in_step_def)
  next
    case 2
    then obtain cs where "user_close c host w t1 = Some (k', t', cs)"
      using less.prems(1) established_loop_none[OF f] r by (auto simp: and_then_eq_Some)
    then show ?thesis using inv1 by (intro rx_inv_closing) (auto simp: rx_inv_def)
  next
    case (3 seg)
    note r = r[unfolded 3]
    have s: "segment_mailbox t1 = seg # segment_mailbox t2" "recv_buffer t2 = recv_buffer t1" "recv_ack t2 = recv_ack t1"
      using r by (auto simp: wait_for_segment_poll_def split: list.splits if_splits)
    have inv2: "prefix (got @ recv_buffer t2) D" "in_step base got t2" "honest c D base seg"
        "list_all (honest c D base) (segment_mailbox t2)"
      using inv1 s by (auto simp: rx_inv_def in_step_def)
    show ?thesis
    proof (cases "seg_flags seg AND TH_RST c = 0")
      case False
      then show ?thesis using less.prems(1) established_loop_rst[OF f r] inv2 by (auto simp: rx_inv_def)
    next
      case True
      then obtain t3 wk na fin q where a: "accept_segment c seg t2 = Some (t3, wk, na, fin)"
          "(if na then send_data_packet c host t3 (TH_ACK c) (send_seq t3) (recv_ack t3) [] else Some []) = Some q"
        using established_loop_accepts[OF less.prems(1) f r] by blast
      note eq = established_loop_segment[OF f r True a]
      note acc = accept_segment_in_step[OF a(1) inv2(3) assms(3) inv2(1,2)]
      have box: "segment_mailbox t3 = segment_mailbox t2" by (rule accept_segment_mailbox[OF a(1)])
      consider "fin" | "\<not> fin" "user_close_requested t3" | "\<not> fin" "\<not> user_close_requested t3" by blast
      then show ?thesis
      proof cases
        case 1
        then show ?thesis using less.prems(1) eq acc(1) box inv2(4) by (auto simp: rx_inv_def)
      next
        case 2
        then obtain cs where u: "user_close c host w t3 = Some (k', t', cs)"
          using less.prems(1) eq by (auto simp: and_then_eq_Some)
        show ?thesis by (rule rx_inv_closing[OF u acc(1)]) (simp add: box inv2(4))
      next
        case 3
        then obtain cs where "established_loop c host w t3 = Some (k', t', cs)"
          using less.prems(1) eq by (auto simp: and_then_eq_Some)
        moreover have "rx_inv c D base EstablishedLoop t3 got"
          using acc 3 box inv2(4) by (simp add: rx_inv_def)
        moreover have "length (segment_mailbox t3) < length (segment_mailbox t)"
          using box s(1) keep(2) by simp
        ultimately show ?thesis using less.hyps by blast
      qed
    qed
  qed
qed

lemma segment_or_timeout_keeps:
  assumes "segment_or_timeout_poll w e t = (r, t')"
  shows "recv_buffer t' = recv_buffer t" "recv_ack t' = recv_ack t"
    "list_all P (segment_mailbox t) \<Longrightarrow> list_all P (segment_mailbox t')"
    "list_all P (segment_mailbox t) \<Longrightarrow> r = Ready (Some s) \<Longrightarrow> P s"
  using assms
  by (auto simp: segment_or_timeout_poll_def wait_for_segment_poll_def split: list.splits if_splits)

lemma rx_inv_seg:
  assumes "segment_or_timeout_poll w e t = (r, t')" "rx_inv c D base k t got"
  shows "rx_inv c D base k t' got"
  using assms(2) segment_or_timeout_keeps[OF assms(1)]
  by (auto simp: rx_inv_def in_step_def split: tcp_task.splits)

lemma rx_inv_task:
  "rx_inv c D base (ServerHandshake i n) t got \<Longrightarrow> rx_inv c D base (ServerHandshake j m) t got"
  "rx_inv c D base (ClientHandshake i n) t got \<Longrightarrow> rx_inv c D base (ClientHandshake j m) t got"
  "rx_inv c D base k t got \<Longrightarrow> rx_inv c D base Finished t got"
  by (simp_all add: rx_inv_def)

lemma server_handshake_inv:
  assumes "server_handshake c host w iss n e t = Some (k', t', as)" "rx_inv c D base (ServerHandshake iss n) t got"
    "length D < 2 ^ 32"
  shows "rx_inv c D base k' t' got"
  using assms(1,2)
proof (induction c host w iss n e t arbitrary: as rule: server_handshake.induct)
  case (1 c host w iss n e t)
  obtain r t1 where r: "segment_or_timeout_poll w e t = (r, t1)" by fastforce
  have inv1: "rx_inv c D base (ServerHandshake iss n) t1 got" by (rule rx_inv_seg[OF r "1.prems"(2)])
  note run = "1.prems"(1)[unfolded server_handshake.simps[of c host w iss n e t] r prod.case]
  consider "r = Pending" | "r = Ready None" | seg where "r = Ready (Some seg)"
    by (metis option.exhaust poll.exhaust)
  then show ?case
  proof cases
    case 1
    then show ?thesis using run inv1 by simp
  next
    case 2
    show ?thesis
    proof (cases "n + 1 \<ge> MAX_RETRANSMITS")
      case True
      then show ?thesis using run 2 inv1 by (auto intro: rx_inv_task)
    next
      case False
      then obtain p cs where "server_handshake c host w iss (n + 1) False t1 = Some (k', t', cs)"
          "send_data_packet c host t1 (TH_SYN c OR TH_ACK c) iss (recv_ack t1) [] = Some p"
        using run 2 by (auto simp: bind_eq_Some_conv and_then_eq_Some)
      then show ?thesis using "1.IH"(1)[OF r[symmetric] 2 refl False] rx_inv_task(1)[OF inv1] by blast
    qed
  next
    case (3 seg)
    consider "seg_flags seg AND TH_ACK c \<noteq> 0 \<and> seg_ack seg = iss + 1"
      | "\<not> (seg_flags seg AND TH_ACK c \<noteq> 0 \<and> seg_ack seg = iss + 1)" "seg_flags seg AND TH_RST c \<noteq> 0"
      | "\<not> (seg_flags seg AND TH_ACK c \<noteq> 0 \<and> seg_ack seg = iss + 1)" "seg_flags seg AND TH_RST c = 0" by blast
    then show ?thesis
    proof cases
      case 1
      let ?t = "t1\<lparr>send_seq := iss + 1, established := True, recv_waker := None\<rparr>"
      obtain cs where e: "established_loop c host w ?t = Some (k', t', cs)"
        using run 3 1 by (auto simp: and_then_eq_Some)
      have "rx_inv c D base EstablishedLoop ?t got" using inv1 by (simp add: rx_inv_def in_step_def)
      then show ?thesis by (rule established_loop_inv[OF e _ assms(3)])
    next
      case 2
      then show ?thesis using run 3 inv1 by (auto intro: rx_inv_task)
    next
      case rest: 3
      then have "server_handshake c host w iss n False t1 = Some (k', t', as)" using run 3 by auto
      then show ?thesis using "1.IH"(2)[OF r[symmetric] 3 refl] rest inv1 by blast
    qed
  qed
qed

lemma client_handshake_inv:
  assumes "client_handshake c host w iss n e t = Some (k', t', as)" "rx_inv c D base (ClientHandshake iss n) t got"
  shows "rx_inv c D base k' t' got"
  using assms
proof (induction c host w iss n e t arbitrary: as rule: client_handshake.induct)
  case (1 c host w iss n e t)
  obtain r t1 where r: "segment_or_timeout_poll w e t = (r, t1)" by fastforce
  have inv1: "rx_inv c D base (ClientHandshake iss n) t1 got" by (rule rx_inv_seg[OF r "1.prems"(2)])
  note run = "1.prems"(1)[unfolded client_handshake.simps[of c host w iss n e t] r prod.case]
  consider "r = Pending" | "r = Ready None" | seg where "r = Ready (Some seg)"
    by (metis option.exhaust poll.exhaust)
  then show ?case
  proof cases
    case 1
    then show ?thesis using run inv1 by simp
  next
    case 2
    show ?thesis
    proof (cases "n + 1 \<ge> MAX_RETRANSMITS")
      case True
      then show ?thesis using run 2 inv1 by (auto intro: rx_inv_task)
    next
      case False
      then obtain p cs where "client_handshake c host w iss (n + 1) False t1 = Some (k', t', cs)"
          "send_data_packet c host t1 (TH_SYN c) iss 0 [] = Some p"
        using run 2 by (auto simp: bind_eq_Some_conv and_then_eq_Some)
      then show ?thesis using "1.IH"(1)[OF r[symmetric] 2 refl False] rx_inv_task(2)[OF inv1] by blast
    qed
  next
    case (3 seg)
    have h: "honest c D base seg"
      using segment_or_timeout_keeps(4)[OF r _ 3, of "honest c D base"] "1.prems"(2) by (simp add: rx_inv_def)
    consider "seg_flags seg AND TH_SYN c \<noteq> 0 \<and> seg_flags seg AND TH_ACK c \<noteq> 0"
      | "\<not> (seg_flags seg AND TH_SYN c \<noteq> 0 \<and> seg_flags seg AND TH_ACK c \<noteq> 0)" "seg_flags seg AND TH_RST c \<noteq> 0"
      | "\<not> (seg_flags seg AND TH_SYN c \<noteq> 0 \<and> seg_flags seg AND TH_ACK c \<noteq> 0)" "seg_flags seg AND TH_RST c = 0" by blast
    then show ?thesis
    proof cases
      case 1
      then have "seg_seq seg + 1 = base" using h by (simp add: honest_def)
      then show ?thesis using run 3 1 inv1
        by (auto simp: Let_def bind_eq_Some_conv rx_inv_def in_step_def)
    next
      case 2
      then show ?thesis using run 3 inv1 by (auto intro: rx_inv_task)
    next
      case rest: 3
      then have "client_handshake c host w iss n False t1 = Some (k', t', as)" using run 3 by auto
      then show ?thesis using "1.IH"(2)[OF r[symmetric] 3 refl] rest inv1 by blast
    qed
  qed
qed

lemma poll_task_inv:
  assumes "poll_task c host w e k t = Some (k', t', as)" "rx_inv c D base k t got" "length D < 2 ^ 32"
  shows "rx_inv c D base k' t' got"
proof (cases k)
  case (ServerHandshake iss n)
  then show ?thesis using server_handshake_inv[OF _ _ assms(3)] assms(1,2) by (simp add: poll_task_def)
next
  case (ClientHandshake iss n)
  then show ?thesis using client_handshake_inv assms(1,2) by (simp add: poll_task_def)
next
  case EstablishedLoop
  then show ?thesis using established_loop_inv[OF _ _ assms(3)] assms(1,2) by (simp add: poll_task_def)
next
  case (WaitForFinAck n)
  then have "wait_for_fin_ack c host w n e t = Some (k', t', as)" using assms(1) by (simp add: poll_task_def)
  from wait_for_fin_ack_keeps[OF this, of "honest c D base"] show ?thesis
    using assms(2) by (auto simp: rx_inv_def)
next
  case Finished
  then show ?thesis using assms(1,2) by (simp add: poll_task_def)
qed

text \<open>
  The life of one connection: segments arrive, its task is polled, the user reads, writes and closes.
  The last argument is what the user has read.
\<close>

inductive tcp_reach ::
    "net_consts \<Rightarrow> net_host \<Rightarrow> byte list \<Rightarrow> 32 word \<Rightarrow> tcp_task \<Rightarrow> 'w tcp_connection \<Rightarrow> byte list \<Rightarrow> bool"
  for c host D base where
  server: "server_start c host syn (tcp_new i m iss) = Some (t, p) \<Longrightarrow> seg_seq syn = base - 1
    \<Longrightarrow> tcp_reach c host D base (ServerHandshake iss 0) t []"
| client: "tcp_reach c host D base (ClientHandshake iss 0) (tcp_new i m iss) []"
| deliver: "tcp_reach c host D base k t got \<Longrightarrow> honest c D base s \<Longrightarrow> deliver_segment s t = (wk, t')
    \<Longrightarrow> tcp_reach c host D base k t' got"
| polled: "tcp_reach c host D base k t got \<Longrightarrow> poll_task c host w e k t = Some (k', t', as)
    \<Longrightarrow> tcp_reach c host D base k' t' got"
| recv: "tcp_reach c host D base k t got \<Longrightarrow> recv_data n t = (d, t') \<Longrightarrow> tcp_reach c host D base k t' (got @ d)"
| send: "tcp_reach c host D base k t got \<Longrightarrow> queue_send_data d t = (wk, t') \<Longrightarrow> tcp_reach c host D base k t' got"
| user_closes: "tcp_reach c host D base k t got \<Longrightarrow> request_close t = (wk, t') \<Longrightarrow> tcp_reach c host D base k t' got"

lemma tcp_reach_inv:
  assumes "tcp_reach c host D base k t got" "length D < 2 ^ 32"
  shows "rx_inv c D base k t got"
  using assms(1)
proof (induction rule: tcp_reach.induct)
  case (server syn i m iss t p)
  then show ?case by (auto simp: server_start_def tcp_new_def Let_def run_simps rx_inv_def in_step_def)
next
  case (client iss i m)
  then show ?case by (simp add: rx_inv_def tcp_new_def)
next
  case (deliver k t got s wk t')
  then show ?case by (auto simp: deliver_segment_def rx_inv_def in_step_def split: tcp_task.splits)
next
  case (polled k t got w e k' t' as)
  show ?case by (rule poll_task_inv[OF polled.hyps(2) polled.IH assms(2)])
next
  case (recv k t got n d t')
  then show ?case by (auto simp: recv_data_def Let_def rx_inv_def in_step_def split: tcp_task.splits)
next
  case (send k t got d wk t')
  then show ?case by (auto simp: queue_send_data_def rx_inv_def in_step_def split: tcp_task.splits)
next
  case (user_closes k t got wk t')
  then show ?case by (auto simp: request_close_def rx_inv_def in_step_def split: tcp_task.splits)
qed

lemma send_empty_some: "\<exists>p. send_data_packet c host t flags seq ack [] = Some [SendPacket p]"
  using create_tcp_packet_some[of "[]"] by (auto simp: send_data_packet_def bind_eq_Some_conv)

lemma established_accepts_next:
  assumes box: "segment_mailbox t = []" "send_buffer t = []" "\<not> user_close_requested t"
    and seg: "seg_data s \<noteq> []" "length (seg_data s) < 2 ^ 32" "seg_seq s = recv_ack t"
      "seg_flags s AND TH_RST c = 0" "seg_flags s AND TH_FIN c = 0"
  shows "\<exists>t' p. established_loop c host w (snd (deliver_segment s t))
      = Some (EstablishedLoop, t', wake_reader (recv_waker t) @ [SendPacket p])
    \<and> recv_buffer t' = recv_buffer t @ seg_data s"
proof -
  let ?t = "snd (deliver_segment s t)"
  let ?u = "t\<lparr>segment_waker := None\<rparr>"
  let ?v = "?u\<lparr>recv_ack := recv_ack t + word_of_nat (length (seg_data s)),
      recv_buffer := recv_buffer t @ seg_data s, recv_waker := None\<rparr>"
  have f: "flush_send_buffer c host ?t = Some (?t, [])"
    using box by (simp add: flush_send_buffer_def deliver_segment_def)
  have r: "wait_for_segment_poll w ?t = (Ready (Some s), ?u)"
    using box by (simp add: wait_for_segment_poll_def deliver_segment_def)
  have a: "accept_segment c s ?u = Some (?v, recv_waker t, True, False)"
    using seg by (simp add: accept_segment_def len_as_seq_def)
  obtain p where p: "send_data_packet c host ?v (TH_ACK c) (send_seq ?v) (recv_ack ?v) [] = Some [SendPacket p]"
    using send_empty_some by blast
  have "flush_send_buffer c host ?v = Some (?v, [])" using box by (simp add: flush_send_buffer_def)
  moreover have "wait_for_segment_poll w ?v = (Pending, ?v\<lparr>segment_waker := Some w\<rparr>)"
    using box by (simp add: wait_for_segment_poll_def)
  ultimately have "established_loop c host w ?v = Some (EstablishedLoop, ?v\<lparr>segment_waker := Some w\<rparr>, [])"
    by (rule established_loop_pending)
  then have "established_loop c host w ?t
      = Some (EstablishedLoop, ?v\<lparr>segment_waker := Some w\<rparr>, wake_reader (recv_waker t) @ [SendPacket p])"
    using established_loop_segment[OF f r seg(4) a, of "[SendPacket p]"] p box by (simp add: and_then_def)
  then show ?thesis by (intro exI[of _ "?v\<lparr>segment_waker := Some w\<rparr>"] exI[of _ p]) simp
qed


definition linux_net :: net_consts where
  "linux_net = \<lparr>IPPROTO_TCP = 6, IPPROTO_UDP = 17, TH_FIN = 1, TH_SYN = 2, TH_RST = 4, TH_ACK = 16\<rparr>"

definition sample_host :: net_host where
  "sample_host = \<lparr>ip_addr = Ip 10 0 2 15, current_mac_address = Mac 82 84 0 18 52 86\<rparr>"

definition sample_id :: connection_id where
  "sample_id = \<lparr>local_port = 49152, remote_ip = Ip 10 0 2 2, remote_port = 80\<rparr>"

lemma sample_established:
  "\<exists>t :: unit tcp_connection. tcp_reach linux_net sample_host [1, 2, 3] 100 EstablishedLoop t []
     \<and> segment_mailbox t = [] \<and> send_buffer t = [] \<and> \<not> user_close_requested t \<and> recv_buffer t = []"
proof -
  let ?t = "tcp_new sample_id (Mac 1 2 3 4 5 6) 7 :: unit tcp_connection"
  let ?s = "\<lparr>seg_seq = 99, seg_ack = 8, seg_flags = 18, seg_data = []\<rparr>"
  let ?u = "snd (deliver_segment ?s ?t)"
  let ?v = "?t\<lparr>recv_ack := 100, send_seq := 8, established := True\<rparr>"
  have h: "honest linux_net [1, 2, 3] 100 ?s" by (simp add: honest_def linux_net_def)
  have r: "tcp_reach linux_net sample_host [1, 2, 3] 100 (ClientHandshake 7 0) ?u []"
    by (rule tcp_reach.deliver[OF tcp_reach.client h prod.collapse[symmetric]])
  have w: "segment_or_timeout_poll () False ?u = (Ready (Some ?s), ?t)"
    by (simp add: deliver_segment_def tcp_new_def segment_or_timeout_poll_def wait_for_segment_poll_def)
  obtain p where p: "send_data_packet linux_net sample_host ?v (TH_ACK linux_net) 8 100 [] = Some [SendPacket p]"
    using send_empty_some by blast
  have "client_handshake linux_net sample_host () 7 0 False ?u = Some (EstablishedLoop, ?v, [SendPacket p, Accepted])"
    unfolding client_handshake.simps[of linux_net sample_host "()" 7 0 False ?u] w prod.case poll.case option.case
    using p by (simp add: linux_net_def Let_def)
  then have "poll_task linux_net sample_host () False (ClientHandshake 7 0) ?u = Some (EstablishedLoop, ?v, [SendPacket p, Accepted])"
    by (simp add: poll_task_def)
  from tcp_reach.polled[OF r this] show ?thesis by (intro exI[of _ ?v]) (simp add: tcp_new_def)
qed


lemma fin_retransmits:
  assumes "segment_mailbox t = []" "user_close_requested t"
    "send_data_packet c host t (TH_FIN c OR TH_ACK c) (send_seq t - 1) (recv_ack t) [] = Some [SendPacket f]"
  shows "wait_for_fin_ack c host w n e t = Some (Finished, t\<lparr>closed := True\<rparr>, replicate n (SendPacket f) @ [Cleanup])"
proof (induction n arbitrary: e)
  case (Suc n)
  have "segment_or_timeout_poll w e t = (Ready None, t)"
    using assms by (simp add: segment_or_timeout_poll_def wait_for_segment_poll_def)
  then show ?case using assms Suc by (simp add: and_then_def)
qed (simp add: finish_def)

lemma flush_some:
  assumes "40 + length (send_buffer t) < 2 ^ 16"
  shows "\<exists>t' ds. flush_send_buffer c host t = Some (t', ds) \<and> length ds = (if send_buffer t = [] then 0 else 1)"
proof (cases "send_buffer t = []")
  case False
  obtain p where "create_tcp_packet c host (remote_ip (tcp_id t)) (remote_mac t) (local_port (tcp_id t))
      (remote_port (tcp_id t)) (send_seq t) (recv_ack t) (TH_ACK c) WINDOW_SIZE (send_buffer t) = Some p"
    using create_tcp_packet_some[OF assms] by blast
  then show ?thesis using False assms by (simp add: flush_send_buffer_def len_as_seq_def send_data_packet_def)
qed (simp add: flush_send_buffer_def)



text \<open>
  C34: all pending data go into one packet, so the task of a connection survives exactly the send
  buffers that fit into one IPv4 packet; a user that queues more than 65495 bytes panics the kernel.
\<close>

theorem tcp_send_bound: "flush_send_buffer c host t = None \<longleftrightarrow> 65495 < length (send_buffer t)"
proof (cases "40 + length (send_buffer t) < 2 ^ 16")
  case True
  obtain t' ds where "flush_send_buffer c host t = Some (t', ds)" using flush_some[OF True] by blast
  then show ?thesis using True by simp
next
  case False
  then show ?thesis
    using create_tcp_packet_too_long[of "send_buffer t"]
    by (auto simp: flush_send_buffer_def len_as_seq_def send_data_packet_def bind_eq_None_conv)
qed

end
