(* ===== verification/NetStack.thy ===== *)
theory NetStack
  imports Tcp BTreeMap
begin

text \<open>
  The network stack from a received frame to sockets and connections: \<^verbatim>\<open>crates/kernel/src/net/mod.rs\<close> and
  \<^verbatim>\<open>sockets.rs\<close>.  A UDP socket lives as long as its entry in the socket map, which its \<^verbatim>\<open>Drop\<close> removes, so
  the map holds the queues themselves.  What is sent is returned.
\<close>

section \<open>UDP sockets\<close>

record datagram =
  dg_from :: ipv4
  dg_port :: "16 word"
  dg_data :: "byte list"

type_synonym open_sockets = "(16 word \<times> datagram list) list"

definition try_get_socket :: "16 word \<Rightarrow> open_sockets \<Rightarrow> bool \<times> open_sockets" where
  "try_get_socket port m = (if bt_get m port \<noteq> None then (False, m) else (True, bt_insert port [] m))"

definition put_data :: "ipv4 \<Rightarrow> 16 word \<Rightarrow> 16 word \<Rightarrow> byte list \<Rightarrow> open_sockets \<Rightarrow> open_sockets" where
  "put_data from from_port to_port d m = (case bt_get m to_port of
     None \<Rightarrow> m
   | Some q \<Rightarrow> bt_insert to_port (q @ [\<lparr>dg_from = from, dg_port = from_port, dg_data = d\<rparr>]) m)"

definition get_datagram ::
    "16 word \<Rightarrow> nat \<Rightarrow> open_sockets \<Rightarrow> (byte list \<times> ipv4 \<times> 16 word) option \<times> open_sockets" where
  "get_datagram port out_len m = (case bt_get m port of
     Some (g # q) \<Rightarrow> (Some (take (min (length (dg_data g)) out_len) (dg_data g), dg_from g, dg_port g), bt_insert port q m)
   | _ \<Rightarrow> (None, m))"

definition drop_socket :: "16 word \<Rightarrow> open_sockets \<Rightarrow> open_sockets run" where
  "drop_socket port m = do { check (bt_get m port \<noteq> None); Some (bt_remove port m) }"

section \<open>Received frames\<close>

record 'w net_state =
  arp_cache :: "ipv4 \<rightharpoonup> mac"
  sockets :: open_sockets
  tcp :: "'w tcp_state"

type_synonym 'w net_run = "('w tcp_action list \<times> 'w option \<times> 'w net_state) run"

definition process_ipv4_packet ::
    "net_consts \<Rightarrow> net_host \<Rightarrow> 32 word \<Rightarrow> byte list \<Rightarrow> mac \<Rightarrow> 'w net_state \<Rightarrow> 'w net_run" where
  "process_ipv4_packet c host iss d m st = do {
     r \<leftarrow> ip_process c host d;
     case r of None \<Rightarrow> Some ([], None, st)
     | Some (ip, rest) \<Rightarrow> do {
         let st = st\<lparr>arp_cache := (arp_cache st)(source_ip ip \<mapsto> m)\<rparr>;
         if upper_protocol ip = IPPROTO_UDP c then do {
           u \<leftarrow> udp_process rest ip;
           (udp, payload) \<leftarrow> u;
           Some ([], None, st\<lparr>sockets := put_data (source_ip ip) (udp_source_port udp) (udp_destination_port udp)
             payload (sockets st)\<rparr>) }
         else if upper_protocol ip = IPPROTO_TCP c then do {
           (as, wk, t) \<leftarrow> process_tcp_packet c host iss ip rest m (tcp st);
           Some (as, wk, st\<lparr>tcp := t\<rparr>) }
         else Some ([], None, st) }
   }"

definition process_packet ::
    "net_consts \<Rightarrow> net_host \<Rightarrow> 32 word \<Rightarrow> byte list \<Rightarrow> 'w net_state \<Rightarrow> 'w net_run" where
  "process_packet c host iss packet st = (case try_parse host packet of
     Inl e \<Rightarrow> Some ([], None, st)
   | Inr (ethernet, rest) \<Rightarrow> do {
       t \<leftarrow> ether_try_from (ether_type ethernet);
       case t of
         Arp \<Rightarrow> do {
           r \<leftarrow> process_and_respond host rest;
           Some (case r of None \<Rightarrow> ([], None, st)
             | Some (reply, i, m) \<Rightarrow> ([SendPacket reply], None, st\<lparr>arp_cache := (arp_cache st)(i \<mapsto> m)\<rparr>)) }
       | IPv4 \<Rightarrow> process_ipv4_packet c host iss rest (source_mac ethernet) st })"

section \<open>From one host to another\<close>

definition distinct_protocols :: "net_consts \<Rightarrow> bool" where
  "distinct_protocols c \<longleftrightarrow> IPPROTO_UDP c = 17 \<and> IPPROTO_TCP c \<noteq> 17"

lemma ether_into_from [simp]: "ether_try_from (ether_into t) = Some t"
  by (cases t) (simp_all add: ether_into_def ether_try_from_def)

lemma process_packet_ipv4:
  assumes "dmac = current_mac_address host"
  shows "process_packet c host iss (ethernet_slice (ethernet_new dmac smac IPv4) @ r) st
    = process_ipv4_packet c host iss r smac st"
  using assms by (simp add: process_packet_def try_parse_built) (simp add: ethernet_new_def)

lemma drop_reserve: "drop DRIVER_HEADER_RESERVE (replicate DRIVER_HEADER_RESERVE 0 @ r) = r"
  by simp

lemma udp_delivery:
  assumes c: "distinct_protocols c" and len: "28 + length d < 2 ^ 16"
    and q: "bt_wf (sockets st)" "bt_get (sockets st) dport = Some q"
  shows "\<exists>p st'. create_udp_packet a (ip_addr b) dport (current_mac_address b) sport d = Some p
      \<and> process_packet c b iss (drop DRIVER_HEADER_RESERVE p @ pad) st = Some ([], None, st')
      \<and> bt_get (sockets st') dport = Some (q @ [\<lparr>dg_from = ip_addr a, dg_port = sport, dg_data = d\<rparr>])
      \<and> arp_cache st' (ip_addr a) = Some (current_mac_address a)"
proof -
  let ?eth = "ethernet_slice (ethernet_new (current_mac_address b) (current_mac_address a) IPv4)"
  obtain ip h where p: "create_udp_packet a (ip_addr b) dport (current_mac_address b) sport d
      = Some (replicate DRIVER_HEADER_RESERVE 0 @ ?eth @ ip_slice ip @ udp_slice h @ d)"
    and ip: "ip_built a (ip_addr b) 17 (8 + length d) ip"
    and h: "udp_source_port h = sport" "udp_destination_port h = dport" "unat (udp_length h) = 8 + length d"
      "udp_compute_checksum d h ip = Some 0"
    using create_udp_packet_spec[OF len, of a "ip_addr b" dport "current_mac_address b" sport] by blast
  have i: "ip_process c b (ip_slice ip @ udp_slice h @ d @ pad) = Some (Some (ip, udp_slice h @ d @ pad))"
    by (rule ip_process_built[OF ip]) (use c in \<open>simp_all add: distinct_protocols_def\<close>)
  let ?st = "st\<lparr>arp_cache := (arp_cache st)(ip_addr a \<mapsto> current_mac_address a),
      sockets := put_data (ip_addr a) sport dport d (sockets st)\<rparr>"
  let ?P = "replicate DRIVER_HEADER_RESERVE 0 @ ?eth @ ip_slice ip @ udp_slice h @ d"
  have e: "drop DRIVER_HEADER_RESERVE ?P @ pad = ?eth @ ip_slice ip @ udp_slice h @ d @ pad"
    by (simp only: drop_reserve append_assoc)
  have r: "process_packet c b iss (drop DRIVER_HEADER_RESERVE ?P @ pad) st = Some ([], None, ?st)"
    unfolding e using process_packet_ipv4[of "current_mac_address b" b c iss "current_mac_address a" _ st] i
      udp_process_built[OF h(3,4)] ip h c
    by (simp add: process_ipv4_packet_def ip_built_def distinct_protocols_def)
  have g: "bt_get (sockets ?st) dport = Some (q @ [\<lparr>dg_from = ip_addr a, dg_port = sport, dg_data = d\<rparr>])"
    using q by (simp add: put_data_def)
  show ?thesis by (intro exI[of _ ?P] exI[of _ ?st] conjI p r g) simp
qed

lemma tcp_delivery:
  fixes st :: "'w net_state"
  assumes c: "distinct_protocols c" and len: "40 + length d < 2 ^ 16"
    and k: "connections (tcp st) \<lparr>local_port = dport, remote_ip = ip_addr a, remote_port = sport\<rparr> = Some (k, t)"
  shows "\<exists>p st'. create_tcp_packet c a (ip_addr b) (current_mac_address b) sport dport seq ack flags w d = Some p
      \<and> process_packet c b iss (drop DRIVER_HEADER_RESERVE p @ pad) st = Some ([], segment_waker t, st')
      \<and> connections (tcp st') \<lparr>local_port = dport, remote_ip = ip_addr a, remote_port = sport\<rparr>
        = Some (k, snd (deliver_segment \<lparr>seg_seq = seq, seg_ack = ack, seg_flags = flags AND 0x1FF, seg_data = d\<rparr> t))"
proof -
  let ?eth = "ethernet_slice (ethernet_new (current_mac_address b) (current_mac_address a) IPv4)"
  obtain ip h where p: "create_tcp_packet c a (ip_addr b) (current_mac_address b) sport dport seq ack flags w d
      = Some (replicate DRIVER_HEADER_RESERVE 0 @ ?eth @ ip_slice ip @ tcp_slice h @ d)"
    and ip: "ip_built a (ip_addr b) (IPPROTO_TCP c) (20 + length d) ip"
    and h: "tcp_source_port h = sport" "tcp_destination_port h = dport" "sequence_number h = seq"
      "acknowledgment_number h = ack" "data_offset_and_flags h = push_bit 12 5 OR (flags AND 0x1FF)"
    and cks: "compute_checksum_raw c (tcp_slice h @ d) ip (20 + length d) = Some 0"
    using create_tcp_packet_spec[OF len, of c a "ip_addr b" "current_mac_address b" sport dport seq ack flags w] by blast
  have i: "ip_process c b (ip_slice ip @ tcp_slice h @ d @ pad) = Some (Some (ip, tcp_slice h @ d @ pad))"
    by (rule ip_process_built[OF ip]) simp_all
  have tp: "tcp_process c (tcp_slice h @ d @ pad) ip = Some (Inr (h, d))" by (rule tcp_process_built[OF ip cks h(5)])
  let ?id = "\<lparr>local_port = dport, remote_ip = ip_addr a, remote_port = sport\<rparr>"
  let ?seg = "\<lparr>seg_seq = seq, seg_ack = ack, seg_flags = flags AND 0x1FF, seg_data = d\<rparr>"
  let ?tcp = "(tcp st)\<lparr>connections := (connections (tcp st))(?id \<mapsto> (k, snd (deliver_segment ?seg t)))\<rparr>"
  let ?st = "st\<lparr>arp_cache := (arp_cache st)(ip_addr a \<mapsto> current_mac_address a), tcp := ?tcp\<rparr>"
  let ?P = "replicate DRIVER_HEADER_RESERVE 0 @ ?eth @ ip_slice ip @ tcp_slice h @ d"
  have e: "drop DRIVER_HEADER_RESERVE ?P @ pad = ?eth @ ip_slice ip @ tcp_slice h @ d @ pad"
    by (simp only: drop_reserve append_assoc)
  have "process_tcp_packet c b iss ip (tcp_slice h @ d @ pad) (current_mac_address a) (tcp st)
      = Some ([], segment_waker t, ?tcp)"
    using tp h k ip tcp_flags_built[OF h(5)]
    by (simp add: process_tcp_packet_def ip_built_def deliver_segment_def)
  then have r: "process_packet c b iss (drop DRIVER_HEADER_RESERVE ?P @ pad) st = Some ([], segment_waker t, ?st)"
    unfolding e using process_packet_ipv4[of "current_mac_address b" b c iss "current_mac_address a" _ st] i ip c
    by (simp add: process_ipv4_packet_def ip_built_def distinct_protocols_def)
  have "connections (tcp ?st) ?id = Some (k, snd (deliver_segment ?seg t))" by simp
  then show ?thesis by (intro exI[of _ ?P] exI[of _ ?st] conjI p r)
qed

text \<open>
  C31: what one host builds, the other receives.  A UDP packet built on one host, with any padding
  the link adds, puts exactly its payload, sender and port into the socket of the other host; a TCP packet
  puts a segment with the same sequence numbers, flags and data into the mailbox of its connection.
\<close>

theorem net_packet_roundtrip:
  fixes st :: "'w net_state"
  assumes "distinct_protocols c" and "40 + length d < 2 ^ 16"
    and "bt_wf (sockets st)" and "bt_get (sockets st) dport = Some q"
    and "connections (tcp st) \<lparr>local_port = dport, remote_ip = ip_addr a, remote_port = sport\<rparr> = Some (k, t)"
  shows "(\<exists>p st'. create_udp_packet a (ip_addr b) dport (current_mac_address b) sport d = Some p
      \<and> process_packet c b iss (drop DRIVER_HEADER_RESERVE p @ pad) st = Some ([], None, st')
      \<and> bt_get (sockets st') dport = Some (q @ [\<lparr>dg_from = ip_addr a, dg_port = sport, dg_data = d\<rparr>])
      \<and> arp_cache st' (ip_addr a) = Some (current_mac_address a))
    \<and> (\<exists>p st'. create_tcp_packet c a (ip_addr b) (current_mac_address b) sport dport seq ack flags w d = Some p
      \<and> process_packet c b iss (drop DRIVER_HEADER_RESERVE p @ pad) st = Some ([], segment_waker t, st')
      \<and> connections (tcp st') \<lparr>local_port = dport, remote_ip = ip_addr a, remote_port = sport\<rparr>
        = Some (k, snd (deliver_segment \<lparr>seg_seq = seq, seg_ack = ack, seg_flags = flags AND 0x1FF, seg_data = d\<rparr> t)))"
  using udp_delivery[OF assms(1) _ assms(3,4)] tcp_delivery[OF assms(1,2,5)] assms(2) by simp

definition sample_net :: "unit net_state" where
  "sample_net = \<lparr>arp_cache = Map.empty, sockets = [(80, [])],
     tcp = \<lparr>connections = [\<lparr>local_port = 80, remote_ip = Ip 10 0 2 15, remote_port = 49152\<rparr>
       \<mapsto> (EstablishedLoop, tcp_new sample_id (Mac 1 2 3 4 5 6) 7)], listeners = Map.empty\<rparr>\<rparr>"

theorem net_packet_roundtrip_witness:
  "\<exists>p st'. create_tcp_packet linux_net sample_host (Ip 10 0 2 2) (Mac 1 2 3 4 5 6) 49152 80 5 6 16 100 [104, 105] = Some p
      \<and> process_packet linux_net \<lparr>ip_addr = Ip 10 0 2 2, current_mac_address = Mac 1 2 3 4 5 6\<rparr> 0
          (drop DRIVER_HEADER_RESERVE p @ [0, 0]) sample_net = Some ([], None, st')
      \<and> connections (tcp st') \<lparr>local_port = 80, remote_ip = Ip 10 0 2 15, remote_port = 49152\<rparr>
        = Some (EstablishedLoop, snd (deliver_segment
            \<lparr>seg_seq = 5, seg_ack = 6, seg_flags = 16, seg_data = [104, 105]\<rparr> (tcp_new sample_id (Mac 1 2 3 4 5 6) 7)))"
proof -
  let ?b = "\<lparr>ip_addr = Ip 10 0 2 2, current_mac_address = Mac 1 2 3 4 5 6\<rparr>"
  have flags: "(16 :: 16 word) AND 0x1FF = 16" by simp
  have "\<exists>p st'. create_tcp_packet linux_net sample_host (ip_addr ?b) (current_mac_address ?b) 49152 80 5 6 16 100 [104, 105]
        = Some p
      \<and> process_packet linux_net ?b 0 (drop DRIVER_HEADER_RESERVE p @ [0, 0]) sample_net
        = Some ([], segment_waker (tcp_new sample_id (Mac 1 2 3 4 5 6) 7), st')
      \<and> connections (tcp st') \<lparr>local_port = 80, remote_ip = ip_addr sample_host, remote_port = 49152\<rparr>
        = Some (EstablishedLoop, snd (deliver_segment
            \<lparr>seg_seq = 5, seg_ack = 6, seg_flags = 16 AND 0x1FF, seg_data = [104, 105]\<rparr>
            (tcp_new sample_id (Mac 1 2 3 4 5 6) 7)))"
    by (rule net_packet_roundtrip[where q = "[]", THEN conjunct2])
      (simp_all add: distinct_protocols_def linux_net_def sample_net_def sample_host_def bt_wf_def)
  then show ?thesis unfolding flags by (simp add: sample_host_def tcp_new_def)
qed

text \<open>
  C35: any host on the link can stop the kernel.  An IPv4 packet to our address that carries anything
  but UDP or TCP, a ping for example, fails an assertion of the parser, and so does every ARP reply.
\<close>

theorem net_remote_panic:
  assumes "length d \<ge> 28"
    and "t = IPv4 \<and> upper_protocol (ip_header_of d) \<notin> {IPPROTO_UDP c, IPPROTO_TCP c}
      \<or> t = Arp \<and> operation (arp_of d) = 2"
  shows "process_packet c host iss (ethernet_slice (ethernet_new (current_mac_address host) smac t) @ d) st = None"
proof (cases t)
  case Arp
  then have "process_and_respond host d = None" using assms by (simp add: process_and_respond_def Let_def bind_eq_None_conv)
  then show ?thesis using Arp by (simp add: process_packet_def try_parse_built) (simp add: ethernet_new_def)
next
  case IPv4
  then have "ip_process c host d = None" using assms by (simp add: ip_process_def Let_def bind_eq_None_conv)
  then show ?thesis using IPv4 by (simp add: process_packet_ipv4 process_ipv4_packet_def)
qed

theorem net_remote_panic_witness:
  "process_packet linux_net sample_host 0
     (ethernet_slice (ethernet_new (current_mac_address sample_host) (Mac 1 2 3 4 5 6) IPv4)
      @ [69, 0, 0, 28, 0, 0, 0, 0, 64, 1, 0, 0, 10, 0, 2, 2, 10, 0, 2, 15, 8, 0, 0, 0, 0, 0, 0, 0]) sample_net = None"
  using net_remote_panic[of "[69, 0, 0, 28, 0, 0, 0, 0, 64, 1, 0, 0, 10, 0, 2, 2, 10, 0, 2, 15, 8, 0, 0, 0, 0, 0, 0, 0]"
      IPv4 linux_net sample_host 0 "Mac 1 2 3 4 5 6" sample_net]
  by (simp add: ip_header_of_def linux_net_def)

end
