(* ===== verification/Threads.thy ===== *)
theory Threads
  imports Results Klib
begin

text \<open>
  A thread and its signals: \<^verbatim>\<open>processes/thread.rs\<close> and the data of \<^verbatim>\<open>processes/signal.rs\<close>.

  A thread's system call in flight is a value of \<^typ>\<open>'task\<close>, and its process is named by a number.  The
  numbers of the signals and the flags of \<^verbatim>\<open>sigaction\<close> are generated from the Linux headers; they are a
  record of constants.
\<close>

unbundle bit_operations_syntax

section \<open>Signals\<close>

datatype signame = SIGHUP | SIGINT | SIGQUIT | SIGILL | SIGTRAP | SIGABRT | SIGBUS | SIGFPE | SIGKILL
  | SIGUSR1 | SIGSEGV | SIGUSR2 | SIGPIPE | SIGALRM | SIGTERM | SIGSTKFLT | SIGXCPU | SIGXFSZ | SIGVTALRM
  | SIGPROF | SIGIO | SIGPWR | SIGSYS | SIGCHLD | SIGURG | SIGWINCH | SIGSTOP | SIGTSTP | SIGTTIN | SIGTTOU
  | SIGCONT

record signal_consts =
  signo :: "signame \<Rightarrow> nat"
  NSIG :: nat
  SA_NODEFER :: "64 word"
  SA_RESETHAND :: "64 word"

text \<open>What Linux documents of the numbers: they are distinct, in 1 to 31, and below \<^verbatim>\<open>_NSIG\<close>.\<close>

definition signals_ok :: "signal_consts \<Rightarrow> bool" where
  "signals_ok C \<longleftrightarrow> inj (signo C) \<and> (\<forall>s. signo C s \<in> {1..31}) \<and> 31 < NSIG C"

datatype exit_status = Exited byte | Signaled byte

primrec to_wstatus :: "exit_status \<Rightarrow> int" where
  "to_wstatus (Exited code) = push_bit 8 (uint code)"
| "to_wstatus (Signaled sig) = uint sig AND 0x7f"

type_synonym pending_signals = "64 word"

definition pending_raise :: "nat \<Rightarrow> pending_signals \<Rightarrow> pending_signals run" where
  "pending_raise sig p = do { check (sig \<in> {1..31}); Some (p OR push_bit sig 1) }"

definition pending_clear :: "nat \<Rightarrow> pending_signals \<Rightarrow> pending_signals run" where
  "pending_clear sig p = do { check (sig \<in> {1..31}); Some (p AND NOT (push_bit sig 1)) }"

definition trailing_zeros :: "64 word \<Rightarrow> nat" where
  "trailing_zeros w = (case List.find (bit w) [0..<64] of Some n \<Rightarrow> n | None \<Rightarrow> 64)"

definition first_matching :: "64 word \<Rightarrow> pending_signals \<Rightarrow> nat option" where
  "first_matching allowed p =
     (let matched = p AND allowed in if matched = 0 then None else Some (trailing_zeros matched))"

datatype default_action = Terminate | Ignore | Stop | Continue

definition validate_signal :: "signal_consts \<Rightarrow> int \<Rightarrow> errno + nat option" where
  "validate_signal C sig = (if sig < 0 then Inl EINVAL
     else if NSIG C \<le> nat sig then Inl EINVAL
     else if nat sig = 0 then Inr None else Inr (Some (nat sig)))"

definition default_action :: "signal_consts \<Rightarrow> nat \<Rightarrow> default_action" where
  "default_action C sig =
     (if sig \<in> signo C ` {SIGHUP, SIGINT, SIGQUIT, SIGILL, SIGTRAP, SIGABRT, SIGBUS, SIGFPE, SIGKILL, SIGUSR1,
          SIGSEGV, SIGUSR2, SIGPIPE, SIGALRM, SIGTERM, SIGSTKFLT, SIGXCPU, SIGXFSZ, SIGVTALRM, SIGPROF, SIGIO,
          SIGPWR, SIGSYS} then Terminate
      else if sig \<in> signo C ` {SIGCHLD, SIGURG, SIGWINCH} then Ignore
      else if sig \<in> signo C ` {SIGSTOP, SIGTSTP, SIGTTIN, SIGTTOU} then Stop
      else if sig = signo C SIGCONT then Continue
      else Terminate)"

section \<open>Threads\<close>

type_synonym tid = nat

datatype thread_state = Running nat | Runnable | Waiting | Stopped | Zombie exit_status

fun is_zombie :: "thread_state \<Rightarrow> bool" where
  "is_zombie (Zombie _) = True"
| "is_zombie _ = False"

record sigaction =
  sa_handler :: "64 word option"
  sa_flags :: "64 word"
  sa_mask :: "64 word"

definition sigaction_default :: sigaction where
  "sigaction_default = \<lparr>sa_handler = None, sa_flags = 0, sa_mask = 0\<rparr>"

record sigaltstack =
  ss_sp :: "64 word"
  ss_flags :: int
  ss_size :: "64 word"

record signal_state =
  altstack :: sigaltstack
  sigmask :: "64 word"
  sigactions :: "sigaction list"
  pending :: pending_signals

definition signal_state_new :: "signal_consts \<Rightarrow> signal_state" where
  "signal_state_new C = \<lparr>altstack = \<lparr>ss_sp = 0, ss_flags = 0, ss_size = 0\<rparr>, sigmask = 0,
     sigactions = replicate (NSIG C) sigaction_default, pending = 0\<rparr>"

text \<open>The registers saved on a trap; the stack pointer, the return address and the first argument.\<close>

record trap_frame =
  gp_registers :: "64 word list"
  fp_registers :: "64 word list"

definition trap_frame_zero :: trap_frame where
  "trap_frame_zero = \<lparr>gp_registers = replicate 32 0, fp_registers = replicate 32 0\<rparr>"

definition reg_ra :: nat where "reg_ra = 1"
definition reg_sp :: nat where "reg_sp = 2"
definition reg_tp :: nat where "reg_tp = 4"
definition reg_a0 :: nat where "reg_a0 = 10"

definition get_reg :: "nat \<Rightarrow> trap_frame \<Rightarrow> 64 word run" where
  "get_reg r f = index (gp_registers f) r"

definition set_reg :: "nat \<Rightarrow> 64 word \<Rightarrow> trap_frame \<Rightarrow> trap_frame run" where
  "set_reg r v f = do { gp \<leftarrow> index_set (gp_registers f) r v; Some (f\<lparr>gp_registers := gp\<rparr>) }"

record 'task thread =
  tid :: tid
  parent_tid :: tid
  process_name :: string
  register_state :: trap_frame
  program_counter :: "64 word"
  state :: thread_state
  wakeup_pending :: bool
  in_kernel_mode :: bool
  process :: nat
  clear_child_tid :: "usize option"
  signals :: signal_state
  syscall_task :: "'task option"
  registers_replaced :: bool
  stopped_notified :: bool
  stop_signal :: nat
  thread_name :: "string option"
  sigtimedwait_mask :: "64 word option"

definition POWERSAVE_TID :: tid where "POWERSAVE_TID = 0"

definition get_next_tid :: "nat \<Rightarrow> (tid \<times> nat) run" where
  "get_next_tid counter = do { check (counter \<noteq> 2 ^ 64 - 1); Some (counter, (counter + 1) mod 2 ^ 64) }"

definition thread_new ::
    "signal_consts \<Rightarrow> tid \<Rightarrow> string \<Rightarrow> trap_frame \<Rightarrow> 64 word \<Rightarrow> bool \<Rightarrow> nat \<Rightarrow> tid \<Rightarrow> 'task thread" where
  "thread_new C t name regs pc kernel_mode proc parent =
     \<lparr>tid = t, parent_tid = parent, process_name = name, register_state = regs, program_counter = pc,
      state = Runnable, wakeup_pending = False, in_kernel_mode = kernel_mode, process = proc, clear_child_tid = None,
      signals = signal_state_new C, syscall_task = None, registers_replaced = False, stopped_notified = False,
      stop_signal = 0, thread_name = None, sigtimedwait_mask = None\<rparr>"

definition set_thread_name :: "string \<Rightarrow> 'task thread \<Rightarrow> 'task thread" where
  "set_thread_name name t = t\<lparr>thread_name := Some name\<rparr>"

definition peek_first_unblocked_signal :: "'task thread \<Rightarrow> nat option" where
  "peek_first_unblocked_signal t = first_matching (NOT (sigmask (signals t))) (pending (signals t))"

definition has_pending_unblocked_signal :: "'task thread \<Rightarrow> bool" where
  "has_pending_unblocked_signal t \<longleftrightarrow> peek_first_unblocked_signal t \<noteq> None"

definition set_pending :: "pending_signals \<Rightarrow> 'task thread \<Rightarrow> 'task thread" where
  "set_pending p t = t\<lparr>signals := (signals t)\<lparr>pending := p\<rparr>\<rparr>"

definition clear_pending :: "nat \<Rightarrow> 'task thread \<Rightarrow> 'task thread run" where
  "clear_pending sig t = do { p \<leftarrow> pending_clear sig (pending (signals t)); Some (set_pending p t) }"

definition take_next_pending_signal :: "'task thread \<Rightarrow> (nat option \<times> 'task thread) run" where
  "take_next_pending_signal t = (case peek_first_unblocked_signal t of
       None \<Rightarrow> Some (None, t)
     | Some sig \<Rightarrow> do { t \<leftarrow> clear_pending sig t; Some (Some sig, t) })"

definition first_pending_in_set :: "64 word \<Rightarrow> 'task thread \<Rightarrow> nat option" where
  "first_pending_in_set m t = first_matching m (pending (signals t))"

definition sigtimedwait_matches :: "nat \<Rightarrow> 'task thread \<Rightarrow> bool run" where
  "sigtimedwait_matches sig t = (case sigtimedwait_mask t of
       None \<Rightarrow> Some False
     | Some m \<Rightarrow> do { b \<leftarrow> shl 1 sig; Some (m AND b \<noteq> 0) })"

definition sigtimedwait_pending :: "'task thread \<Rightarrow> bool" where
  "sigtimedwait_pending t = (case sigtimedwait_mask t of
       None \<Rightarrow> False | Some m \<Rightarrow> first_matching m (pending (signals t)) \<noteq> None)"

definition suspend :: "'task thread \<Rightarrow> 'task thread run" where
  "suspend t = do { check (state t \<noteq> Waiting); Some (t\<lparr>state := Waiting\<rparr>) }"

definition set_syscall_task_and_suspend :: "'task \<Rightarrow> 'task thread \<Rightarrow> (bool \<times> 'task thread) run" where
  "set_syscall_task_and_suspend task t = do {
     check (syscall_task t = None);
     if is_zombie (state t) then Some (False, t)
     else let t = t\<lparr>syscall_task := Some task\<rparr>
       in if wakeup_pending t then Some (True, t\<lparr>wakeup_pending := False, state := Runnable\<rparr>)
          else if has_pending_unblocked_signal t \<or> sigtimedwait_pending t
            then Some (True, t\<lparr>state := Runnable\<rparr>)
          else do { t \<leftarrow> suspend t; Some (False, t) }
   }"

definition wake_up :: "'task thread \<Rightarrow> bool \<times> 'task thread" where
  "wake_up t = (case state t of
       Waiting \<Rightarrow> (True, t\<lparr>state := Runnable\<rparr>)
     | Running _ \<Rightarrow> (False, t\<lparr>wakeup_pending := True\<rparr>)
     | _ \<Rightarrow> (False, t))"

definition suspend_unless_wakeup_pending :: "'task thread \<Rightarrow> 'task thread run" where
  "suspend_unless_wakeup_pending t =
     (if wakeup_pending t then Some (t\<lparr>wakeup_pending := False\<rparr>) else suspend t)"

definition set_sigaction :: "signal_consts \<Rightarrow> nat \<Rightarrow> sigaction \<Rightarrow> 'task thread \<Rightarrow> ((errno + sigaction) \<times> 'task thread) run" where
  "set_sigaction C sig act t = (if NSIG C \<le> sig then Some (Inl EINVAL, t) else do {
     old \<leftarrow> index (sigactions (signals t)) sig;
     acts \<leftarrow> index_set (sigactions (signals t)) sig act;
     Some (Inr old, t\<lparr>signals := (signals t)\<lparr>sigactions := acts\<rparr>\<rparr>)
   })"

definition get_sigaction :: "signal_consts \<Rightarrow> nat \<Rightarrow> 'task thread \<Rightarrow> (errno + sigaction) run" where
  "get_sigaction C sig t = (if NSIG C \<le> sig then Some (Inl EINVAL)
     else do { a \<leftarrow> index (sigactions (signals t)) sig; Some (Inr a) })"

definition get_sigaction_raw :: "nat \<Rightarrow> 'task thread \<Rightarrow> sigaction run" where
  "get_sigaction_raw sig t = index (sigactions (signals t)) sig"

definition set_sigset :: "64 word \<Rightarrow> 'task thread \<Rightarrow> 64 word \<times> 'task thread" where
  "set_sigset m t = (sigmask (signals t), t\<lparr>signals := (signals t)\<lparr>sigmask := m\<rparr>\<rparr>)"

definition set_sigmask_raw :: "64 word \<Rightarrow> 'task thread \<Rightarrow> 'task thread" where
  "set_sigmask_raw m t = t\<lparr>signals := (signals t)\<lparr>sigmask := m\<rparr>\<rparr>"

definition set_sigaltstack :: "sigaltstack \<Rightarrow> 'task thread \<Rightarrow> 'task thread" where
  "set_sigaltstack s t = t\<lparr>signals := (signals t)\<lparr>altstack := s\<rparr>\<rparr>"

definition take_syscall_task :: "'task thread \<Rightarrow> 'task option \<times> 'task thread" where
  "take_syscall_task t = (syscall_task t, t\<lparr>syscall_task := None\<rparr>)"

definition clear_pending_stop_signals :: "signal_consts \<Rightarrow> 'task thread \<Rightarrow> 'task thread run" where
  "clear_pending_stop_signals C t = foldM clear_pending (map (signo C) [SIGSTOP, SIGTSTP, SIGTTIN, SIGTTOU]) t"

definition raise_pending :: "nat \<Rightarrow> 'task thread \<Rightarrow> 'task thread run" where
  "raise_pending sig t = do { p \<leftarrow> pending_raise sig (pending (signals t)); Some (set_pending p t) }"

definition raise_signal :: "signal_consts \<Rightarrow> nat \<Rightarrow> 'task thread \<Rightarrow> 'task thread run" where
  "raise_signal C sig t = do {
     check (sig \<in> {1..31});
     t \<leftarrow> (case default_action C sig of
         Continue \<Rightarrow> clear_pending_stop_signals C t
       | Stop \<Rightarrow> clear_pending (signo C SIGCONT) t
       | _ \<Rightarrow> Some t);
     if sig = signo C SIGKILL \<or> sig = signo C SIGSTOP then raise_pending sig t
     else do {
       action \<leftarrow> index (sigactions (signals t)) sig;
       case sa_handler action of
         None \<Rightarrow> if default_action C sig = Ignore then Some t else raise_pending sig t
       | Some f \<Rightarrow> if f = 1 then Some t else raise_pending sig t
     }
   }"

section \<open>Pending signals\<close>

lemma bit_single [simp]: "bit (2 ^ k :: 64 word) n \<longleftrightarrow> n = k \<and> k < 64"
  by (auto simp: bit_simps)

lemma and_eq_0_bits: "(p :: 64 word) AND m = 0 \<longleftrightarrow> (\<forall>k. \<not> (bit p k \<and> bit m k))"
proof -
  have "bit p k \<Longrightarrow> k < 64" for k using bit_imp_le_length[of p k] by simp
  then show ?thesis by (auto simp: bit_eq_iff bit_simps)
qed

lemma first_matching_Some:
  "first_matching m p = Some n \<longleftrightarrow> bit p n \<and> bit m n \<and> (\<forall>k<n. \<not> (bit p k \<and> bit m k))"
proof -
  note z = and_eq_0_bits[of p m]
  have lt: "bit p k \<Longrightarrow> k < 64" for k using bit_imp_le_length[of p k] by simp
  show ?thesis
  proof (cases "p AND m = 0")
    case True
    then show ?thesis using z by (simp add: first_matching_def)
  next
    case False
    then obtain k where "bit p k" "bit m k" using z by blast
    then obtain j where j: "List.find (bit (p AND m)) [0..<64] = Some j"
      using lt[of k] find_upt_None[of "bit (p AND m)" 64] by (auto simp: bit_and_iff)
    then have "bit p j" "bit m j" "\<forall>i<j. \<not> (bit p i \<and> bit m i)" by (auto simp: find_upt_Some bit_and_iff)
    then have "bit p n \<and> bit m n \<and> (\<forall>k<n. \<not> (bit p k \<and> bit m k)) \<longleftrightarrow> j = n"
      by (metis linorder_neqE_nat)
    then show ?thesis using False j by (simp add: first_matching_def trailing_zeros_def Let_def)
  qed
qed

lemma first_matching_None: "first_matching m p = None \<longleftrightarrow> (\<forall>k. \<not> (bit p k \<and> bit m k))"
  by (simp add: first_matching_def Let_def and_eq_0_bits)

lemma set_pending_simps [simp]:
  "pending (signals (set_pending p t)) = p" "sigmask (signals (set_pending p t)) = sigmask (signals t)"
  "sigactions (signals (set_pending p t)) = sigactions (signals t)" "altstack (signals (set_pending p t)) = altstack (signals t)"
  "set_pending p (set_pending q t) = set_pending p t" "set_pending (pending (signals t)) t = t"
  "tid (set_pending p t) = tid t" "parent_tid (set_pending p t) = parent_tid t" "state (set_pending p t) = state t"
  "process (set_pending p t) = process t" "syscall_task (set_pending p t) = syscall_task t"
  "register_state (set_pending p t) = register_state t" "program_counter (set_pending p t) = program_counter t"
  "wakeup_pending (set_pending p t) = wakeup_pending t" "sigtimedwait_mask (set_pending p t) = sigtimedwait_mask t"
  "clear_child_tid (set_pending p t) = clear_child_tid t" "in_kernel_mode (set_pending p t) = in_kernel_mode t"
  by (simp_all add: set_pending_def)

lemma clear_pending_eq [run_simps]:
  "clear_pending sig t = Some t' \<longleftrightarrow> sig \<in> {1..31} \<and> t' = set_pending (pending (signals t) AND NOT (push_bit sig 1)) t"
  by (auto simp: clear_pending_def pending_clear_def run_simps)

lemma raise_pending_eq [run_simps]:
  "raise_pending sig t = Some t' \<longleftrightarrow> sig \<in> {1..31} \<and> t' = set_pending (pending (signals t) OR push_bit sig 1) t"
  by (auto simp: raise_pending_def pending_raise_def run_simps)

lemma take_next_pending_signal_Some:
  assumes "take_next_pending_signal t = Some (Some sig, t')"
  shows "bit (pending (signals t)) sig" "\<not> bit (sigmask (signals t)) sig" "sig \<in> {1..31}"
    "t' = set_pending (pending (signals t) AND NOT (push_bit sig 1)) t"
  using assms
  by (auto simp: take_next_pending_signal_def peek_first_unblocked_signal_def run_simps first_matching_Some bit_simps
      split: option.splits)

lemma foldM_clear_pending:
  assumes "foldM clear_pending xs t = Some t'"
  obtains p where "t' = set_pending p t" "\<And>n. bit p n \<longleftrightarrow> bit (pending (signals t)) n \<and> n \<notin> set xs"
  using assms
proof (induction xs arbitrary: t thesis)
  case Nil
  then show ?case by (intro Nil(1)[of "pending (signals t)"]) auto
next
  case (Cons x xs)
  let ?p = "pending (signals t) AND NOT (push_bit x 1)"
  have "foldM clear_pending xs (set_pending ?p t) = Some t'" using Cons.prems(2) by (auto simp: run_simps)
  from Cons.IH[OF _ this] obtain p where p: "t' = set_pending p t" "\<And>n. bit p n \<longleftrightarrow> bit ?p n \<and> n \<notin> set xs"
    by (metis set_pending_simps(1,5))
  have "bit ?p n \<longleftrightarrow> bit (pending (signals t)) n \<and> n \<noteq> x" for n
    using bit_imp_le_length[of "pending (signals t)" n] by (auto simp: bit_and_iff bit_not_iff)
  then show ?case using p by (intro Cons.prems(1)) auto
qed

text \<open>Raising a signal changes nothing but the pending set, and adds at most that signal to it.\<close>

lemma raise_signal_pending:
  assumes "raise_signal C sig t = Some t'"
  obtains p where "t' = set_pending p t" "\<And>n. bit p n \<Longrightarrow> bit (pending (signals t)) n \<or> n = sig" "sig \<in> {1..31}"
proof -
  have sig: "sig \<in> {1..31}" using assms by (auto simp: raise_signal_def run_simps)
  obtain t1 where t1: "(case default_action C sig of Continue \<Rightarrow> clear_pending_stop_signals C t
       | Stop \<Rightarrow> clear_pending (signo C SIGCONT) t | _ \<Rightarrow> Some t) = Some t1"
      and t': "t' = t1 \<or> t' = set_pending (pending (signals t1) OR push_bit sig 1) t1"
    using assms by (auto simp: raise_signal_def run_simps split: if_splits option.splits)
  obtain q where q: "t1 = set_pending q t" "\<And>n. bit q n \<Longrightarrow> bit (pending (signals t)) n"
  proof (cases "default_action C sig")
    case Stop
    then show ?thesis using t1
      by (intro that[of "pending (signals t) AND NOT (2 ^ signo C SIGCONT)"]) (auto simp: run_simps bit_and_iff)
  next
    case Continue
    then have "foldM clear_pending (map (signo C) [SIGSTOP, SIGTSTP, SIGTTIN, SIGTTOU]) t = Some t1"
      using t1 by (simp add: clear_pending_stop_signals_def)
    then show ?thesis by (rule foldM_clear_pending) (auto intro: that)
  qed (use t1 in \<open>auto intro!: that[of "pending (signals t)"]\<close>)
  show ?thesis
  proof (cases "t' = t1")
    case True
    then show ?thesis using q sig by (intro that) auto
  next
    case False
    then show ?thesis using t' q sig by (intro that[of "q OR push_bit sig 1"]) (auto simp: bit_or_iff)
  qed
qed

end
