(* ===== verification/AddressSpace.thy ===== *)
theory AddressSpace
  imports PageTables BTreeMap Results
begin

text \<open>
  The memory of a user process: the address-space half of \<^verbatim>\<open>Process\<close> in
  \<^verbatim>\<open>crates/kernel/src/processes/process.rs\<close> with \<^verbatim>\<open>brk.rs\<close>, the memory system calls of
  \<^verbatim>\<open>syscalls/mm_ops.rs\<close>, \<^verbatim>\<open>PinnedHeapPages\<close> of \<^verbatim>\<open>crates/mm/src/page.rs\<close>, and
  \<^verbatim>\<open>handle_store_page_fault\<close> of \<^verbatim>\<open>interrupts/trap.rs\<close>.  Physical memory is a function
  from address to byte, identity mapped for the kernel.  The heap's answers to requests for pages
  are given as a list of free runs (address and number of pages); an exhausted list, or a run that is
  too short, is the allocation failure that aborts.
\<close>

section \<open>Pages from the heap\<close>

record kmem =
  ram :: "usize \<Rightarrow> byte"
  heap_runs :: "(usize \<times> nat) list"

text \<open>\<^verbatim>\<open>PinnedHeapPages\<close>: the address and the number of pages.\<close>

type_synonym pinned_pages = "usize \<times> nat"

definition pinned_size :: "pinned_pages \<Rightarrow> usize" where
  "pinned_size pages = snd pages * PAGE_SIZE"

definition write_ram :: "(usize \<Rightarrow> byte) \<Rightarrow> usize \<Rightarrow> byte list \<Rightarrow> usize \<Rightarrow> byte" where
  "write_ram r a bs = (\<lambda>x. if a \<le> x \<and> x < a + length bs then bs ! (x - a) else r x)"

definition read_ram :: "(usize \<Rightarrow> byte) \<Rightarrow> usize \<Rightarrow> nat \<Rightarrow> byte list" where
  "read_ram r a n = map r [a..<a + n]"

definition pinned_new :: "kmem \<Rightarrow> nat \<Rightarrow> (pinned_pages \<times> kmem) run" where
  "pinned_new km number_of_pages = do {
     check (number_of_pages > 0);
     case heap_runs km of
       [] \<Rightarrow> None
     | (a, n) # runs \<Rightarrow>
         if number_of_pages \<le> n
         then Some ((a, number_of_pages),
           km\<lparr>ram := write_ram (ram km) a (replicate (number_of_pages * PAGE_SIZE) 0), heap_runs := runs\<rparr>)
         else None
   }"

section \<open>Process memory\<close>

record cow_page_info =
  phys_addr :: usize
  original_perm :: xwr_mode
  backing :: pinned_pages

datatype mapping = Allocated pinned_pages | Mmap pinned_pages | Cow cow_page_info

record brk_state =
  brk_start :: usize
  brk_current :: usize
  brk_end :: usize

record address_space =
  page_table :: root_page_table_holder
  mappings :: "(usize, mapping) btree_map"
  free_mmap_address :: usize
  as_brk :: brk_state

record forked_address_space =
  fork_page_table :: root_page_table_holder
  cow_pages :: "(usize, cow_page_info) btree_map"
  fork_brk :: brk_state
  fork_free_mmap_address :: usize

definition FREE_MMAP_START_ADDRESS :: usize where
  "FREE_MMAP_START_ADDRESS = 0x2000000000"

definition TRAMPOLINE_VADDR :: usize where
  "TRAMPOLINE_VADDR = 0x1000"

definition process_new ::
    "root_page_table_holder \<Rightarrow> (usize, pinned_pages) btree_map \<Rightarrow> brk_state \<Rightarrow> address_space" where
  "process_new pt allocated_pages b =
     \<lparr>page_table = pt, mappings = map (\<lambda>(va, pages). (va, Allocated pages)) allocated_pages,
      free_mmap_address = FREE_MMAP_START_ADDRESS, as_brk = b\<rparr>"

subsection \<open>The program break\<close>

definition BRK_SIZE :: nat where "BRK_SIZE = 4"

definition brk_new ::
    "usize \<Rightarrow> root_page_table_holder \<Rightarrow> kmem \<Rightarrow> (pinned_pages \<times> brk_state \<times> root_page_table_holder \<times> kmem) run" where
  "brk_new bss_end page_tables km = do {
     start \<leftarrow> align_up_page_size bss_end;
     (pages, km) \<leftarrow> pinned_new km BRK_SIZE;
     page_tables \<leftarrow> map_userspace page_tables start (fst pages) (pinned_size pages) ReadWrite ''BRK'';
     e \<leftarrow> uadd start (BRK_SIZE * PAGE_SIZE);
     Some (pages, \<lparr>brk_start = start, brk_current = start, brk_end = e\<rparr>, page_tables, km)
   }"

definition brk_empty :: brk_state where
  "brk_empty = \<lparr>brk_start = 0, brk_current = 0, brk_end = 1\<rparr>"

definition brk_brk :: "brk_state \<Rightarrow> usize \<Rightarrow> usize \<times> brk_state" where
  "brk_brk self b =
     (let self = (if brk_start self \<le> b \<and> b < brk_end self then self\<lparr>brk_current := b\<rparr> else self)
      in (brk_current self, self))"

subsection \<open>Anonymous mappings\<close>

definition mmap_pages_with_address ::
    "address_space \<Rightarrow> kmem \<Rightarrow> nat \<Rightarrow> usize \<Rightarrow> xwr_mode \<Rightarrow> (usize \<times> address_space \<times> kmem) run" where
  "mmap_pages_with_address self km num_pages addr permission = do {
     len \<leftarrow> umul num_pages PAGE_SIZE;
     e \<leftarrow> uadd addr len;
     if is_mapped (page_table self) (addr, e) then Some (0, self, km)
     else do {
       (pages, km) \<leftarrow> pinned_new km num_pages;
       pt \<leftarrow> map_userspace (page_table self) addr (fst pages) len permission ''mmap'';
       Some (addr, self\<lparr>page_table := pt, mappings := bt_insert addr (Mmap pages) (mappings self)\<rparr>, km) }
   }"

definition mmap_pages ::
    "address_space \<Rightarrow> kmem \<Rightarrow> nat \<Rightarrow> xwr_mode \<Rightarrow> (usize \<times> address_space \<times> kmem) run" where
  "mmap_pages self km num_pages permission = do {
     len \<leftarrow> umul num_pages PAGE_SIZE;
     (pages, km) \<leftarrow> pinned_new km num_pages;
     let addr = free_mmap_address self;
     pt \<leftarrow> map_userspace (page_table self) addr (fst pages) len permission ''mmap'';
     nxt \<leftarrow> uadd addr len;
     Some (addr, self\<lparr>page_table := pt, mappings := bt_insert addr (Mmap pages) (mappings self),
                     free_mmap_address := nxt\<rparr>, km)
   }"

definition munmap_pages ::
    "address_space \<Rightarrow> usize \<Rightarrow> usize \<Rightarrow> ((errno + unit) \<times> address_space) run" where
  "munmap_pages self addr len = (case bt_get (mappings self) addr of
       None \<Rightarrow> Some (Inl EINVAL, self)
     | Some entry \<Rightarrow>
         let removed = bt_remove addr (mappings self);
             put_back = self\<lparr>mappings := bt_insert addr entry removed\<rparr>
         in (case entry of
              Mmap pages \<Rightarrow>
                if pinned_size pages \<noteq> len then Some (Inl EINVAL, put_back)
                else do {
                  pt \<leftarrow> unmap_userspace (page_table self) addr len;
                  Some (Inr (), self\<lparr>page_table := pt, mappings := removed\<rparr>) }
            | _ \<Rightarrow> Some (Inl EINVAL, put_back)))"

section \<open>Copy on write\<close>

definition page_base :: "usize \<Rightarrow> usize" where
  "page_base a = a - a mod PAGE_SIZE"

definition copy_page :: "(usize \<Rightarrow> byte) \<Rightarrow> usize \<Rightarrow> usize \<Rightarrow> usize \<Rightarrow> byte" where
  "copy_page r dst src = write_ram r dst (read_ram r src PAGE_SIZE)"

definition resolve_cow_page ::
    "address_space \<Rightarrow> kmem \<Rightarrow> usize \<Rightarrow> (bool \<times> address_space \<times> kmem) run" where
  "resolve_cow_page self km faulting_va =
     (let page_va = page_base faulting_va in
      case bt_get (mappings self) page_va of
        None \<Rightarrow> Some (False, self, km)
      | Some entry \<Rightarrow>
          let removed = bt_remove page_va (mappings self) in
          (case entry of
             Cow cow_info \<Rightarrow> do {
               (new_page, km) \<leftarrow> pinned_new km 1;
               check (phys_addr cow_info mod PAGE_SIZE = 0);
               let km = km\<lparr>ram := copy_page (ram km) (fst new_page) (phys_addr cow_info)\<rparr>;
               pt \<leftarrow> remap_page (page_table self) page_va (fst new_page) (original_perm cow_info);
               Some (True, self\<lparr>page_table := pt, mappings := bt_insert page_va (Allocated new_page) removed\<rparr>, km) }
           | _ \<Rightarrow> Some (False, self\<lparr>mappings := bt_insert page_va entry removed\<rparr>, km)))"

definition is_writable_cow :: "address_space \<Rightarrow> usize \<Rightarrow> bool" where
  "is_writable_cow self va = (case bt_get (mappings self) va of
       Some (Cow c) \<Rightarrow> is_writable (original_perm c)
     | _ \<Rightarrow> False)"

definition ensure_cow_resolved_for_write ::
    "address_space \<Rightarrow> kmem \<Rightarrow> usize \<Rightarrow> usize \<Rightarrow> (address_space \<times> kmem) run" where
  "ensure_cow_resolved_for_write self km addr len =
     (if len = 0 then Some (self, km)
      else do {
        let start_page = page_base addr;
        e \<leftarrow> uadd addr len;
        let end_page = page_base (e - 1);
        d \<leftarrow> usub end_page start_page;
        let num_pages = d div PAGE_SIZE + 1;
        foldM (\<lambda>i (self, km).
          let va = start_page + i * PAGE_SIZE in
          if is_writable_cow self va then do { (_, self, km) \<leftarrow> resolve_cow_page self km va; Some (self, km) }
          else Some (self, km)) [0..<num_pages] (self, km)
      })"

text \<open>The page loop of \<^verbatim>\<open>fork_address_space\<close> for an owned run of pages.\<close>

type_synonym fork_state =
  "root_page_table_holder \<times> root_page_table_holder \<times> (usize, cow_page_info) btree_map \<times> (usize, cow_page_info) btree_map"

definition fork_page :: "usize \<Rightarrow> pinned_pages \<Rightarrow> nat \<Rightarrow> fork_state \<Rightarrow> fork_state run" where
  "fork_page va pages i st = (case st of (parent_pt, child_pt, parent_cow, child_cow) \<Rightarrow> do {
     page_va \<leftarrow> uadd va (i * PAGE_SIZE);
     p \<leftarrow> get_userspace_permissions parent_pt page_va;
     case p of
       None \<Rightarrow> Some st
     | Some perm \<Rightarrow> do {
         phys \<leftarrow> uadd (fst pages) (i * PAGE_SIZE);
         (parent_pt, child_perm) \<leftarrow>
           (if is_writable perm then do {
              pt \<leftarrow> remap_page parent_pt page_va phys (as_readonly perm);
              Some (pt, as_readonly perm) }
            else Some (parent_pt, perm));
         child_pt \<leftarrow> map_userspace child_pt page_va phys PAGE_SIZE child_perm ''fork-cow'';
         let cow_info = \<lparr>phys_addr = phys, original_perm = perm, backing = pages\<rparr>;
         Some (parent_pt, child_pt, bt_insert page_va cow_info parent_cow, bt_insert page_va cow_info child_cow) }
   })"

definition fork_cow :: "usize \<Rightarrow> cow_page_info \<Rightarrow> fork_state \<Rightarrow> fork_state run" where
  "fork_cow va cow_info st = (case st of (parent_pt, child_pt, parent_cow, child_cow) \<Rightarrow> do {
     p \<leftarrow> get_userspace_permissions parent_pt va;
     current_perm \<leftarrow> p;
     child_pt \<leftarrow> map_userspace child_pt va (phys_addr cow_info) PAGE_SIZE current_perm ''fork-cow'';
     Some (parent_pt, child_pt, bt_insert va cow_info parent_cow, bt_insert va cow_info child_cow)
   })"

definition fork_mapping :: "usize \<times> mapping \<Rightarrow> fork_state \<Rightarrow> fork_state run" where
  "fork_mapping e st = (case snd e of
       Allocated pages \<Rightarrow> foldM (fork_page (fst e) pages) [0..<snd pages] st
     | Mmap pages \<Rightarrow> foldM (fork_page (fst e) pages) [0..<snd pages] st
     | Cow cow_info \<Rightarrow> fork_cow (fst e) cow_info st)"

text \<open>
  The child's table starts as \<^verbatim>\<open>new_with_kernel_mapping(&[])\<close>, the argument \<^term>\<open>kernel_pt\<close>; the
  physical address of the signal trampoline comes from the linked image.
\<close>

definition fork_address_space ::
    "usize \<Rightarrow> root_page_table_holder \<Rightarrow> address_space \<Rightarrow> (forked_address_space \<times> address_space) run" where
  "fork_address_space trampoline_phys kernel_pt self = do {
     child_pt \<leftarrow> map_userspace kernel_pt TRAMPOLINE_VADDR trampoline_phys PAGE_SIZE ReadExecute ''Signal trampoline'';
     (parent_pt, child_pt, parent_cow, child_cow) \<leftarrow>
       foldM fork_mapping (mappings self) (page_table self, child_pt, [], []);
     Some (\<lparr>fork_page_table = child_pt, cow_pages = child_cow, fork_brk = as_brk self,
            fork_free_mmap_address = free_mmap_address self\<rparr>,
           self\<lparr>page_table := parent_pt, mappings := map (\<lambda>(va, info). (va, Cow info)) parent_cow\<rparr>)
   }"

definition set_fork_state ::
    "(usize, cow_page_info) btree_map \<Rightarrow> usize \<Rightarrow> address_space \<Rightarrow> address_space" where
  "set_fork_state cows free_addr self =
     self\<lparr>mappings := map (\<lambda>(va, info). (va, Cow info)) cows, free_mmap_address := free_addr\<rparr>"

text \<open>The memory part of \<^verbatim>\<open>do_clone\<close> without \<^verbatim>\<open>CLONE_VM\<close>: the child process and the parent.\<close>

definition clone_address_space ::
    "usize \<Rightarrow> root_page_table_holder \<Rightarrow> address_space \<Rightarrow> (address_space \<times> address_space) run" where
  "clone_address_space trampoline_phys kernel_pt self = do {
     (forked, self) \<leftarrow> fork_address_space trampoline_phys kernel_pt self;
     let child = process_new (fork_page_table forked) [] (fork_brk forked);
     Some (set_fork_state (cow_pages forked) (fork_free_mmap_address forked) child, self)
   }"

section \<open>Access from the kernel\<close>

definition read_userspace_slice ::
    "address_space \<Rightarrow> kmem \<Rightarrow> usize \<Rightarrow> nat \<Rightarrow> (errno + byte list) run" where
  "read_userspace_slice self km ptr len =
     rthen (validate_userspace (page_table self) False ptr 1 len)
       (\<lambda>p. Some (Inr (read_ram (ram km) p len)))"

definition write_userspace_slice ::
    "address_space \<Rightarrow> kmem \<Rightarrow> usize \<Rightarrow> byte list \<Rightarrow> ((errno + unit) \<times> address_space \<times> kmem) run" where
  "write_userspace_slice self km ptr data = do {
     (self, km) \<leftarrow> ensure_cow_resolved_for_write self km ptr (length data);
     v \<leftarrow> validate_userspace (page_table self) True ptr 1 (length data);
     case v of
       Inl e \<Rightarrow> Some (Inl e, self, km)
     | Inr p \<Rightarrow> Some (Inr (), self, km\<lparr>ram := write_ram (ram km) p data\<rparr>)
   }"

section \<open>Access from user mode\<close>

text \<open>
  What the hardware does for a user-mode access: the user-accessible translation of an address, and a
  store, which faults unless the leaf is writable.
\<close>

definition user_frame :: "root_page_table_holder \<Rightarrow> usize \<Rightarrow> (usize \<times> xwr_mode) option" where
  "user_frame pt x = (case xlate pt x of Some (pa, Some m, True) \<Rightarrow> Some (pa, m) | _ \<Rightarrow> None)"

definition hw_store :: "address_space \<Rightarrow> kmem \<Rightarrow> usize \<Rightarrow> byte \<Rightarrow> kmem option" where
  "hw_store self km x b = (case user_frame (page_table self) x of
       Some (pa, m) \<Rightarrow> if is_writable m then Some (km\<lparr>ram := (ram km)(pa := b)\<rparr>) else None
     | None \<Rightarrow> None)"

definition handle_store_page_fault ::
    "address_space \<Rightarrow> kmem \<Rightarrow> usize \<Rightarrow> (bool \<times> address_space \<times> kmem) run" where
  "handle_store_page_fault self km stval = resolve_cow_page self km stval"

definition cow_count :: "address_space \<Rightarrow> nat" where
  "cow_count self = length (filter (\<lambda>e. case snd e of Cow _ \<Rightarrow> True | _ \<Rightarrow> False) (mappings self))"

lemma cow_count_insert: "length (filter P (bt_insert k v m)) \<le> length (filter P m) + (if P (k, v) then 1 else 0)"
  by (induction m) auto

lemma cow_count_remove:
  assumes "bt_get m k = Some v" "P (k, v)"
  shows "length (filter P (bt_remove k m)) < length (filter P m)"
  using assms
proof (induction m)
  case (Cons x m)
  have "length (filter P (bt_remove k m)) \<le> length (filter P m)"
    unfolding bt_remove_def by (induction m) auto
  then show ?case using Cons by (cases x) (auto simp: bt_remove_def split: if_splits)
qed simp

lemma resolve_cow_decreases:
  assumes "resolve_cow_page self km x = Some (True, self', km')"
  shows "cow_count self' < cow_count self"
proof -
  let ?P = "\<lambda>e. case snd e of Cow _ \<Rightarrow> True | _ \<Rightarrow> False"
  obtain c new where c: "bt_get (mappings self) (page_base x) = Some (Cow c)"
      "mappings self' = bt_insert (page_base x) (Allocated new) (bt_remove (page_base x) (mappings self))"
    using assms by (auto simp: resolve_cow_page_def Let_def run_simps split: option.splits mapping.splits)
  have "length (filter ?P (bt_remove (page_base x) (mappings self))) < length (filter ?P (mappings self))"
    by (rule cow_count_remove[OF c(1)]) simp
  then show ?thesis
    using cow_count_insert[of ?P "page_base x" "Allocated new" "bt_remove (page_base x) (mappings self)"] c(2)
    by (simp add: cow_count_def)
qed

text \<open>
  A user store with its page faults: the instruction is retried for as long as the handler resolves the
  fault, and the process gets the signal of an unhandled exception (\<^term>\<open>False\<close>) when it does not.
\<close>

function user_store :: "address_space \<Rightarrow> kmem \<Rightarrow> usize \<Rightarrow> byte \<Rightarrow> (bool \<times> address_space \<times> kmem) run" where
  "user_store self km x b = (case hw_store self km x b of
       Some km' \<Rightarrow> Some (True, self, km')
     | None \<Rightarrow> (case handle_store_page_fault self km x of
           None \<Rightarrow> None
         | Some (resolved, self', km') \<Rightarrow>
             if resolved then user_store self' km' x b else Some (False, self', km')))"
  by pat_completeness auto
termination
  by (relation "measure (\<lambda>(self, _, _, _). cow_count self)")
    (auto simp: handle_store_page_fault_def dest: resolve_cow_decreases)

declare user_store.simps [simp del]

section \<open>Memory system calls\<close>

text \<open>The \<^verbatim>\<open>MAP_*\<close> constants come from generated headers and are parameters.\<close>

record map_consts =
  MAP_ANONYMOUS :: "32 word"
  MAP_PRIVATE :: "32 word"
  MAP_FIXED :: "32 word"

definition next_multiple_of :: "usize \<Rightarrow> usize \<Rightarrow> usize run" where
  "next_multiple_of a n = (if a mod n = 0 then Some a else uadd a (n - a mod n))"

definition do_mmap ::
    "map_consts \<Rightarrow> prot_consts \<Rightarrow> address_space \<Rightarrow> kmem \<Rightarrow> usize \<Rightarrow> usize \<Rightarrow> 32 word \<Rightarrow> 32 word \<Rightarrow> int \<Rightarrow> int
     \<Rightarrow> ((errno + usize) \<times> address_space \<times> kmem) run" where
  "do_mmap k kp p km addr len prot flags fd offset = do {
     check (flags AND NOT (MAP_ANONYMOUS k OR MAP_PRIVATE k OR MAP_FIXED k) = 0);
     check (flags AND (MAP_ANONYMOUS k OR MAP_PRIVATE k) = MAP_ANONYMOUS k OR MAP_PRIVATE k);
     check (fd = -1);
     check (offset = 0);
     if len = 0 then Some (Inl EINVAL, p, km)
     else do {
       len \<leftarrow> next_multiple_of len PAGE_SIZE;
       if flags AND MAP_FIXED k > 0 \<and> addr = 0 then Some (Inl EINVAL, p, km)
       else case from_prot kp prot of
         Inl e \<Rightarrow> Some (Inl e, p, km)
       | Inr permission \<Rightarrow>
           if flags AND MAP_FIXED k > 0 then do {
             e \<leftarrow> uadd addr len;
             if is_mapped (page_table p) (addr, e) then do {
               pt \<leftarrow> mprotect (page_table p) addr len permission;
               Some (Inr addr, p\<lparr>page_table := pt\<rparr>, km) }
             else do {
               (ptr, p, km) \<leftarrow> mmap_pages_with_address p km (len div PAGE_SIZE) addr permission;
               Some (Inr ptr, p, km) } }
           else do {
             anywhere \<leftarrow> (if addr = 0 then Some True
               else do { e \<leftarrow> uadd addr len; Some (is_mapped (page_table p) (addr, e)) });
             (ptr, p, km) \<leftarrow> (if anywhere then mmap_pages p km (len div PAGE_SIZE) permission
               else mmap_pages_with_address p km (len div PAGE_SIZE) addr permission);
             Some (Inr ptr, p, km) } }
   }"

definition do_mprotect ::
    "prot_consts \<Rightarrow> address_space \<Rightarrow> usize \<Rightarrow> usize \<Rightarrow> int \<Rightarrow> ((errno + unit) \<times> address_space) run" where
  "do_mprotect kp p addr len prot =
     (if addr mod PAGE_SIZE \<noteq> 0 \<or> len = 0 then Some (Inl EINVAL, p)
      else if prot < 0 then Some (Inl EINVAL, p)
      else do {
        sz \<leftarrow> next_multiple_of len PAGE_SIZE;
        case from_prot kp (word_of_int prot) of
          Inl e \<Rightarrow> Some (Inl e, p)
        | Inr mode \<Rightarrow> do {
            pt \<leftarrow> mprotect (page_table p) addr sz mode;
            Some (Inr (), p\<lparr>page_table := pt\<rparr>) } })"

section \<open>Changing one page\<close>

lemma get_userspace_permissions_ok:
  assumes "pt_inv pt pos" "get_userspace_permissions pt va = Some p"
  shows "p = (case xlate pt va of None \<Rightarrow> None | Some (_, m, _) \<Rightarrow> m)" "xlate pt va = Some (a, m, u) \<Longrightarrow> m \<noteq> None"
proof -
  show "p = (case xlate pt va of None \<Rightarrow> None | Some (_, m, _) \<Rightarrow> m)"
    using assms(2) by (cases rule: walk_to_entry_cases[OF assms(1), of va])
      (auto simp: get_userspace_permissions_def xlate_def run_simps)
  show "xlate pt va = Some (a, m, u) \<Longrightarrow> m \<noteq> None"
    using assms(2) by (cases rule: walk_to_entry_cases[OF assms(1), of va])
      (auto simp: get_userspace_permissions_def xlate_def run_simps)
qed

lemma remap_page_ok:
  assumes inv: "pt_inv pt pos" and run: "remap_page pt va pa m = Some pt'"
    and pa: "0 < pa" "pa < 2 ^ 56" and m: "m \<noteq> PointerToNextLevel"
  shows "\<exists>f m0 u. pt_inv pt' pos \<and> already_mapped pt' = already_mapped pt \<and> xlate pt va = Some (f, m0, u)
    \<and> (\<forall>x. xlate pt' x = (if low39 va \<le> low39 x \<and> low39 x < low39 va + PAGE_SIZE
        then Some (pa + x mod PAGE_SIZE, Some m, u) else xlate pt x))"
proof -
  let ?a = "word_of_nat pa :: 64 word"
  have ua: "unat ?a = pa" using pa(2) by (simp add: unat_of_nat take_bit_nat_eq_self)
  obtain t e0 e1 e2 where al: "PAGE_SIZE dvd va" and t: "walk_to_table pt va = Some (Some t)" "get_entry pt t va 0 = Some e0"
      and e1: "set_leaf_address ?a e0 = Some e1" and e2: "set_xwr_mode m e1 = Some e2"
      and p: "put_entry pt t va 0 e2 = Some pt'"
    using run by (auto simp: remap_page_def update_leaf_def run_simps va_page_aligned_iff split: option.splits)
  have a1: "is_page_aligned ?a" "e1 = set_page_bits ?a e0" using e1 by (auto simp: set_leaf_address_def run_simps)
  have f: "pte_valid e2 = pte_valid e0" "pte_user e2 = pte_user e0" "pte_addr e2 = ?a" "get_xwr_mode e2 = Some m"
    using set_xwr_mode_spec[of m e1] e2 a1 set_page_bits_addr[OF a1(1), of e0] ua pa(2) by auto
  have w: "hw_walk (tables pt) 2 (root_table pt) va = Some (0, e0) \<and> pte_valid e0"
    using t by (cases rule: hw_walk_cases[OF inv, of va])
      (auto simp: get_entry_eq[of pt t] xlate_def)
  have ok: "entry_ok pos (vpath va 0) (vidx va 0) e2"
    using f w pa(1) ua m pte_leaf_iff[of e2 m] by (auto simp: entry_ok_def)
  from put_page_ok[OF inv al t(1) ok] p obtain e0' where q: "pt_inv pt' pos" "already_mapped pt' = already_mapped pt"
    "\<forall>x. hw_walk (tables pt') 2 (root_table pt') x =
          (if low39 va \<le> low39 x \<and> low39 x < low39 va + PAGE_SIZE
           then (if pte_valid e2 then Some (0, e2) else None) else hw_walk (tables pt) 2 (root_table pt) x)"
    by auto
  have "\<forall>x. xlate pt' x = (if low39 va \<le> low39 x \<and> low39 x < low39 va + PAGE_SIZE
        then Some (pa + x mod PAGE_SIZE, Some m, pte_user e0) else xlate pt x)"
    using q(3) f w ua by (auto simp: xlate_def PAGE_SIZE_def)
  moreover have "xlate pt va = Some (unat (pte_addr e0) + va mod 2 ^ 12, get_xwr_mode e0, pte_user e0)"
    using w by (simp add: xlate_def)
  ultimately show ?thesis using q(1,2) by blast
qed

lemma user_frame_eq: "user_frame pt x = Some (pa, m) \<longleftrightarrow> xlate pt x = Some (pa, Some m, True)"
  by (auto simp: user_frame_def split: option.splits bool.splits)

definition in_page :: "usize \<Rightarrow> usize \<Rightarrow> bool" where
  "in_page va x \<longleftrightarrow> va \<le> x \<and> x < va + PAGE_SIZE"

lemma in_page_offset: "PAGE_SIZE dvd va \<Longrightarrow> in_page va x \<Longrightarrow> x mod PAGE_SIZE = x - va"
  by (auto simp: in_page_def dvd_def) (metis le_add_diff_inverse less_diff_conv2 mod_less mod_mult_self4 nat_add_left_cancel_less)

lemma user_frame_remap:
  assumes "pt_well_formed pt" "remap_page pt va pa m = Some pt'" "0 < pa" "pa < 2 ^ 56"
    "m \<noteq> PointerToNextLevel" "user_frame pt va = Some (f, m0)" "va < 2 ^ 39" "PAGE_SIZE dvd va"
  shows "pt_well_formed pt'" "already_mapped pt' = already_mapped pt"
    "x < 2 ^ 39 \<Longrightarrow> user_frame pt' x = (if in_page va x then Some (pa + (x - va), m) else user_frame pt x)"
proof -
  obtain pos where inv: "pt_inv pt pos" using assms(1) by (auto simp: pt_well_formed_def)
  have r: "pt_inv pt' pos" "already_mapped pt' = already_mapped pt"
     "\<forall>x. xlate pt' x = (if low39 va \<le> low39 x \<and> low39 x < low39 va + PAGE_SIZE
        then Some (pa + x mod PAGE_SIZE, Some m, True) else xlate pt x)"
    using remap_page_ok[OF inv assms(2-5)] assms(6) by (auto simp: user_frame_eq)
  then show "pt_well_formed pt'" "already_mapped pt' = already_mapped pt" by (auto simp: pt_well_formed_def)
  assume "x < 2 ^ 39"
  then have "xlate pt' x = (if in_page va x then Some (pa + (x - va), Some m, True) else xlate pt x)"
    using r(3)[rule_format, of x] assms(7) in_page_offset[OF assms(8), of x] by (auto simp: in_page_def)
  then show "user_frame pt' x = (if in_page va x then Some (pa + (x - va), m) else user_frame pt x)"
    by (simp add: user_frame_def)
qed

definition in_run :: "usize \<Rightarrow> nat \<Rightarrow> usize \<Rightarrow> bool" where
  "in_run va n x \<longleftrightarrow> va \<le> x \<and> x < va + n * PAGE_SIZE"

lemma in_run_1 [simp]: "in_run va 1 x = in_page va x" "in_run va (Suc 0) x = in_page va x"
  by (simp_all add: in_run_def in_page_def)

lemma user_frame_map:
  assumes "pt_well_formed pt" "map_userspace pt va pa (n * PAGE_SIZE) m name = Some pt'" "0 < pa"
    "pa + n * PAGE_SIZE \<le> 2 ^ 56" "m \<noteq> PointerToNextLevel" "va + n * PAGE_SIZE \<le> 2 ^ 39" "0 < n"
  shows "pt_well_formed pt'" "PAGE_SIZE dvd va" "\<not> is_mapped pt (va, va + (n * PAGE_SIZE - 1))"
    "already_mapped pt' = already_mapped pt @ [\<lparr>range_start = va, range_end = va + (n * PAGE_SIZE - 1),
       mapping_name = name, privileges = m\<rparr>]"
    "x < 2 ^ 39 \<Longrightarrow> user_frame pt' x = (if in_run va n x then Some (pa + (x - va), m) else user_frame pt x)"
proof -
  obtain pos where inv: "pt_inv pt pos" using assms(1) by (auto simp: pt_well_formed_def)
  have al: "align_up (n * PAGE_SIZE) PAGE_SIZE = Some (n * PAGE_SIZE)"
    by (simp add: align_up_def urem_def PAGE_SIZE_def)
  have va: "va < 2 ^ 39" using assms(6,7) by (simp add: PAGE_SIZE_def)
  have run: "pt_map pt va pa (n * PAGE_SIZE) m True name = Some pt'" using assms(2) by (simp add: map_userspace_def)
  from pt_map_ok[OF inv run al assms(3,4) _ assms(5)] va assms(6)
  show "pt_well_formed pt'" "already_mapped pt' = already_mapped pt @ [\<lparr>range_start = va,
       range_end = va + (n * PAGE_SIZE - 1), mapping_name = name, privileges = m\<rparr>]"
    by auto
  show "PAGE_SIZE dvd va" "\<not> is_mapped pt (va, va + (n * PAGE_SIZE - 1))"
    using run al by (auto simp: pt_map_def run_simps va_page_aligned_iff is_mapped_def)
  assume "x < 2 ^ 39"
  then have "xlate pt' x = (if in_run va n x then Some (pa + (x - va), Some m, True) else xlate pt x)"
    using pt_map_ok[OF inv run al assms(3,4) _ assms(5)] va assms(6) by (simp add: in_run_def)
  then show "user_frame pt' x = (if in_run va n x then Some (pa + (x - va), m) else user_frame pt x)"
    by (simp add: user_frame_def)
qed

lemma page_base_dvd [simp]: "PAGE_SIZE dvd page_base x"
  by (simp add: page_base_def minus_mod_eq_div_mult)

lemma in_page_base: "PAGE_SIZE dvd va \<Longrightarrow> in_page va x \<longleftrightarrow> page_base x = va"
proof
  assume "PAGE_SIZE dvd va" "in_page va x"
  then show "page_base x = va" using in_page_offset[of va x] by (simp add: page_base_def in_page_def)
next
  assume "page_base x = va"
  then show "in_page va x" using mod_less_divisor[of PAGE_SIZE x] mod_less_eq_dividend[of x PAGE_SIZE]
    by (auto simp: page_base_def in_page_def PAGE_SIZE_def)
qed

lemma user_frame_page:
  assumes "page_base x = page_base y" "user_frame pt x = Some (pa, m)"
  shows "\<exists>pb. user_frame pt y = Some (pb, m)"
proof -
  have "x div PAGE_SIZE * PAGE_SIZE = y div PAGE_SIZE * PAGE_SIZE"
    using assms(1) by (simp add: page_base_def minus_mod_eq_div_mult)
  then have "x div PAGE_SIZE = y div PAGE_SIZE" by (simp add: PAGE_SIZE_def)
  then show ?thesis using assms(2) hw_walk_page[of x y "tables pt" 2 "root_table pt"]
    by (auto simp: user_frame_eq xlate_def)
qed

lemma dvd_add_le: "(k :: nat) dvd a \<Longrightarrow> k dvd b \<Longrightarrow> a < b \<Longrightarrow> a + k \<le> b"
  by (metis dvd_diff_nat dvd_imp_le le_add_diff_inverse less_or_eq_imp_le nat_add_left_cancel_le zero_less_diff)

text \<open>A page inside a run of pages lies in the run as a whole.\<close>

lemma page_in_run:
  assumes "PAGE_SIZE dvd va" "PAGE_SIZE dvd v" "in_run va n v" "in_page v x"
  shows "in_run va n x" "v + PAGE_SIZE \<le> va + n * PAGE_SIZE"
proof -
  show "v + PAGE_SIZE \<le> va + n * PAGE_SIZE"
    using assms by (intro dvd_add_le) (auto simp: in_run_def)
  then show "in_run va n x" using assms(3,4) by (auto simp: in_run_def in_page_def)
qed

lemma page_base_less: "x < 2 ^ 39 \<Longrightarrow> page_base x < 2 ^ 39"
  by (simp add: page_base_def)

lemma in_run_page_base: "PAGE_SIZE dvd va \<Longrightarrow> in_run va n x \<Longrightarrow> in_run va n (page_base x)"
proof -
  assume a: "PAGE_SIZE dvd va" "in_run va n x"
  have "page_base x \<le> x" by (simp add: page_base_def)
  moreover have "va \<le> page_base x"
  proof (rule ccontr)
    assume "\<not> va \<le> page_base x"
    then have "page_base x + PAGE_SIZE \<le> va" using a(1) by (intro dvd_add_le) auto
    then show False using a(2) in_page_base[of "page_base x" x] by (auto simp: in_page_def in_run_def)
  qed
  ultimately show ?thesis using a(2) by (auto simp: in_run_def)
qed

section \<open>Well-formed address spaces\<close>

definition frames :: "pinned_pages \<Rightarrow> usize set" where
  "frames r = {fst r..<fst r + snd r * PAGE_SIZE}"

fun pages_of :: "mapping \<Rightarrow> pinned_pages" where
  "pages_of (Allocated p) = p"
| "pages_of (Mmap p) = p"
| "pages_of (Cow c) = (phys_addr c, 1)"

fun owned :: "mapping \<Rightarrow> bool" where
  "owned (Cow _) = False"
| "owned _ = True"

definition run_ok :: "pinned_pages \<Rightarrow> bool" where
  "run_ok r \<longleftrightarrow> PAGE_SIZE dvd fst r \<and> 0 < fst r \<and> fst r + snd r * PAGE_SIZE \<le> 2 ^ 56 \<and> 0 < snd r"

text \<open>
  An entry of \<^verbatim>\<open>mappings\<close>: its pages are translated to its frames, a copy-on-write page without
  write permission, and the frame of a copy-on-write page lies in the pages its \<^verbatim>\<open>Arc\<close> keeps alive.
\<close>

fun mode_ok :: "mapping \<Rightarrow> xwr_mode \<Rightarrow> bool" where
  "mode_ok (Cow c) m \<longleftrightarrow> m = as_readonly (original_perm c)"
| "mode_ok _ m \<longleftrightarrow> m \<noteq> PointerToNextLevel"

fun backing_ok :: "mapping \<Rightarrow> bool" where
  "backing_ok (Cow c) \<longleftrightarrow> original_perm c \<noteq> PointerToNextLevel \<and> frames (phys_addr c, 1) \<subseteq> frames (backing c)"
| "backing_ok _ \<longleftrightarrow> True"

definition entry_wf :: "root_page_table_holder \<Rightarrow> usize \<Rightarrow> mapping \<Rightarrow> bool" where
  "entry_wf pt va e \<longleftrightarrow> PAGE_SIZE dvd va \<and> va + snd (pages_of e) * PAGE_SIZE \<le> 2 ^ 39 \<and> run_ok (pages_of e) \<and> backing_ok e
     \<and> (\<forall>x. in_run va (snd (pages_of e)) x \<longrightarrow>
          (\<exists>m. user_frame pt x = Some (fst (pages_of e) + (x - va), m) \<and> mode_ok e m))"

definition covered :: "usize \<Rightarrow> (usize \<rightharpoonup> mapping) \<Rightarrow> usize \<Rightarrow> usize \<Rightarrow> xwr_mode \<Rightarrow> bool" where
  "covered tramp ms x pa m \<longleftrightarrow> (\<exists>va e. ms va = Some e \<and> in_run va (snd (pages_of e)) x)
     \<or> in_page TRAMPOLINE_VADDR x \<and> pa = tramp + (x - TRAMPOLINE_VADDR) \<and> m = ReadExecute"

definition registered :: "root_page_table_holder \<Rightarrow> usize \<Rightarrow> bool" where
  "registered pt x \<longleftrightarrow> (\<exists>r\<in>set (already_mapped pt). range_start r \<le> x \<and> x \<le> range_end r)"

definition trampoline_ok :: "usize \<Rightarrow> address_space \<Rightarrow> bool" where
  "trampoline_ok tramp s \<longleftrightarrow> (\<forall>x. in_page TRAMPOLINE_VADDR x \<longrightarrow>
     user_frame (page_table s) x = Some (tramp + (x - TRAMPOLINE_VADDR), ReadExecute)
     \<and> (\<forall>va e. bt_get (mappings s) va = Some e \<longrightarrow> \<not> in_run va (snd (pages_of e)) x))"

lemma trampoline_okD:
  assumes "trampoline_ok tramp s" "in_page TRAMPOLINE_VADDR x"
  shows "user_frame (page_table s) x = Some (tramp + (x - TRAMPOLINE_VADDR), ReadExecute)"
    "bt_get (mappings s) va = Some e \<Longrightarrow> \<not> in_run va (snd (pages_of e)) x"
  using assms unfolding trampoline_ok_def by blast+

definition as_ok :: "usize \<Rightarrow> address_space \<Rightarrow> bool" where
  "as_ok tramp s \<longleftrightarrow> pt_well_formed (page_table s) \<and> bt_wf (mappings s)
     \<and> (\<forall>va e. bt_get (mappings s) va = Some e \<longrightarrow> entry_wf (page_table s) va e)
     \<and> (\<forall>va e va' e' x. bt_get (mappings s) va = Some e \<longrightarrow> bt_get (mappings s) va' = Some e' \<longrightarrow>
          in_run va (snd (pages_of e)) x \<longrightarrow> in_run va' (snd (pages_of e')) x \<longrightarrow> va = va')
     \<and> (\<forall>x pa m. x < 2 ^ 39 \<longrightarrow> user_frame (page_table s) x = Some (pa, m) \<longrightarrow>
          covered tramp (bt_get (mappings s)) x pa m \<and> registered (page_table s) x)
     \<and> trampoline_ok tramp s"

lemma as_okD:
  assumes "as_ok tramp s"
  shows "pt_well_formed (page_table s)" "bt_wf (mappings s)"
    "bt_get (mappings s) va = Some e \<Longrightarrow> entry_wf (page_table s) va e"
    "bt_get (mappings s) va = Some e \<Longrightarrow> bt_get (mappings s) va' = Some e' \<Longrightarrow>
       in_run va (snd (pages_of e)) x \<Longrightarrow> in_run va' (snd (pages_of e')) x \<Longrightarrow> va = va'"
    "x < 2 ^ 39 \<Longrightarrow> user_frame (page_table s) x = Some (pa, m) \<Longrightarrow>
       covered tramp (bt_get (mappings s)) x pa m \<and> registered (page_table s) x"
    "trampoline_ok tramp s"
  using assms unfolding as_ok_def by blast+

lemma as_okI:
  assumes "pt_well_formed (page_table s)" "bt_wf (mappings s)"
    "\<And>va e. bt_get (mappings s) va = Some e \<Longrightarrow> entry_wf (page_table s) va e"
    "\<And>va e va' e' x. bt_get (mappings s) va = Some e \<Longrightarrow> bt_get (mappings s) va' = Some e' \<Longrightarrow>
       in_run va (snd (pages_of e)) x \<Longrightarrow> in_run va' (snd (pages_of e')) x \<Longrightarrow> va = va'"
    "\<And>x pa m. x < 2 ^ 39 \<Longrightarrow> user_frame (page_table s) x = Some (pa, m) \<Longrightarrow>
       covered tramp (bt_get (mappings s)) x pa m \<and> registered (page_table s) x"
    "trampoline_ok tramp s"
  shows "as_ok tramp s"
  unfolding as_ok_def using assms by blast

lemma as_ok_frame:
  assumes "as_ok tramp s" "bt_get (mappings s) va = Some e" "in_run va (snd (pages_of e)) x"
  obtains m where "user_frame (page_table s) x = Some (fst (pages_of e) + (x - va), m)" "mode_ok e m"
    "fst (pages_of e) + (x - va) \<in> frames (pages_of e)" "x < 2 ^ 39"
proof -
  have w: "entry_wf (page_table s) va e" by (rule as_okD(3)[OF assms(1,2)])
  then obtain m where "user_frame (page_table s) x = Some (fst (pages_of e) + (x - va), m)" "mode_ok e m"
    using assms(3) unfolding entry_wf_def by blast
  moreover have "fst (pages_of e) + (x - va) \<in> frames (pages_of e)" "x < 2 ^ 39"
    using assms(3) w by (auto simp: frames_def in_run_def entry_wf_def)
  ultimately show ?thesis using that by blast
qed

text \<open>Every user translation comes from an entry or from the trampoline.\<close>

lemma user_frame_cases:
  assumes "as_ok tramp s" "user_frame (page_table s) x = Some (pa, m)" "x < 2 ^ 39"
  obtains (entry) va e where "bt_get (mappings s) va = Some e" "in_run va (snd (pages_of e)) x"
      "pa = fst (pages_of e) + (x - va)" "pa \<in> frames (pages_of e)" "mode_ok e m"
  | (trampoline) "in_page TRAMPOLINE_VADDR x" "pa \<in> frames (tramp, 1)" "m = ReadExecute"
proof -
  from as_okD(5)[OF assms(1,3,2)] consider
    (a) va e where "bt_get (mappings s) va = Some e" "in_run va (snd (pages_of e)) x"
  | (b) "in_page TRAMPOLINE_VADDR x" "pa = tramp + (x - TRAMPOLINE_VADDR)" "m = ReadExecute"
    by (auto simp: covered_def)
  then show ?thesis
  proof cases
    case a
    then show ?thesis using as_ok_frame[OF assms(1) a] assms(2) by (intro entry[OF a]) auto
  next
    case b
    then show ?thesis by (intro trampoline) (auto simp: frames_def in_page_def)
  qed
qed

lemma writable_owned:
  assumes "as_ok tramp s" "user_frame (page_table s) x = Some (pa, m)" "x < 2 ^ 39" "is_writable m"
  obtains va e where "bt_get (mappings s) va = Some e" "in_run va (snd (pages_of e)) x" "owned e"
      "pa = fst (pages_of e) + (x - va)" "pa \<in> frames (pages_of e)"
proof -
  have ro: "\<not> is_writable (as_readonly n)" for n by (cases n) auto
  from assms(1-3) show ?thesis
  proof (cases rule: user_frame_cases)
    case (entry va e)
    then show ?thesis using assms(4) ro by (intro that[of va e]) (cases e; auto)+
  next
    case trampoline
    then show ?thesis using assms(4) by simp
  qed
qed

section \<open>The machine and its specification\<close>

record machine =
  procs :: "nat \<rightharpoonup> address_space"
  kernel_memory :: kmem

text \<open>
  Memory as a process sees it: the byte at an address, and the permission it has asked for, which for a
  copy-on-write page is the one remembered in its entry.
\<close>

definition logical_perm :: "address_space \<Rightarrow> usize \<Rightarrow> xwr_mode \<Rightarrow> xwr_mode" where
  "logical_perm s x m = (case bt_get (mappings s) (page_base x) of Some (Cow c) \<Rightarrow> original_perm c | _ \<Rightarrow> m)"

definition view :: "address_space \<Rightarrow> (usize \<Rightarrow> byte) \<Rightarrow> usize \<Rightarrow> (byte \<times> xwr_mode) option" where
  "view s r x = (if x < 2 ^ 39
     then map_option (\<lambda>(pa, m). (r pa, logical_perm s x m)) (user_frame (page_table s) x) else None)"

lemma view_Some: "view s r x = Some (b, m) \<longleftrightarrow>
    x < 2 ^ 39 \<and> (\<exists>pa m'. user_frame (page_table s) x = Some (pa, m') \<and> b = r pa \<and> m = logical_perm s x m')"
  by (cases "user_frame (page_table s) x") (auto simp: view_def)

definition views :: "machine \<Rightarrow> nat \<rightharpoonup> (usize \<Rightarrow> (byte \<times> xwr_mode) option)" where
  "views S p = map_option (\<lambda>s. view s (ram (kernel_memory S))) (procs S p)"

definition exclusive :: "(nat \<rightharpoonup> address_space) \<Rightarrow> bool" where
  "exclusive P \<longleftrightarrow> (\<forall>p s v e q t w d. P p = Some s \<longrightarrow> bt_get (mappings s) v = Some e \<longrightarrow> owned e \<longrightarrow>
     P q = Some t \<longrightarrow> bt_get (mappings t) w = Some d \<longrightarrow> (p, v) \<noteq> (q, w) \<longrightarrow> frames (pages_of e) \<inter> frames (pages_of d) = {})"

definition in_use :: "usize \<Rightarrow> (nat \<rightharpoonup> address_space) \<Rightarrow> usize set" where
  "in_use tramp P = frames (tramp, 1) \<union> (\<Union>p s v e. {y. P p = Some s \<and> bt_get (mappings s) v = Some e \<and> y \<in> frames (pages_of e)})"

fun runs_free :: "usize set \<Rightarrow> (usize \<times> nat) list \<Rightarrow> bool" where
  "runs_free used [] \<longleftrightarrow> True"
| "runs_free used (r # rs) \<longleftrightarrow> run_ok r \<and> frames r \<inter> used = {} \<and> runs_free (used \<union> frames r) rs"

definition sys_inv :: "usize \<Rightarrow> machine \<Rightarrow> bool" where
  "sys_inv tramp S \<longleftrightarrow> (\<forall>p s. procs S p = Some s \<longrightarrow> as_ok tramp s) \<and> exclusive (procs S)
     \<and> (\<forall>p s v e. procs S p = Some s \<longrightarrow> bt_get (mappings s) v = Some e \<longrightarrow> owned e \<longrightarrow>
          frames (pages_of e) \<inter> frames (tramp, 1) = {})
     \<and> runs_free (in_use tramp (procs S)) (heap_runs (kernel_memory S))"

lemma sys_invD:
  assumes "sys_inv tramp S" "procs S p = Some s"
  shows "as_ok tramp s"
    "bt_get (mappings s) v = Some e \<Longrightarrow> owned e \<Longrightarrow> frames (pages_of e) \<inter> frames (tramp, 1) = {}"
    "bt_get (mappings s) v = Some e \<Longrightarrow> owned e \<Longrightarrow> procs S q = Some t \<Longrightarrow> bt_get (mappings t) w = Some d \<Longrightarrow>
      (p, v) \<noteq> (q, w) \<Longrightarrow> frames (pages_of e) \<inter> frames (pages_of d) = {}"
    "runs_free (in_use tramp (procs S)) (heap_runs (kernel_memory S))"
  using assms unfolding sys_inv_def exclusive_def by blast+

lemma frame_in_use:
  assumes "sys_inv tramp S" "procs S p = Some s" "user_frame (page_table s) x = Some (pa, m)" "x < 2 ^ 39"
  shows "pa \<in> in_use tramp (procs S)"
  using sys_invD(1)[OF assms(1,2)] assms(3,4)
proof (cases rule: user_frame_cases)
  case (entry va e)
  then show ?thesis using assms(2) unfolding in_use_def by blast
qed (simp add: in_use_def)

section \<open>Writes\<close>

lemma view_unaffected:
  assumes "sys_inv tramp S" "procs S p = Some s" "\<And>y. y \<in> in_use tramp (procs S) \<Longrightarrow> r' y = r y"
  shows "view s r' = view s r"
proof
  fix x
  show "view s r' x = view s r x"
    using frame_in_use[OF assms(1,2), of x] assms(3) by (cases "user_frame (page_table s) x") (auto simp: view_def)
qed

lemma owned_write:
  assumes inv: "sys_inv tramp S" and p: "procs S p = Some s" "bt_get (mappings s) v = Some e" "owned e"
    and out: "\<forall>y. y \<notin> frames (pages_of e) \<longrightarrow> r' y = r y"
  shows "\<And>q t. procs S q = Some t \<Longrightarrow> q \<noteq> p \<Longrightarrow> view t r' = view t r"
    "\<And>x. \<not> in_run v (snd (pages_of e)) x \<Longrightarrow> view s r' x = view s r x"
proof -
  have tr: "y \<in> frames (tramp, 1) \<Longrightarrow> r' y = r y" for y
    using sys_invD(2)[OF inv p] out by blast
  have other: "y \<in> frames (pages_of d) \<Longrightarrow> r' y = r y"
    if "procs S q = Some t" "bt_get (mappings t) w = Some d" "(p, v) \<noteq> (q, w)" for q t w d y
    using sys_invD(3)[OF inv p that] out by blast
  have val: "r' pa = r pa" if "procs S q = Some t" "user_frame (page_table t) x = Some (pa, m)" "x < 2 ^ 39"
      "q \<noteq> p \<or> \<not> in_run v (snd (pages_of e)) x" for q t x pa m
    using sys_invD(1)[OF inv that(1)] that(2,3)
  proof (cases rule: user_frame_cases)
    case (entry w d)
    then have "(p, v) \<noteq> (q, w)" using that(1,4) p(1,2) by auto
    then show ?thesis using other[OF that(1) entry(1)] entry(4) by blast
  qed (rule tr)
  show "view t r' = view t r" if "procs S q = Some t" "q \<noteq> p" for q t
  proof
    fix x show "view t r' x = view t r x"
      using val[OF that(1), of x] that(2) by (cases "user_frame (page_table t) x") (auto simp: view_def)
  qed
  show "view s r' x = view s r x" if "\<not> in_run v (snd (pages_of e)) x" for x
    using val[OF p(1), of x] that by (cases "user_frame (page_table s) x") (auto simp: view_def)
qed

lemma sys_inv_ram [simp]:
  "sys_inv tramp (S\<lparr>kernel_memory := (kernel_memory S)\<lparr>ram := r\<rparr>\<rparr>) = sys_inv tramp S"
  by (simp add: sys_inv_def)

lemma logical_perm_owned:
  assumes ok: "as_ok tramp s" and e: "bt_get (mappings s) v = Some e" "in_run v (snd (pages_of e)) x" "owned e"
  shows "logical_perm s x m = m"
proof (cases "bt_get (mappings s) (page_base x)")
  case (Some d)
  have va: "PAGE_SIZE dvd v" using as_okD(3)[OF ok e(1)] by (simp add: entry_wf_def)
  have "in_run (page_base x) (snd (pages_of d)) (page_base x)"
    using as_okD(3)[OF ok Some] by (auto simp: entry_wf_def run_ok_def in_run_def PAGE_SIZE_def)
  then have "page_base x = v" using as_okD(4)[OF ok Some e(1) _ in_run_page_base[OF va e(2)]] by simp
  then have "d = e" using Some e(1) by simp
  then show ?thesis using Some e(3) by (cases d) (auto simp: logical_perm_def)
qed (simp add: logical_perm_def)

text \<open>Bytes that start in a page and do not leave it.\<close>

definition page_span :: "usize \<Rightarrow> nat \<Rightarrow> bool" where
  "page_span x n \<longleftrightarrow> 0 < n \<and> page_base (x + n - 1) = page_base x"

lemma page_span_base:
  assumes "page_span x n" "x \<le> y" "y < x + n" shows "page_base y = page_base x"
proof -
  have "page_base x \<le> x" by (simp add: page_base_def)
  moreover have "in_page (page_base x) (x + n - 1)"
    using in_page_base[of "page_base x"] assms(1) by (simp add: page_span_def)
  ultimately have "in_page (page_base x) y" using assms by (auto simp: in_page_def)
  then show ?thesis using in_page_base[of "page_base x" y] by simp
qed

lemma page_span_run:
  assumes "PAGE_SIZE dvd v" "in_run v k x" "page_span x n" "x \<le> y" "y < x + n" shows "in_run v k y"
  using page_in_run(1)[OF assms(1) page_base_dvd in_run_page_base[OF assms(1,2)], of y]
    in_page_base[of "page_base x" y] page_span_base[OF assms(3-5)] by simp

text \<open>Writing bytes into one writable page of a process.\<close>

lemma page_write_view:
  assumes ok: "as_ok tramp s" and u: "user_frame (page_table s) x = Some (pa, m)"
    and bs: "page_span x (length bs)"
    and e: "bt_get (mappings s) v = Some e" "in_run v (snd (pages_of e)) x" "owned e" "pa = fst (pages_of e) + (x - v)"
    and y: "in_run v (snd (pages_of e)) y"
  shows "view s (write_ram r pa bs) y = (if x \<le> y \<and> y < x + length bs then Some (bs ! (y - x), m) else view s r y)"
proof -
  obtain m' where f: "user_frame (page_table s) y = Some (fst (pages_of e) + (y - v), m')" "y < 2 ^ 39"
    using as_ok_frame[OF ok e(1) y] by metis
  have off: "pa \<le> fst (pages_of e) + (y - v) \<and> fst (pages_of e) + (y - v) < pa + length bs \<longleftrightarrow> x \<le> y \<and> y < x + length bs"
      "fst (pages_of e) + (y - v) - pa = y - x"
    using y e(2,4) by (auto simp: in_run_def)
  have "m' = m" if "x \<le> y" "y < x + length bs"
    using user_frame_page[OF page_span_base[OF bs that] f(1)] u by simp
  then show ?thesis using f off logical_perm_owned[OF ok e(1) y e(3)] by (auto simp: view_def write_ram_def)
qed

lemma page_write_ok:
  assumes inv: "sys_inv tramp S" and p: "procs S p = Some s" "x < 2 ^ 39"
    and u: "user_frame (page_table s) x = Some (pa, m)" "is_writable m" and bs: "page_span x (length bs)"
  shows "logical_perm s x m = m"
    "views (S\<lparr>kernel_memory := (kernel_memory S)\<lparr>ram := write_ram (ram (kernel_memory S)) pa bs\<rparr>\<rparr>) = (views S)(p \<mapsto>
       (\<lambda>y. if x \<le> y \<and> y < x + length bs then Some (bs ! (y - x), m) else view s (ram (kernel_memory S)) y))"
proof -
  let ?r = "ram (kernel_memory S)" let ?w = "write_ram ?r pa bs"
  have ok: "as_ok tramp s" by (rule sys_invD(1)[OF inv p(1)])
  obtain v e where e: "bt_get (mappings s) v = Some e" "in_run v (snd (pages_of e)) x" "owned e"
      "pa = fst (pages_of e) + (x - v)" "pa \<in> frames (pages_of e)"
    using writable_owned[OF ok u(1) p(2) u(2)] .
  show "logical_perm s x m = m" by (rule logical_perm_owned[OF ok e(1-3)])
  have va: "PAGE_SIZE dvd v" using as_okD(3)[OF ok e(1)] by (simp add: entry_wf_def)
  note run = page_span_run[OF va e(2) bs]
  have out: "\<forall>y. y \<notin> frames (pages_of e) \<longrightarrow> ?w y = ?r y"
  proof (intro allI impI)
    fix y assume y: "y \<notin> frames (pages_of e)"
    show "?w y = ?r y"
    proof (cases "pa \<le> y \<and> y < pa + length bs")
      case True
      then have "in_run v (snd (pages_of e)) (x + (y - pa))" by (intro run) auto
      then show ?thesis using y True e(2,4) by (auto simp: frames_def in_run_def)
    qed (auto simp: write_ram_def)
  qed
  note ow = owned_write[where r' = "?w" and r = ?r, OF inv p(1) e(1,3) out]
  have "view s ?w y = (if x \<le> y \<and> y < x + length bs then Some (bs ! (y - x), m) else view s ?r y)" for y
    using page_write_view[OF ok u(1) bs e(1-4), of y ?r] ow(2)[of y] run[of y] by (cases "in_run v (snd (pages_of e)) y") auto
  then have "view s ?w = (\<lambda>y. if x \<le> y \<and> y < x + length bs then Some (bs ! (y - x), m) else view s ?r y)" by (rule ext)
  then have "views (S\<lparr>kernel_memory := (kernel_memory S)\<lparr>ram := ?w\<rparr>\<rparr>) q = ((views S)(p \<mapsto>
       (\<lambda>y. if x \<le> y \<and> y < x + length bs then Some (bs ! (y - x), m) else view s ?r y))) q" for q
    using ow(1)[of q] p(1) by (cases "q = p"; cases "procs S q") (auto simp: views_def)
  then show "views (S\<lparr>kernel_memory := (kernel_memory S)\<lparr>ram := ?w\<rparr>\<rparr>) = (views S)(p \<mapsto>
       (\<lambda>y. if x \<le> y \<and> y < x + length bs then Some (bs ! (y - x), m) else view s ?r y))" by (rule ext)
qed

lemma hw_store_ok:
  assumes inv: "sys_inv tramp S" and p: "procs S p = Some s" "x < 2 ^ 39"
    and run: "hw_store s (kernel_memory S) x b = Some km"
  shows "\<exists>c m. view s (ram (kernel_memory S)) x = Some (c, m) \<and> is_writable m
    \<and> sys_inv tramp (S\<lparr>kernel_memory := km\<rparr>)
    \<and> views (S\<lparr>kernel_memory := km\<rparr>) = (views S)(p \<mapsto> (view s (ram (kernel_memory S)))(x \<mapsto> (b, m)))"
proof -
  let ?r = "ram (kernel_memory S)"
  obtain pa m where u: "user_frame (page_table s) x = Some (pa, m)" "is_writable m"
      and km: "km = (kernel_memory S)\<lparr>ram := ?r(pa := b)\<rparr>"
    using run by (auto simp: hw_store_def split: option.splits if_splits)
  have w: "?r(pa := b) = write_ram ?r pa [b]" by (auto simp: write_ram_def fun_eq_iff)
  have f: "(\<lambda>y. if x \<le> y \<and> y < x + length [b] then Some ([b] ! (y - x), m) else view s ?r y) = (view s ?r)(x \<mapsto> (b, m))"
    by (auto simp: fun_eq_iff)
  have "page_span x (length [b])" by (simp add: page_span_def)
  note pw = page_write_ok[OF inv p u this, unfolded f]
  have "view s ?r x = Some (?r pa, m)" using u(1) p(2) pw(1) by (simp add: view_def)
  then show ?thesis using pw(2) inv u(2) by (simp add: km w)
qed

section \<open>Resolving a copy-on-write page\<close>

lemma bt_reinsert: "bt_wf m \<Longrightarrow> bt_get m k = Some v \<Longrightarrow> bt_insert k v (bt_remove k m) = m"
proof (induction m)
  case (Cons x m)
  have wf: "bt_wf m" "\<forall>y\<in>set m. fst x < fst y" using Cons.prems(1) by (auto simp: bt_wf_def)
  show ?case
  proof (cases "fst x = k")
    case True
    have "bt_remove k m = m" unfolding bt_remove_def using wf(2) True by (intro filter_True) auto
    moreover have "bt_insert k v m = (k, v) # m" using wf(2) True by (cases m) auto
    ultimately show ?thesis using True Cons.prems(2) by (cases x) (simp add: bt_remove_def)
  next
    case False
    then have g: "bt_get m k = Some v" using Cons.prems(2) by (cases x) (auto split: if_splits)
    have "fst x < k" using bspec[OF wf(2) map_of_SomeD[OF g]] by simp
    then show ?thesis using False Cons.IH[OF wf(1) g] by (simp add: bt_remove_def)
  qed
qed simp

lemma runs_free_mono: "runs_free used rs \<Longrightarrow> used' \<subseteq> used \<Longrightarrow> runs_free used' rs"
proof (induction rs arbitrary: used used')
  case (Cons r rs)
  have "runs_free (used' \<union> frames r) rs" using Cons.prems by (intro Cons.IH[of "used \<union> frames r" "used' \<union> frames r"]) auto
  then show ?case using Cons.prems by auto
qed simp

lemma pinned_new_ok:
  assumes "pinned_new km k = Some (pages, km')" "runs_free used (heap_runs km)"
  obtains "run_ok pages" "snd pages = k" "frames pages \<inter> used = {}" "runs_free (used \<union> frames pages) (heap_runs km')"
    "\<And>y. ram km' y = (if y \<in> frames pages then 0 else ram km y)"
proof -
  obtain a n runs where r: "heap_runs km = (a, n) # runs" "0 < k" "k \<le> n" "pages = (a, k)"
    "km' = km\<lparr>ram := write_ram (ram km) a (replicate (k * PAGE_SIZE) 0), heap_runs := runs\<rparr>"
    using assms(1) by (auto simp: pinned_new_def run_simps split: list.splits if_splits)
  have le: "k * PAGE_SIZE \<le> n * PAGE_SIZE" using r(3) by simp
  then have sub: "frames pages \<subseteq> frames (a, n)" using r(4) by (auto simp: frames_def)
  show ?thesis
  proof (rule that)
    show "run_ok pages" using assms(2) r order_trans[OF add_left_mono[OF le, of a], of "2 ^ 56"] by (auto simp: run_ok_def)
    show "frames pages \<inter> used = {}" using assms(2) r sub by auto
    have "runs_free (used \<union> frames (a, n)) runs" using assms(2) r by simp
    then show "runs_free (used \<union> frames pages) (heap_runs km')" using sub r(5) by (auto elim: runs_free_mono)
    show "ram km' y = (if y \<in> frames pages then 0 else ram km y)" for y
      using r by (auto simp: write_ram_def frames_def)
  qed (use r in simp)
qed

lemma copy_page_at:
  "copy_page r a b y = (if y \<in> frames (a, 1) then r (b + (y - a)) else r y)"
  by (auto simp: copy_page_def write_ram_def read_ram_def frames_def PAGE_SIZE_def)

text \<open>Giving one page of an address space a new frame and a new owned entry.\<close>

lemma as_ok_own_page:
  assumes ok: "as_ok tramp s" and c: "bt_get (mappings s) va = Some (Cow c)" and r: "run_ok (a, 1)"
    and run: "remap_page (page_table s) va a (original_perm c) = Some pt"
  shows "as_ok tramp (s\<lparr>page_table := pt, mappings := bt_insert va (Allocated (a, 1)) (bt_remove va (mappings s))\<rparr>)"
    "x < 2 ^ 39 \<Longrightarrow> user_frame pt x = (if in_page va x then Some (a + (x - va), original_perm c) else user_frame (page_table s) x)"
proof -
  let ?s = "s\<lparr>page_table := pt, mappings := bt_insert va (Allocated (a, 1)) (bt_remove va (mappings s))\<rparr>"
  have wf: "entry_wf (page_table s) va (Cow c)" by (rule as_okD(3)[OF ok c])
  then have va: "PAGE_SIZE dvd va" "va < 2 ^ 39" "original_perm c \<noteq> PointerToNextLevel"
    by (auto simp: entry_wf_def PAGE_SIZE_def)
  have a: "0 < a" "a < 2 ^ 56" using r by (auto simp: run_ok_def PAGE_SIZE_def)
  obtain m0 where "user_frame (page_table s) va = Some (phys_addr c + (va - va), m0)"
    using as_ok_frame[OF ok c, of va] by (auto simp: in_run_def PAGE_SIZE_def)
  note rm = user_frame_remap[OF as_okD(1)[OF ok] run a va(3) this va(2,1)]
  show uf: "user_frame pt x = (if in_page va x then Some (a + (x - va), original_perm c) else user_frame (page_table s) x)"
    if "x < 2 ^ 39" for x using rm(3)[OF that] .
  have get: "bt_get (mappings ?s) = (bt_get (mappings s))(va \<mapsto> Allocated (a, 1))"
    using as_okD(2)[OF ok] by auto
  have old: "\<exists>d. bt_get (mappings s) w = Some d \<and> snd (pages_of d) = snd (pages_of e)"
    if "bt_get (mappings ?s) w = Some e" for w e
    using that c unfolding get by (auto split: if_splits)
  have ew: "entry_wf pt w e" if g: "bt_get (mappings ?s) w = Some e" for w e
  proof (cases "w = va")
    case True
    then have "e = Allocated (a, 1)" using g unfolding get by simp
    then show ?thesis using True va r wf uf by (auto simp: entry_wf_def in_page_def)
  next
    case False
    then have g': "bt_get (mappings s) w = Some e" using g unfolding get by simp
    have "\<not> in_page va x" if "in_run w (snd (pages_of e)) x" for x
      using as_okD(4)[OF ok g' c that] False by auto
    moreover have "x < 2 ^ 39" if "in_run w (snd (pages_of e)) x" for x
      using as_ok_frame[OF ok g' that] by blast
    ultimately show ?thesis using as_okD(3)[OF ok g'] uf by (auto simp: entry_wf_def)
  qed
  have disj: "w = w'" if "bt_get (mappings ?s) w = Some e" "bt_get (mappings ?s) w' = Some e'"
      "in_run w (snd (pages_of e)) x" "in_run w' (snd (pages_of e')) x" for w e w' e' x
    using old[OF that(1)] old[OF that(2)] that(3,4) as_okD(4)[OF ok] by metis
  have cov: "covered tramp (bt_get (mappings ?s)) x pa m \<and> registered pt x"
    if "x < 2 ^ 39" "user_frame pt x = Some (pa, m)" for x pa m
  proof (cases "in_page va x")
    case True
    then have "covered tramp (bt_get (mappings ?s)) x pa m"
      unfolding covered_def get by (intro disjI1 exI[of _ va] exI[of _ "Allocated (a, 1)"]) simp
    moreover obtain m' where "user_frame (page_table s) x = Some (phys_addr c + (x - va), m')"
      using as_ok_frame[OF ok c] True by auto
    ultimately show ?thesis using as_okD(5)[OF ok that(1)] rm(2) by (auto simp: registered_def)
  next
    case False
    then have u: "user_frame (page_table s) x = Some (pa, m)" using that uf by simp
    have "bt_get (mappings ?s) w = Some d" if "bt_get (mappings s) w = Some d" "in_run w (snd (pages_of d)) x" for w d
      using that False c unfolding get by auto
    then have "covered tramp (bt_get (mappings ?s)) x pa m"
      using as_okD(5)[OF ok that(1) u] unfolding covered_def by blast
    then show ?thesis using as_okD(5)[OF ok that(1) u] rm(2) by (auto simp: registered_def)
  qed
  have wf': "bt_wf (mappings ?s)" using as_okD(2)[OF ok] by simp
  have tr: "trampoline_ok tramp ?s"
    unfolding trampoline_ok_def
  proof (intro allI impI conjI)
    fix x assume x: "in_page TRAMPOLINE_VADDR x"
    have "x < 2 ^ 39" using x by (simp add: in_page_def TRAMPOLINE_VADDR_def PAGE_SIZE_def)
    moreover have "\<not> in_page va x" using trampoline_okD(2)[OF as_okD(6)[OF ok] x c] by simp
    ultimately show "user_frame (page_table ?s) x = Some (tramp + (x - TRAMPOLINE_VADDR), ReadExecute)"
      using trampoline_okD(1)[OF as_okD(6)[OF ok] x] uf by simp
    fix w e assume "bt_get (mappings ?s) w = Some e"
    then show "\<not> in_run w (snd (pages_of e)) x" using old trampoline_okD(2)[OF as_okD(6)[OF ok] x] by metis
  qed
  have pt: "page_table ?s = pt" by simp
  show "as_ok tramp ?s"
    by (rule as_okI, unfold pt) (rule rm(1) wf' tr | rule ew, assumption | rule cov, assumption+ | rule disj, assumption+)+
qed

text \<open>A process gains one entry on fresh pages, in a new place or instead of an old entry.\<close>

lemma sys_inv_new_entry:
  assumes inv: "sys_inv tramp S" and p: "procs S p = Some s" and ok: "as_ok tramp s'"
    and new: "\<And>w d. bt_get (mappings s') w = Some d \<Longrightarrow> w = v \<and> pages_of d = f \<or> w \<noteq> v \<and> bt_get (mappings s) w = Some d"
    and f: "frames f \<inter> in_use tramp (procs S) = {}"
    and runs: "runs_free (in_use tramp (procs S) \<union> frames f) (heap_runs km)"
  shows "sys_inv tramp (S\<lparr>procs := (procs S)(p \<mapsto> s'), kernel_memory := km\<rparr>)"
proof -
  let ?P = "(procs S)(p \<mapsto> s')"
  have use: "frames (pages_of d) \<inter> frames f = {}" if "procs S q = Some t" "bt_get (mappings t) w = Some d" for q t w d
    using f that unfolding in_use_def by blast
  have tr: "frames f \<inter> frames (tramp, 1) = {}" using f unfolding in_use_def by blast
  have entry: "q = p \<and> w = v \<and> pages_of d = f \<or>
      (q, w) \<noteq> (p, v) \<and> (\<exists>t. procs S q = Some t \<and> bt_get (mappings t) w = Some d)"
    if "?P q = Some t" "bt_get (mappings t) w = Some d" for q t w d
    using that new[of w d] p by (auto split: if_splits)
  have ex: "exclusive ?P"
    unfolding exclusive_def
  proof (intro allI impI)
    fix q t w d q' t' w' d'
    assume a: "?P q = Some t" "bt_get (mappings t) w = Some d" "owned d" "?P q' = Some t'"
      "bt_get (mappings t') w' = Some d'" "(q, w) \<noteq> (q', w')"
    from entry[OF a(1,2)] show "frames (pages_of d) \<inter> frames (pages_of d') = {}"
    proof (elim disjE conjE exE)
      assume n: "q = p" "w = v" "pages_of d = f"
      then obtain u where "procs S q' = Some u" "bt_get (mappings u) w' = Some d'"
        using entry[OF a(4,5)] a(6) by blast
      then show ?thesis using use[of q' u w' d'] n(3) by blast
    next
      fix u assume u: "procs S q = Some u" "bt_get (mappings u) w = Some d"
      from entry[OF a(4,5)] show ?thesis
      proof (elim disjE conjE exE)
        assume "pages_of d' = f"
        then show ?thesis using use[OF u] by simp
      next
        fix u' assume "procs S q' = Some u'" "bt_get (mappings u') w' = Some d'"
        then show ?thesis by (rule sys_invD(3)[OF inv u a(3) _ _ a(6)])
      qed
    qed
  qed
  have t: "frames (pages_of d) \<inter> frames (tramp, 1) = {}"
    if "?P q = Some t" "bt_get (mappings t) w = Some d" "owned d" for q t w d
    using entry[OF that(1,2)] that(3) tr sys_invD(2)[OF inv, of q _ w d] by auto
  have "in_use tramp ?P \<subseteq> in_use tramp (procs S) \<union> frames f"
  proof
    fix y assume "y \<in> in_use tramp ?P"
    then consider "y \<in> frames (tramp, 1)" | q t w d where "?P q = Some t" "bt_get (mappings t) w = Some d" "y \<in> frames (pages_of d)"
      unfolding in_use_def by blast
    then show "y \<in> in_use tramp (procs S) \<union> frames f"
    proof cases
      case 2
      then show ?thesis using entry[OF 2(1,2)] unfolding in_use_def by auto
    qed (simp add: in_use_def)
  qed
  then have "runs_free (in_use tramp ?P) (heap_runs km)" by (rule runs_free_mono[OF runs])
  moreover have "as_ok tramp t" if "?P q = Some t" for q t
    using that ok sys_invD(1)[OF inv] by (auto split: if_splits)
  ultimately show ?thesis using ex t unfolding sys_inv_def by auto
qed

lemma resolve_cow_page_ok:
  assumes inv: "sys_inv tramp S" and p: "procs S p = Some s" "x < 2 ^ 39"
    and run: "resolve_cow_page s (kernel_memory S) x = Some (res, s', km')"
  shows "sys_inv tramp (S\<lparr>procs := (procs S)(p \<mapsto> s'), kernel_memory := km'\<rparr>)
    \<and> views (S\<lparr>procs := (procs S)(p \<mapsto> s'), kernel_memory := km'\<rparr>) = views S
    \<and> (if res then \<exists>c a. bt_get (mappings s) (page_base x) = Some (Cow c)
          \<and> user_frame (page_table s') x = Some (a, original_perm c)
       else s' = s \<and> km' = kernel_memory S \<and> (\<forall>c. bt_get (mappings s) (page_base x) \<noteq> Some (Cow c)))"
proof (cases "\<exists>c. bt_get (mappings s) (page_base x) = Some (Cow c)")
  case False
  have "s\<lparr>mappings := mappings s\<rparr> = s" by simp
  then have "s' = s \<and> km' = kernel_memory S \<and> \<not> res"
    using run False bt_reinsert[OF as_okD(2)[OF sys_invD(1)[OF inv p(1)]]]
    by (auto simp: resolve_cow_page_def Let_def split: option.splits mapping.splits)
  moreover have "(procs S)(p \<mapsto> s) = procs S" using p(1) by auto
  ultimately show ?thesis using inv False by auto
next
  case True
  then obtain c where c: "bt_get (mappings s) (page_base x) = Some (Cow c)" by blast
  let ?km = "kernel_memory S" let ?va = "page_base x"
  have ok: "as_ok tramp s" by (rule sys_invD(1)[OF inv p(1)])
  obtain new km1 pt where n: "pinned_new ?km 1 = Some (new, km1)"
      and pt: "remap_page (page_table s) ?va (fst new) (original_perm c) = Some pt"
      and s': "s' = s\<lparr>page_table := pt, mappings := bt_insert ?va (Allocated new) (bt_remove ?va (mappings s))\<rparr>"
      and km': "km' = km1\<lparr>ram := copy_page (ram km1) (fst new) (phys_addr c)\<rparr>" and res
    using run c by (auto simp: resolve_cow_page_def Let_def run_simps)
  obtain a where new: "new = (a, 1)" "run_ok (a, 1)" "frames (a, 1) \<inter> in_use tramp (procs S) = {}"
      "runs_free (in_use tramp (procs S) \<union> frames (a, 1)) (heap_runs km1)"
      "\<And>y. ram km1 y = (if y \<in> frames (a, 1) then 0 else ram ?km y)"
    using pinned_new_ok[OF n sys_invD(4)[OF inv p(1)]] by (metis prod.collapse)
  note o = as_ok_own_page[OF ok c new(2) pt[unfolded new(1) fst_conv]]
  have get: "bt_get (mappings s') = (bt_get (mappings s))(?va \<mapsto> Allocated (a, 1))"
    using as_okD(2)[OF ok] by (auto simp: s' new(1))
  have pts: "page_table s' = pt" by (simp add: s')
  have inv': "sys_inv tramp (S\<lparr>procs := (procs S)(p \<mapsto> s'), kernel_memory := km'\<rparr>)"
  proof (rule sys_inv_new_entry[OF inv p(1)])
    show "as_ok tramp s'" using o(1) by (simp add: s' new(1))
    show "w = ?va \<and> pages_of d = (a, 1) \<or> w \<noteq> ?va \<and> bt_get (mappings s) w = Some d"
      if "bt_get (mappings s') w = Some d" for w d using that unfolding get by (auto split: if_splits)
  qed (use new(3,4) km' in auto)
  have cu: "phys_addr c + (y - ?va) \<in> in_use tramp (procs S)" if "in_page ?va y" "y < 2 ^ 39" for y
    using as_ok_frame[OF ok c, of y] frame_in_use[OF inv p(1)] that by (metis in_run_1(1) pages_of.simps(3) fst_conv snd_conv)
  have keep: "ram km' y = ram ?km y" if "y \<in> in_use tramp (procs S)" for y
    using that new(3,5) by (auto simp: km' new(1) copy_page_at)
  have copied: "ram km' (a + (y - ?va)) = ram ?km (phys_addr c + (y - ?va))" if "in_page ?va y" "y < 2 ^ 39" for y
  proof -
    have "a + (y - ?va) \<in> frames (a, 1)" using that(1) by (auto simp: frames_def in_page_def)
    moreover have "phys_addr c + (y - ?va) \<notin> frames (a, 1)" using cu[OF that] new(3) by blast
    ultimately show ?thesis using new(5) by (simp add: km' new(1) copy_page_at)
  qed
  have "view s' (ram km') y = view s (ram ?km) y" for y
  proof (cases "in_page ?va y \<and> y < 2 ^ 39")
    case True
    then obtain m where "user_frame (page_table s) y = Some (phys_addr c + (y - ?va), m)"
      using as_ok_frame[OF ok c, of y] by auto
    moreover have "page_base y = ?va" using True in_page_base[of ?va y] by simp
    ultimately show ?thesis using True o(2)[of y] copied[of y] c
      by (simp add: view_def logical_perm_def get pts)
  next
    case False
    then have "y < 2 ^ 39 \<Longrightarrow> page_base y \<noteq> ?va" using in_page_base[of ?va y] by auto
    then show ?thesis using False o(2)[of y] frame_in_use[OF inv p(1), of y] keep
      by (cases "user_frame (page_table s) y") (auto simp: view_def logical_perm_def get pts)
  qed
  then have "view s' (ram km') = view s (ram ?km)" by (rule ext)
  moreover have "view t (ram km') = view t (ram ?km)" if "procs S q = Some t" for q t
    using view_unaffected[OF inv that, of "ram km'" "ram ?km"] keep by blast
  ultimately have "views (S\<lparr>procs := (procs S)(p \<mapsto> s'), kernel_memory := km'\<rparr>) q = views S q" for q
    using p(1) by (cases "procs S q") (auto simp: views_def)
  then have "views (S\<lparr>procs := (procs S)(p \<mapsto> s'), kernel_memory := km'\<rparr>) = views S" by (rule ext)
  moreover have "user_frame (page_table s') x = Some (a + (x - ?va), original_perm c)"
    using o(2)[OF p(2)] in_page_base[of ?va x] by (simp add: s' new(1))
  ultimately show ?thesis using inv' c \<open>res\<close> by auto
qed

section \<open>Stores from user mode\<close>

lemma user_store_ok:
  assumes "sys_inv tramp S" "procs S p = Some s" "x < 2 ^ 39"
    and "user_store s (kernel_memory S) x b = Some (stored, s', km')"
  shows "sys_inv tramp (S\<lparr>procs := (procs S)(p \<mapsto> s'), kernel_memory := km'\<rparr>)
    \<and> (if stored then \<exists>c m. view s (ram (kernel_memory S)) x = Some (c, m) \<and> is_writable m
          \<and> views (S\<lparr>procs := (procs S)(p \<mapsto> s'), kernel_memory := km'\<rparr>)
              = (views S)(p \<mapsto> (view s (ram (kernel_memory S)))(x \<mapsto> (b, m)))
       else views (S\<lparr>procs := (procs S)(p \<mapsto> s'), kernel_memory := km'\<rparr>) = views S
          \<and> (\<forall>c m. view s (ram (kernel_memory S)) x = Some (c, m) \<longrightarrow> \<not> is_writable m))"
  using assms
proof (induction s "kernel_memory S" x b arbitrary: S rule: user_store.induct)
  case (1 s x b)
  let ?km = "kernel_memory S"
  have same: "S\<lparr>procs := (procs S)(p \<mapsto> s), kernel_memory := k\<rparr> = S\<lparr>kernel_memory := k\<rparr>" for k
    using "1.prems"(2) by (simp add: fun_upd_idem)
  show ?case
  proof (cases "hw_store s ?km x b")
    case (Some k)
    then have "stored" "s' = s" "km' = k" using "1.prems"(4) by (auto simp: user_store.simps[of s])
    then show ?thesis using hw_store_ok[OF "1.prems"(1-3) Some] by (auto simp: same)
  next
    case None
    then obtain res s1 k1 where h: "resolve_cow_page s ?km x = Some (res, s1, k1)"
      using "1.prems"(4) by (auto simp: user_store.simps[of s] handle_store_page_fault_def split: option.splits)
    note r = resolve_cow_page_ok[OF "1.prems"(1-3) h]
    let ?S = "S\<lparr>procs := (procs S)(p \<mapsto> s1), kernel_memory := k1\<rparr>"
    show ?thesis
    proof (cases res)
      case True
      have v: "view s1 (ram k1) = view s (ram ?km)"
      proof -
        have "views ?S p = views S p" using r by simp
        then show ?thesis using "1.prems"(2) by (simp add: views_def)
      qed
      have us: "user_store s1 (kernel_memory ?S) x b = Some (stored, s', km')"
        using "1.prems"(4) None h True by (simp add: user_store.simps[of s] handle_store_page_fault_def)
      have "sys_inv tramp ?S" "procs ?S p = Some s1" using r by simp_all
      have "(res, s1, k1) = (res, s1, k1)" "(s1, kernel_memory ?S) = (s1, k1)" by simp_all
      note ih = "1.hyps"[OF None h[folded handle_store_page_fault_def] this True]
      show ?thesis using ih[OF \<open>sys_inv tramp ?S\<close> \<open>procs ?S p = Some s1\<close> "1.prems"(3) us] r
        by (simp add: v split: if_splits)
    next
      case False
      then have s: "s1 = s" "k1 = ?km" "\<forall>c. bt_get (mappings s) (page_base x) \<noteq> Some (Cow c)" using r by auto
      have "\<not> stored" "s' = s" "km' = ?km"
        using "1.prems"(4) None h False s by (auto simp: user_store.simps[of s] handle_store_page_fault_def)
      moreover have "\<not> is_writable m" if w: "view s (ram ?km) x = Some (c, m)" for c m
      proof -
        obtain pa m' where u: "user_frame (page_table s) x = Some (pa, m')" "m = logical_perm s x m'"
          using w by (auto simp: view_Some)
        have "m = m'" using u(2) s(3) by (auto simp: logical_perm_def split: option.splits mapping.splits)
        then show ?thesis using None u(1) by (auto simp: hw_store_def split: if_splits)
      qed
      ultimately show ?thesis using "1.prems"(1) by (simp add: same)
    qed
  qed
qed

end
