(* ===== verification/CopyOnWrite.thy ===== *)
theory CopyOnWrite
  imports AddressSpace
begin

text \<open>
  Fork with copy-on-write pages, \<^verbatim>\<open>fork_address_space\<close>, \<^verbatim>\<open>resolve_cow_page\<close> and the kernel's
  accesses to user memory of \<^verbatim>\<open>crates/kernel/src/processes/process.rs\<close>: the machine of several
  processes on shared frames refines one in which every process has its own memory.  The last section
  shows two places where the code leaves that picture.
\<close>

section \<open>Fork\<close>

text \<open>The copy-on-write record that fork makes for a page \<^term>\<open>v\<close> of an entry.\<close>

definition page_info :: "address_space \<Rightarrow> usize \<Rightarrow> cow_page_info \<Rightarrow> bool" where
  "page_info s v c \<longleftrightarrow> PAGE_SIZE dvd v \<and> (\<exists>va e. bt_get (mappings s) va = Some e \<and> in_run va (snd (pages_of e)) v
     \<and> (case e of Cow c' \<Rightarrow> c = c'
        | _ \<Rightarrow> phys_addr c = fst (pages_of e) + (v - va) \<and> backing c = pages_of e
            \<and> user_frame (page_table s) v = Some (phys_addr c, original_perm c)))"

lemma as_readonly_idem [simp]: "as_readonly (as_readonly m) = as_readonly m"
  by (cases m) auto

lemma as_readonly_leaf [simp]: "as_readonly m = PointerToNextLevel \<longleftrightarrow> m = PointerToNextLevel"
  by (cases m) auto

lemma page_infoD:
  assumes ok: "as_ok tramp s" and c: "page_info s v c"
  shows "run_ok (phys_addr c, 1)" "original_perm c \<noteq> PointerToNextLevel" "frames (phys_addr c, 1) \<subseteq> frames (backing c)"
    "v + PAGE_SIZE \<le> 2 ^ 39"
    "in_page v x \<Longrightarrow> \<exists>m. user_frame (page_table s) x = Some (phys_addr c + (x - v), m)
       \<and> logical_perm s x m = original_perm c \<and> as_readonly m = as_readonly (original_perm c)"
    "\<exists>va e. bt_get (mappings s) va = Some e \<and> frames (phys_addr c, 1) \<subseteq> frames (pages_of e)"
proof -
  obtain va e where v: "PAGE_SIZE dvd v" and e: "bt_get (mappings s) va = Some e" "in_run va (snd (pages_of e)) v"
      and i: "case e of Cow c' \<Rightarrow> c = c' | _ \<Rightarrow> phys_addr c = fst (pages_of e) + (v - va) \<and> backing c = pages_of e
            \<and> user_frame (page_table s) v = Some (phys_addr c, original_perm c)"
    using c unfolding page_info_def by blast
  have wf: "entry_wf (page_table s) va e" by (rule as_okD(3)[OF ok e(1)])
  then have va: "PAGE_SIZE dvd va" by (simp add: entry_wf_def)
  have bk: "backing_ok e" and rk: "run_ok (pages_of e)" and up: "va + snd (pages_of e) * PAGE_SIZE \<le> 2 ^ 39"
    using wf by (simp_all add: entry_wf_def)
  have pv: "in_page v v" by (simp add: in_page_def PAGE_SIZE_def)
  note pr = page_in_run[OF va v e(2)]
  have ve: "va = v" if "e = Cow c"
  proof -
    have "snd (pages_of e) = 1" using that by simp
    then show ?thesis using e(2) pr(2)[OF pv] by (simp add: in_run_def)
  qed
  have ph: "phys_addr c = fst (pages_of e) + (v - va)" using i ve by (cases e) auto
  have d: "PAGE_SIZE dvd v - va" using va v by simp
  have le: "phys_addr c + PAGE_SIZE \<le> fst (pages_of e) + snd (pages_of e) * PAGE_SIZE"
    using pr(2)[OF pv] e(2) ph by (auto simp: in_run_def)
  show "run_ok (phys_addr c, 1)" using rk ph d le by (auto simp: run_ok_def)
  show sub: "\<exists>va e. bt_get (mappings s) va = Some e \<and> frames (phys_addr c, 1) \<subseteq> frames (pages_of e)"
    using e(1) ph le by (intro exI[of _ va] exI[of _ e]) (auto simp: frames_def)
  show "v + PAGE_SIZE \<le> 2 ^ 39" using up pr(2)[OF pv] by simp
  obtain m0 where m0: "user_frame (page_table s) v = Some (fst (pages_of e) + (v - va), m0)" "mode_ok e m0"
      "fst (pages_of e) + (v - va) \<in> frames (pages_of e)" "v < 2 ^ 39"
    by (rule as_ok_frame[OF ok e])
  have own: "backing c = pages_of e \<and> original_perm c = m0 \<and> m0 \<noteq> PointerToNextLevel" if "\<not> e = Cow c"
  proof -
    have "backing c = pages_of e" "user_frame (page_table s) v = Some (phys_addr c, original_perm c)"
        "mode_ok e m \<Longrightarrow> m \<noteq> PointerToNextLevel" for m
      using i that by (cases e; simp)+
    moreover from this(2) have "original_perm c = m0" unfolding m0(1) by (simp only: option.inject prod.inject)
    ultimately show ?thesis using m0(2) by blast
  qed
  show "original_perm c \<noteq> PointerToNextLevel" using bk own by (cases "e = Cow c") simp_all
  show "frames (phys_addr c, 1) \<subseteq> frames (backing c)"
  proof (cases "e = Cow c")
    case True
    then show ?thesis using bk by simp
  next
    case False
    then have b: "backing c = pages_of e" using own by blast
    have "fst (pages_of e) \<le> phys_addr c" using ph by simp
    then show ?thesis unfolding b frames_def using le by (intro subsetI) simp
  qed
  assume x: "in_page v x"
  obtain m where m: "user_frame (page_table s) x = Some (fst (pages_of e) + (x - va), m)" "mode_ok e m"
      "fst (pages_of e) + (x - va) \<in> frames (pages_of e)" "x < 2 ^ 39"
    by (rule as_ok_frame[OF ok e(1) pr(1)[OF x]])
  have "x - va = (v - va) + (x - v)" using x e(2) by (auto simp: in_page_def in_run_def)
  then have f: "user_frame (page_table s) x = Some (phys_addr c + (x - v), m)" using m(1) ph by simp
  have b: "page_base x = v" "page_base v = v" using x pv in_page_base[OF v] by auto
  have mm: "m = m0" using user_frame_page[of x v, OF _ f] b m0(1) by auto
  have lp: "logical_perm s x m = original_perm c"
  proof (cases "bt_get (mappings s) v")
    case (Some d)
    have "in_run v (snd (pages_of d)) v" using as_okD(3)[OF ok Some] by (auto simp: entry_wf_def run_ok_def in_run_def PAGE_SIZE_def)
    then have "va = v" using as_okD(4)[OF ok e(1) Some e(2)] by simp
    then have "d = e" using Some e(1) by simp
    moreover have "\<exists>p. e = Allocated p \<or> e = Mmap p" if "\<not> e = Cow c" using i that by (cases e) simp_all
    ultimately show ?thesis using Some b own mm by (cases "e = Cow c") (auto simp: logical_perm_def)
  next
    case None
    then have "\<not> e = Cow c" using e(1) ve by auto
    then show ?thesis using None b own mm by (simp add: logical_perm_def)
  qed
  have "as_readonly m = as_readonly (original_perm c)" using own m0 mm by (cases "e = Cow c") simp_all
  then show "\<exists>m. user_frame (page_table s) x = Some (phys_addr c + (x - v), m)
       \<and> logical_perm s x m = original_perm c \<and> as_readonly m = as_readonly (original_perm c)"
    using f lp by blast
qed

text \<open>
  The state of the fork loop after the pages \<^term>\<open>W\<close>: those are copy-on-write and read only in both
  tables, every other page is as it was.
\<close>

definition forked_frame ::
    "(usize \<rightharpoonup> cow_page_info) \<Rightarrow> root_page_table_holder \<Rightarrow> usize \<Rightarrow> (usize \<times> xwr_mode) option" where
  "forked_frame D pt x = (case D (page_base x) of
       Some c \<Rightarrow> Some (phys_addr c + (x - page_base x), as_readonly (original_perm c))
     | None \<Rightarrow> user_frame pt x)"

definition fork_inv ::
    "address_space \<Rightarrow> root_page_table_holder \<Rightarrow> usize set \<Rightarrow> fork_state \<Rightarrow> bool" where
  "fork_inv s child0 W st \<longleftrightarrow> (case st of (parent_pt, child_pt, parent_cow, child_cow) \<Rightarrow>
     pt_well_formed parent_pt \<and> pt_well_formed child_pt \<and> already_mapped parent_pt = already_mapped (page_table s)
     \<and> bt_wf parent_cow \<and> child_cow = parent_cow \<and> dom (bt_get parent_cow) = W
     \<and> (\<forall>v c. bt_get parent_cow v = Some c \<longrightarrow> page_info s v c)
     \<and> (\<forall>x<2 ^ 39. user_frame parent_pt x = forked_frame (bt_get parent_cow) (page_table s) x)
     \<and> (\<forall>x<2 ^ 39. user_frame child_pt x = forked_frame (bt_get parent_cow) child0 x)
     \<and> (\<forall>x<2 ^ 39. user_frame child_pt x \<noteq> None \<longrightarrow> registered child_pt x))"

lemma fork_add:
  assumes ok: "as_ok tramp s" and inv: "fork_inv s child0 W (ppt, cpt, cow, cow')"
    and c: "page_info s v c"
    and wf: "pt_well_formed ppt'" "already_mapped ppt' = already_mapped ppt"
    and par: "\<And>x. x < 2 ^ 39 \<Longrightarrow> user_frame ppt' x =
      (if in_page v x then Some (phys_addr c + (x - v), as_readonly (original_perm c)) else user_frame ppt x)"
    and run: "map_userspace cpt v (phys_addr c) PAGE_SIZE (as_readonly (original_perm c)) name = Some cpt'"
  shows "fork_inv s child0 (insert v W) (ppt', cpt', bt_insert v c cow, bt_insert v c cow')"
proof -
  note pi = page_infoD[OF ok c]
  have r: "run_ok (phys_addr c, 1)" by (rule pi(1))
  have v: "PAGE_SIZE dvd v" using c by (simp add: page_info_def)
  have i: "bt_wf cow" "cow' = cow" "dom (bt_get cow) = W" "\<And>v c. bt_get cow v = Some c \<Longrightarrow> page_info s v c"
      "\<And>x. x < 2 ^ 39 \<Longrightarrow> user_frame ppt x = forked_frame (bt_get cow) (page_table s) x"
      "\<And>x. x < 2 ^ 39 \<Longrightarrow> user_frame cpt x = forked_frame (bt_get cow) child0 x"
      "\<And>x. x < 2 ^ 39 \<Longrightarrow> user_frame cpt x \<noteq> None \<Longrightarrow> registered cpt x"
      "pt_well_formed cpt" "already_mapped ppt = already_mapped (page_table s)"
    using inv by (auto simp: fork_inv_def)
  have run': "map_userspace cpt v (phys_addr c) (1 * PAGE_SIZE) (as_readonly (original_perm c)) name = Some cpt'"
    using run by simp
  have b: "0 < phys_addr c" "phys_addr c + 1 * PAGE_SIZE \<le> 2 ^ 56" "as_readonly (original_perm c) \<noteq> PointerToNextLevel"
      "v + 1 * PAGE_SIZE \<le> 2 ^ 39" "(0::nat) < 1"
    using r pi(2,4) by (auto simp: run_ok_def)
  note m = user_frame_map[OF i(8) run' b(1-5)]
  have cf: "user_frame cpt' x = (if in_page v x then Some (phys_addr c + (x - v), as_readonly (original_perm c)) else user_frame cpt x)"
    if "x < 2 ^ 39" for x using m(5)[OF that] by simp
  have reg: "registered cpt' x" if x: "x < 2 ^ 39" "user_frame cpt' x \<noteq> None" for x
  proof (cases "in_page v x")
    case True
    then show ?thesis by (auto simp: registered_def m(4) in_page_def)
  next
    case False
    then have "registered cpt x" using x cf[OF x(1)] i(7) by simp
    then show ?thesis by (auto simp: registered_def m(4))
  qed
  have ff: "(if in_page v x then Some (phys_addr c + (x - v), as_readonly (original_perm c)) else forked_frame (bt_get cow) pt x)
      = forked_frame (bt_get (bt_insert v c cow)) pt x" for x pt
    using in_page_base[OF v, of x] i(1) by (auto simp: forked_frame_def)
  have pf: "\<forall>x<2 ^ 39. user_frame ppt' x = forked_frame (bt_get (bt_insert v c cow)) (page_table s) x"
    by (intro allI impI) (simp only: par i(5) ff)
  have kf: "\<forall>x<2 ^ 39. user_frame cpt' x = forked_frame (bt_get (bt_insert v c cow)) child0 x"
    by (intro allI impI) (simp only: cf i(6) ff)
  have rest: "\<forall>w d. bt_get (bt_insert v c cow) w = Some d \<longrightarrow> page_info s w d"
      "already_mapped ppt' = already_mapped (page_table s)" "bt_wf (bt_insert v c cow)"
      "bt_insert v c cow' = bt_insert v c cow" "dom (bt_get (bt_insert v c cow)) = insert v W"
      "\<forall>x<2 ^ 39. user_frame cpt' x \<noteq> None \<longrightarrow> registered cpt' x"
    using i c wf reg by auto
  show ?thesis
    unfolding fork_inv_def prod.case by (intro conjI) (fact wf(1) m(1) rest pf kf)+
qed

lemma fork_page_step:
  assumes ok: "as_ok tramp s" and inv: "fork_inv s child0 W st" and e: "bt_get (mappings s) va = Some e" "owned e"
    and i: "i < snd (pages_of e)" "va + i * PAGE_SIZE \<notin> W" and run: "fork_page va (pages_of e) i st = Some st'"
  shows "fork_inv s child0 (insert (va + i * PAGE_SIZE) W) st'"
proof -
  let ?v = "va + i * PAGE_SIZE"
  obtain ppt cpt cow cow' where st: "st = (ppt, cpt, cow, cow')" by (cases st) auto
  have wf: "entry_wf (page_table s) va e" by (rule as_okD(3)[OF ok e(1)])
  have v: "PAGE_SIZE dvd ?v" using wf by (simp add: entry_wf_def)
  have rn: "in_run va (snd (pages_of e)) ?v" using i(1) by (simp add: in_run_def PAGE_SIZE_def)
  obtain m where m: "user_frame (page_table s) ?v = Some (fst (pages_of e) + i * PAGE_SIZE, m)" "?v < 2 ^ 39"
    using as_ok_frame[OF ok e(1) rn] by auto
  have pb: "page_base ?v = ?v" using in_page_base[OF v, of ?v] by (simp add: in_page_def PAGE_SIZE_def)
  have b: "bt_get cow ?v = None" "pt_well_formed ppt" using inv i(2) by (auto simp: fork_inv_def st)
  have u: "user_frame ppt ?v = Some (fst (pages_of e) + i * PAGE_SIZE, m)"
    using inv m b(1) pb by (simp add: fork_inv_def st forked_frame_def)
  let ?c = "\<lparr>phys_addr = fst (pages_of e) + i * PAGE_SIZE, original_perm = m, backing = pages_of e\<rparr>"
  have c: "page_info s ?v ?c"
    unfolding page_info_def using v e rn m(1) by (intro conjI exI[of _ va] exI[of _ e]) (cases e; auto)+
  obtain pos where pos: "pt_inv ppt pos" using b(2) by (auto simp: pt_well_formed_def)
  obtain ppt' cpt' where r: "(if is_writable m then do { pt \<leftarrow> remap_page ppt ?v (phys_addr ?c) (as_readonly m); Some (pt, as_readonly m) }
        else Some (ppt, m)) = Some (ppt', as_readonly m)"
      "map_userspace cpt ?v (phys_addr ?c) PAGE_SIZE (as_readonly m) ''fork-cow'' = Some cpt'"
      "st' = (ppt', cpt', bt_insert ?v ?c cow, bt_insert ?v ?c cow')"
  proof -
    have "as_readonly m = m" if "\<not> is_writable m" using that by (cases m) auto
    moreover obtain p where p: "get_userspace_permissions ppt ?v = Some p" "uadd va (i * PAGE_SIZE) = Some ?v"
      using run by (auto simp: fork_page_def st run_simps)
    moreover have "p = Some m" using get_userspace_permissions_ok(1)[OF pos p(1)] u by (simp add: user_frame_eq)
    ultimately show ?thesis
      using run that by (auto simp: fork_page_def st run_simps Let_def split: if_splits)
  qed
  note pi = page_infoD[OF ok c]
  have par: "pt_well_formed ppt' \<and> already_mapped ppt' = already_mapped ppt \<and> (\<forall>x<2 ^ 39. user_frame ppt' x =
      (if in_page ?v x then Some (phys_addr ?c + (x - ?v), as_readonly (original_perm ?c)) else user_frame ppt x))"
  proof (cases "is_writable m")
    case True
    then have rm: "remap_page ppt ?v (phys_addr ?c) (as_readonly m) = Some ppt'" using r(1) by (auto simp: run_simps)
    have k: "0 < phys_addr ?c" "phys_addr ?c < 2 ^ 56" "as_readonly m \<noteq> PointerToNextLevel"
      using pi(1,2) by (auto simp: run_ok_def PAGE_SIZE_def)
    note ur = user_frame_remap[OF b(2) rm k u m(2) v]
    show ?thesis using ur(1,2) ur(3) by simp
  next
    case False
    then have p: "ppt' = ppt" "as_readonly m = m" using r(1) by simp_all
    have "user_frame ppt x = Some (phys_addr ?c + (x - ?v), m)" if x: "x < 2 ^ 39" "in_page ?v x" for x
    proof -
      obtain m' where m': "user_frame (page_table s) x = Some (phys_addr ?c + (x - ?v), m')"
        using pi(5)[OF x(2)] by blast
      have px: "page_base x = ?v" using in_page_base[OF v] x(2) by simp
      have "m' = m" using user_frame_page[of x ?v, OF _ m'] px pb m(1) by auto
      then show ?thesis using inv m' x(1) b(1) px by (simp add: fork_inv_def st forked_frame_def)
    qed
    then show ?thesis using p b(2) by simp
  qed
  show ?thesis
    unfolding r(3) by (rule fork_add[OF ok inv[unfolded st] c]) (use par r(2) in auto)
qed

lemma fork_cow_step:
  assumes ok: "as_ok tramp s" and inv: "fork_inv s child0 W st" and e: "bt_get (mappings s) va = Some (Cow c)"
    and new: "va \<notin> W" and run: "fork_cow va c st = Some st'"
  shows "fork_inv s child0 (insert va W) st'"
proof -
  obtain ppt cpt cow cow' where st: "st = (ppt, cpt, cow, cow')" by (cases st) auto
  have v: "PAGE_SIZE dvd va" using as_okD(3)[OF ok e] by (simp add: entry_wf_def)
  have rn: "in_run va (snd (pages_of (Cow c))) va" by (simp add: in_page_def PAGE_SIZE_def)
  have c: "page_info s va c"
    unfolding page_info_def using v e rn by (intro conjI exI[of _ va] exI[of _ "Cow c"]) auto
  have pb: "page_base va = va" using in_page_base[OF v, of va] by (simp add: in_page_def PAGE_SIZE_def)
  have b: "bt_get cow va = None" "pt_well_formed ppt" using inv new by (auto simp: fork_inv_def st)
  obtain pos where pos: "pt_inv ppt pos" using b(2) by (auto simp: pt_well_formed_def)
  have uf: "user_frame ppt x = Some (phys_addr c + (x - va), as_readonly (original_perm c))"
    if x: "x < 2 ^ 39" "in_page va x" for x
  proof -
    have "page_base x = va" using in_page_base[OF v] x(2) by simp
    moreover obtain m where "user_frame (page_table s) x = Some (phys_addr c + (x - va), m)" "mode_ok (Cow c) m"
      using as_ok_frame[OF ok e, of x] x(2) by auto
    ultimately show ?thesis using inv x(1) b(1) by (simp add: fork_inv_def st forked_frame_def)
  qed
  obtain p where p: "get_userspace_permissions ppt va = Some p"
    using run by (auto simp: fork_cow_def st run_simps)
  have "va < 2 ^ 39" using page_infoD(4)[OF ok c] by (simp add: PAGE_SIZE_def)
  then have "p = Some (as_readonly (original_perm c))"
    using get_userspace_permissions_ok(1)[OF pos p] uf[of va] by (simp add: user_frame_eq in_page_def PAGE_SIZE_def)
  then obtain cpt' where r: "map_userspace cpt va (phys_addr c) PAGE_SIZE (as_readonly (original_perm c)) ''fork-cow'' = Some cpt'"
      "st' = (ppt, cpt', bt_insert va c cow, bt_insert va c cow')"
    using run p by (auto simp: fork_cow_def st run_simps)
  show ?thesis
    unfolding r(2) by (rule fork_add[OF ok inv[unfolded st] c]) (use b(2) uf r(1) in auto)
qed

definition page_vas :: "usize \<Rightarrow> nat \<Rightarrow> usize set" where
  "page_vas va n = (\<lambda>i. va + i * PAGE_SIZE) ` {..<n}"

lemma page_vas_in_run: "v \<in> page_vas va n \<Longrightarrow> in_run va n v"
  by (auto simp: page_vas_def in_run_def PAGE_SIZE_def)

lemma in_run_page_vas:
  assumes "PAGE_SIZE dvd va" "in_run va n x" shows "page_base x \<in> page_vas va n"
proof -
  obtain k where k: "va = k * PAGE_SIZE" using assms(1) by (auto simp: dvd_def mult.commute)
  have "x div PAGE_SIZE < k + n" "k \<le> x div PAGE_SIZE"
    using assms(2) k by (auto simp: in_run_def PAGE_SIZE_def)
  then have "x div PAGE_SIZE = k + (x div PAGE_SIZE - k)" "x div PAGE_SIZE - k < n" by auto
  then have "page_base x = va + (x div PAGE_SIZE - k) * PAGE_SIZE"
    using k by (simp add: page_base_def minus_mod_eq_div_mult flip: add_mult_distrib)
  then show ?thesis using \<open>x div PAGE_SIZE - k < n\<close> by (auto simp: page_vas_def)
qed

lemma fork_run:
  assumes "as_ok tramp s" "fork_inv s child0 W st" "bt_get (mappings s) va = Some e" "owned e"
    "page_vas va (snd (pages_of e)) \<inter> W = {}" "k \<le> snd (pages_of e)"
    "foldM (fork_page va (pages_of e)) [0..<k] st = Some st'"
  shows "fork_inv s child0 (W \<union> page_vas va k) st'"
  using assms(6,7)
proof (induction k arbitrary: st')
  case 0
  then show ?case using assms(2) by (simp add: page_vas_def)
next
  case (Suc k)
  obtain st1 where r: "foldM (fork_page va (pages_of e)) [0..<k] st = Some st1" "fork_page va (pages_of e) k st1 = Some st'"
    using Suc.prems(2) by (auto simp: foldM_append run_simps)
  have "fork_inv s child0 (W \<union> page_vas va k) st1" using Suc.IH[OF _ r(1)] Suc.prems(1) by simp
  moreover have "va + k * PAGE_SIZE \<in> page_vas va (snd (pages_of e))"
    unfolding page_vas_def using Suc.prems(1) by (intro imageI) simp
  then have "va + k * PAGE_SIZE \<notin> W" using assms(5) by blast
  then have "va + k * PAGE_SIZE \<notin> W \<union> page_vas va k" by (auto simp: page_vas_def PAGE_SIZE_def)
  ultimately have "fork_inv s child0 (insert (va + k * PAGE_SIZE) (W \<union> page_vas va k)) st'"
    using Suc.prems(1) by (intro fork_page_step[OF assms(1) _ assms(3,4) _ _ r(2)]) auto
  moreover have "insert (va + k * PAGE_SIZE) (W \<union> page_vas va k) = W \<union> page_vas va (Suc k)"
    by (auto simp: page_vas_def lessThan_Suc)
  ultimately show ?case by simp
qed

lemma fork_mapping_step:
  assumes "as_ok tramp s" "fork_inv s child0 W st" "bt_get (mappings s) va = Some e"
    "page_vas va (snd (pages_of e)) \<inter> W = {}" "fork_mapping (va, e) st = Some st'"
  shows "fork_inv s child0 (W \<union> page_vas va (snd (pages_of e))) st'"
proof (cases e)
  case (Cow c)
  then show ?thesis
    using fork_cow_step[OF assms(1,2), of va c st'] assms(3-5) by (simp add: fork_mapping_def page_vas_def lessThan_Suc)
qed (use fork_run[OF assms(1-3) _ assms(4) order.refl, of st'] assms(5) in \<open>simp_all add: fork_mapping_def\<close>)

lemma fork_all:
  assumes ok: "as_ok tramp s"
    and "fork_inv s child0 W st" "foldM fork_mapping L st = Some st'" "distinct (map fst L)"
    "\<And>va e. (va, e) \<in> set L \<Longrightarrow> bt_get (mappings s) va = Some e \<and> page_vas va (snd (pages_of e)) \<inter> W = {}"
  shows "fork_inv s child0 (W \<union> (\<Union>(va, e)\<in>set L. page_vas va (snd (pages_of e)))) st'"
  using assms(2-)
proof (induction L arbitrary: W st)
  case (Cons x L)
  obtain va e where x: "x = (va, e)" by (cases x)
  obtain st1 where r: "fork_mapping (va, e) st = Some st1" "foldM fork_mapping L st1 = Some st'"
    using Cons.prems(2) x by (auto simp: run_simps)
  have e: "bt_get (mappings s) va = Some e" "page_vas va (snd (pages_of e)) \<inter> W = {}"
    using Cons.prems(4) x by auto
  note inv = fork_mapping_step[OF ok Cons.prems(1) e r(1)]
  have "page_vas w (snd (pages_of d)) \<inter> (W \<union> page_vas va (snd (pages_of e))) = {}" if d: "(w, d) \<in> set L" for w d
  proof -
    have g: "bt_get (mappings s) w = Some d" "page_vas w (snd (pages_of d)) \<inter> W = {}" using Cons.prems(4) d by auto
    have "w \<noteq> va" using Cons.prems(3) x d by force
    then have "page_vas w (snd (pages_of d)) \<inter> page_vas va (snd (pages_of e)) = {}"
      using as_okD(4)[OF ok g(1) e(1)] page_vas_in_run by blast
    then show ?thesis using g(2) by blast
  qed
  then have "fork_inv s child0 (W \<union> page_vas va (snd (pages_of e)) \<union> (\<Union>(va, e)\<in>set L. page_vas va (snd (pages_of e)))) st'"
    using Cons.prems(3,4) by (intro Cons.IH[OF inv r(2)]) auto
  then show ?case by (simp add: x Un_assoc)
qed simp

lemma bt_get_cows: "bt_get (map (\<lambda>(va, info). (va, Cow info)) m) v = map_option Cow (bt_get m v)"
  by (induction m) auto

lemma bt_wf_cows: "bt_wf m \<Longrightarrow> bt_wf (map (\<lambda>(va, info). (va, Cow info)) m)"
  by (simp add: bt_wf_def comp_def case_prod_beta')

text \<open>An address space that consists of copy-on-write pages of \<^term>\<open>s\<close> and the trampoline.\<close>

lemma as_ok_all_cow:
  assumes ok: "as_ok tramp s" and t: "mappings t = map (\<lambda>(va, info). (va, Cow info)) cow" "pt_well_formed (page_table t)"
    and cow: "bt_wf cow" "\<forall>v c. bt_get cow v = Some c \<longrightarrow> page_info s v c"
    and uf: "\<forall>x<2 ^ 39. user_frame (page_table t) x = forked_frame (bt_get cow) base x"
    and base: "\<And>x. x < 2 ^ 39 \<Longrightarrow> bt_get cow (page_base x) = None \<Longrightarrow> user_frame base x =
      (if in_page TRAMPOLINE_VADDR x then Some (tramp + (x - TRAMPOLINE_VADDR), ReadExecute) else None)"
    and reg: "\<And>x. x < 2 ^ 39 \<Longrightarrow> user_frame (page_table t) x \<noteq> None \<Longrightarrow> registered (page_table t) x"
  shows "as_ok tramp t"
proof -
  have get: "bt_get (mappings t) v = map_option Cow (bt_get cow v)" for v by (simp add: t(1) bt_get_cows)
  have dv: "PAGE_SIZE dvd v" if "bt_get cow v = Some c" for v c using cow(2) that by (auto simp: page_info_def)
  have ew: "entry_wf (page_table t) v e" if g: "bt_get (mappings t) v = Some e" for v e
  proof -
    obtain c where c: "e = Cow c" "bt_get cow v = Some c" using g by (auto simp: get)
    note pi = page_infoD[OF ok cow(2)[rule_format, OF c(2)]]
    have "user_frame (page_table t) x = Some (phys_addr c + (x - v), as_readonly (original_perm c))" if "in_page v x" for x
    proof -
      have "x < 2 ^ 39" using that pi(4) by (simp add: in_page_def)
      moreover have "page_base x = v" using in_page_base[OF dv[OF c(2)]] that by simp
      ultimately show ?thesis using uf c(2) by (simp add: forked_frame_def)
    qed
    then show ?thesis using pi(1-4) dv[OF c(2)] by (simp add: entry_wf_def c(1))
  qed
  have one: "in_run v (snd (pages_of e)) x \<longleftrightarrow> page_base x = v" if g: "bt_get (mappings t) v = Some e" for v e x
    using g dv in_page_base[of v x] by (auto simp: get)
  have dj: "v = v'" if "bt_get (mappings t) v = Some e" "bt_get (mappings t) v' = Some e'"
      "in_run v (snd (pages_of e)) x" "in_run v' (snd (pages_of e')) x" for v e v' e' x
    using one[OF that(1), of x] one[OF that(2), of x] that(3,4) by simp
  have cv: "covered tramp (bt_get (mappings t)) x pa m \<and> registered (page_table t) x"
    if x: "x < 2 ^ 39" "user_frame (page_table t) x = Some (pa, m)" for x pa m
  proof (cases "bt_get cow (page_base x)")
    case None
    then show ?thesis using x uf base[OF x(1) None] reg[OF x(1)]
      by (auto simp: forked_frame_def covered_def split: if_splits)
  next
    case (Some c)
    then have g: "bt_get (mappings t) (page_base x) = Some (Cow c)" by (simp add: get)
    then have "in_run (page_base x) (snd (pages_of (Cow c))) x" using one[OF g, of x] by blast
    then have "covered tramp (bt_get (mappings t)) x pa m" unfolding covered_def using g by blast
    then show ?thesis using reg[OF x(1)] x(2) by simp
  qed
  have tr: "trampoline_ok tramp t"
    unfolding trampoline_ok_def
  proof (intro allI impI conjI)
    fix x assume x: "in_page TRAMPOLINE_VADDR x"
    have x39: "x < 2 ^ 39" using x by (simp add: in_page_def TRAMPOLINE_VADDR_def PAGE_SIZE_def)
    have n: "bt_get cow (page_base x) = None"
    proof (rule ccontr)
      assume "bt_get cow (page_base x) \<noteq> None"
      then obtain c where "page_info s (page_base x) c" using cow(2) by blast
      then obtain va e where e: "bt_get (mappings s) va = Some e" "in_run va (snd (pages_of e)) (page_base x)"
        unfolding page_info_def by blast
      have "page_base x = TRAMPOLINE_VADDR"
        using in_page_base[of TRAMPOLINE_VADDR x] x by (simp add: TRAMPOLINE_VADDR_def PAGE_SIZE_def)
      then have "in_page TRAMPOLINE_VADDR (page_base x)" by (simp add: in_page_def PAGE_SIZE_def)
      then show False using trampoline_okD(2)[OF as_okD(6)[OF ok] _ e(1)] e(2) by blast
    qed
    then show "user_frame (page_table t) x = Some (tramp + (x - TRAMPOLINE_VADDR), ReadExecute)"
      using x x39 uf base[OF x39 n] by (simp add: forked_frame_def)
    fix w e assume "bt_get (mappings t) w = Some e"
    then show "\<not> in_run w (snd (pages_of e)) x" using one[of w e x] n by (auto simp: get)
  qed
  have wf: "bt_wf (mappings t)" by (simp add: t(1) bt_wf_cows[OF cow(1)])
  show ?thesis by (rule as_okI) (rule t(2) wf tr | rule ew, assumption | rule cv, assumption+ | rule dj, assumption+)+
qed

lemma uncovered_trampoline:
  assumes ok: "as_ok tramp s"
    and all: "\<And>va e x. bt_get (mappings s) va = Some e \<Longrightarrow> in_run va (snd (pages_of e)) x \<Longrightarrow> bt_get cow (page_base x) \<noteq> None"
    and x: "x < 2 ^ 39" "bt_get cow (page_base x) = None"
  shows "user_frame (page_table s) x =
    (if in_page TRAMPOLINE_VADDR x then Some (tramp + (x - TRAMPOLINE_VADDR), ReadExecute) else None)"
proof (cases "user_frame (page_table s) x")
  case None
  then show ?thesis using trampoline_okD(1)[OF as_okD(6)[OF ok], of x] by auto
next
  case (Some p)
  then have "user_frame (page_table s) x = Some (fst p, snd p)" by simp
  from ok this x(1) show ?thesis
  proof (cases rule: user_frame_cases)
    case trampoline
    then show ?thesis using trampoline_okD(1)[OF as_okD(6)[OF ok], of x] by simp
  qed (use all x(2) in blast)
qed

lemma all_cow_view:
  assumes ok: "as_ok tramp s" and t: "mappings t = map (\<lambda>(va, info). (va, Cow info)) cow"
    and cow: "\<forall>v c. bt_get cow v = Some c \<longrightarrow> page_info s v c"
    and all: "\<And>va e x. bt_get (mappings s) va = Some e \<Longrightarrow> in_run va (snd (pages_of e)) x \<Longrightarrow> bt_get cow (page_base x) \<noteq> None"
    and uf: "\<forall>x<2 ^ 39. user_frame (page_table t) x = forked_frame (bt_get cow) base x"
    and base: "\<And>x. x < 2 ^ 39 \<Longrightarrow> bt_get cow (page_base x) = None \<Longrightarrow> user_frame base x =
      (if in_page TRAMPOLINE_VADDR x then Some (tramp + (x - TRAMPOLINE_VADDR), ReadExecute) else None)"
  shows "view t r = view s r"
proof
  fix x
  have get: "bt_get (mappings t) v = map_option Cow (bt_get cow v)" for v by (simp add: t bt_get_cows)
  show "view t r x = view s r x"
  proof (cases "x < 2 ^ 39")
    case True
    show ?thesis
    proof (cases "bt_get cow (page_base x)")
      case (Some c)
      have "in_page (page_base x) x" using in_page_base[of "page_base x" x] by simp
      then obtain m where "user_frame (page_table s) x = Some (phys_addr c + (x - page_base x), m)"
          "logical_perm s x m = original_perm c"
        using page_infoD(5)[OF ok cow[rule_format, OF Some]] by blast
      then show ?thesis using True uf Some by (simp add: view_def forked_frame_def logical_perm_def get)
    next
      case None
      have "bt_get (mappings s) (page_base x) = None"
      proof (rule ccontr)
        assume "bt_get (mappings s) (page_base x) \<noteq> None"
        then obtain e where e: "bt_get (mappings s) (page_base x) = Some e" by blast
        then have "in_run (page_base x) (snd (pages_of e)) x"
          using as_okD(3)[OF ok e] in_page_base[of "page_base x" x]
          by (auto simp: entry_wf_def run_ok_def in_run_def in_page_def intro: order.strict_trans2)
        then show False using all[OF e] None by blast
      qed
      moreover have "user_frame (page_table s) x = user_frame base x"
        using uncovered_trampoline[OF ok all True None] base[OF True None] by simp
      ultimately show ?thesis using True uf None by (simp add: view_def forked_frame_def logical_perm_def get)
    qed
  qed (simp add: view_def)
qed

definition kernel_table_ok :: "root_page_table_holder \<Rightarrow> bool" where
  "kernel_table_ok pt \<longleftrightarrow> pt_well_formed pt \<and> (\<forall>x<2 ^ 39. user_frame pt x = None)"

lemma fork_parent_registered:
  assumes ok: "as_ok tramp s" and cow: "\<forall>v c. bt_get cow v = Some c \<longrightarrow> page_info s v c"
    and uf: "\<forall>x<2 ^ 39. user_frame pt x = forked_frame (bt_get cow) (page_table s) x"
    and am: "already_mapped pt = already_mapped (page_table s)" and x: "x < 2 ^ 39" "user_frame pt x \<noteq> None"
  shows "registered pt x"
proof -
  have "user_frame (page_table s) x \<noteq> None"
  proof (cases "bt_get cow (page_base x)")
    case (Some c)
    then show ?thesis using page_infoD(5)[OF ok cow[rule_format, OF Some], of x] in_page_base[of "page_base x" x] by auto
  qed (use x uf in \<open>simp add: forked_frame_def\<close>)
  then show ?thesis using as_okD(5)[OF ok x(1)] am by (auto simp: registered_def)
qed

text \<open>The tables after the whole loop: every page of the parent is a copy-on-write page of both.\<close>

lemma clone_tables:
  assumes ok: "as_ok tramp s" and k: "kernel_table_ok kpt" and tr: "run_ok (tramp, 1)"
    and run: "clone_address_space tramp kpt s = Some (child, s')"
  obtains c0 cow where "mappings s' = map (\<lambda>(va, info). (va, Cow info)) cow" "mappings child = map (\<lambda>(va, info). (va, Cow info)) cow"
    "\<And>x. x < 2 ^ 39 \<Longrightarrow> user_frame c0 x = (if in_page TRAMPOLINE_VADDR x then Some (tramp + (x - TRAMPOLINE_VADDR), ReadExecute) else None)"
    "fork_inv s c0 (\<Union>(va, e)\<in>set (mappings s). page_vas va (snd (pages_of e))) (page_table s', page_table child, cow, cow)"
proof -
  obtain c0 cow cow' where r: "map_userspace kpt TRAMPOLINE_VADDR tramp PAGE_SIZE ReadExecute ''Signal trampoline'' = Some c0"
      "foldM fork_mapping (mappings s) (page_table s, c0, [], []) = Some (page_table s', page_table child, cow, cow')"
      "mappings s' = map (\<lambda>(va, info). (va, Cow info)) cow" "mappings child = map (\<lambda>(va, info). (va, Cow info)) cow'"
    using run by (auto simp: clone_address_space_def fork_address_space_def set_fork_state_def process_new_def Let_def run_simps)
  have b: "0 < tramp" "tramp + 1 * PAGE_SIZE \<le> 2 ^ 56" "ReadExecute \<noteq> PointerToNextLevel"
      "TRAMPOLINE_VADDR + 1 * PAGE_SIZE \<le> 2 ^ 39" "(0::nat) < 1"
    using tr by (auto simp: run_ok_def TRAMPOLINE_VADDR_def PAGE_SIZE_def)
  have "map_userspace kpt TRAMPOLINE_VADDR tramp (1 * PAGE_SIZE) ReadExecute ''Signal trampoline'' = Some c0" using r(1) by simp
  note m = user_frame_map[OF conjunct1[OF k[unfolded kernel_table_ok_def]] this b]
  have c0: "user_frame c0 x = (if in_page TRAMPOLINE_VADDR x then Some (tramp + (x - TRAMPOLINE_VADDR), ReadExecute) else None)"
    if "x < 2 ^ 39" for x using m(5)[OF that] k that by (simp add: kernel_table_ok_def)
  have reg0: "registered c0 x" if "x < 2 ^ 39" "user_frame c0 x \<noteq> None" for x
    using that c0[OF that(1)] by (auto simp: registered_def m(4) in_page_def split: if_splits)
  have ini: "fork_inv s c0 {} (page_table s, c0, [], [])"
    using as_okD(1)[OF ok] m(1) reg0 by (simp add: fork_inv_def forked_frame_def)
  have dist: "distinct (map fst (mappings s))" by (rule bt_wf_distinct[OF as_okD(2)[OF ok]])
  have inv: "fork_inv s c0 (\<Union>(va, e)\<in>set (mappings s). page_vas va (snd (pages_of e))) (page_table s', page_table child, cow, cow')"
    using fork_all[OF ok ini r(2) dist] dist by auto
  then have "cow' = cow" by (simp add: fork_inv_def)
  then show ?thesis using that[OF r(3) _ c0] r(4) inv by blast
qed

lemma clone_process_ok:
  assumes ok: "as_ok tramp s" and k: "kernel_table_ok kpt" and tr: "run_ok (tramp, 1)"
    and run: "clone_address_space tramp kpt s = Some (child, s')"
  shows "as_ok tramp child \<and> as_ok tramp s' \<and> (\<forall>r. view child r = view s r) \<and> (\<forall>r. view s' r = view s r)
    \<and> (\<forall>t v e. t = child \<or> t = s' \<longrightarrow> bt_get (mappings t) v = Some e \<longrightarrow> \<not> owned e
        \<and> (\<exists>va d. bt_get (mappings s) va = Some d \<and> frames (pages_of e) \<subseteq> frames (pages_of d)))"
proof -
  let ?W = "\<Union>(va, e)\<in>set (mappings s). page_vas va (snd (pages_of e))"
  obtain c0 cow where r: "mappings s' = map (\<lambda>(va, info). (va, Cow info)) cow" "mappings child = map (\<lambda>(va, info). (va, Cow info)) cow"
    and c0: "\<And>x. x < 2 ^ 39 \<Longrightarrow> user_frame c0 x = (if in_page TRAMPOLINE_VADDR x then Some (tramp + (x - TRAMPOLINE_VADDR), ReadExecute) else None)"
    and inv: "fork_inv s c0 ?W (page_table s', page_table child, cow, cow)"
    by (rule clone_tables[OF ok k tr run]) blast
  from inv have i: "bt_wf cow" "dom (bt_get cow) = ?W" "\<forall>v c. bt_get cow v = Some c \<longrightarrow> page_info s v c"
      "pt_well_formed (page_table s')" "pt_well_formed (page_table child)" "already_mapped (page_table s') = already_mapped (page_table s)"
      "\<forall>x<2 ^ 39. user_frame (page_table s') x = forked_frame (bt_get cow) (page_table s) x"
      "\<forall>x<2 ^ 39. user_frame (page_table child) x = forked_frame (bt_get cow) c0 x"
      "\<And>x. x < 2 ^ 39 \<Longrightarrow> user_frame (page_table child) x \<noteq> None \<Longrightarrow> registered (page_table child) x"
    by (auto simp: fork_inv_def)
  have all: "bt_get cow (page_base x) \<noteq> None" if e: "bt_get (mappings s) va = Some e" "in_run va (snd (pages_of e)) x" for va e x
  proof -
    have "page_base x \<in> page_vas va (snd (pages_of e))"
      using in_run_page_vas e as_okD(3)[OF ok e(1)] by (simp add: entry_wf_def)
    then have "page_base x \<in> ?W" using map_of_SomeD[OF e(1)] by blast
    then show ?thesis using i(2) by blast
  qed
  note base = uncovered_trampoline[OF ok all]
  note regp = fork_parent_registered[OF ok i(3,7,6)]
  have "as_ok tramp s'"
    by (rule as_ok_all_cow[OF ok r(1) i(4,1,3,7)]) (use base regp in auto)
  moreover have "as_ok tramp child"
    by (rule as_ok_all_cow[OF ok r(2) i(5,1,3,8)]) (use c0 i(9) in auto)
  moreover have "view s' m = view s m" for m
    by (rule all_cow_view[OF ok r(1) i(3) _ i(7)]) (use all base in auto)
  moreover have "view child m = view s m" for m
    by (rule all_cow_view[OF ok r(2) i(3) _ i(8)]) (use all c0 in auto)
  moreover have "\<not> owned e \<and> (\<exists>va d. bt_get (mappings s) va = Some d \<and> frames (pages_of e) \<subseteq> frames (pages_of d))"
    if t: "t = child \<or> t = s'" "bt_get (mappings t) v = Some e" for t v e
  proof -
    obtain c where c: "e = Cow c" "bt_get cow v = Some c" using t r by (auto simp: bt_get_cows)
    then show ?thesis using page_infoD(6)[OF ok i(3)[rule_format, OF c(2)]] by simp
  qed
  ultimately show ?thesis by blast
qed

lemma clone_ok:
  assumes inv: "sys_inv tramp S" and p: "procs S p = Some s" "procs S c = None"
    and k: "kernel_table_ok kpt" and tr: "run_ok (tramp, 1)"
    and run: "clone_address_space tramp kpt s = Some (child, s')"
  shows "sys_inv tramp (S\<lparr>procs := (procs S)(p \<mapsto> s', c \<mapsto> child)\<rparr>)
    \<and> views (S\<lparr>procs := (procs S)(p \<mapsto> s', c \<mapsto> child)\<rparr>) = (views S)(c \<mapsto> view s (ram (kernel_memory S)))"
proof -
  let ?P = "(procs S)(p \<mapsto> s', c \<mapsto> child)"
  note cl = clone_process_ok[OF sys_invD(1)[OF inv p(1)] k tr run]
  have cow: "\<not> owned e \<and> (\<exists>va d. bt_get (mappings s) va = Some d \<and> frames (pages_of e) \<subseteq> frames (pages_of d))"
    if "t = child \<or> t = s'" "bt_get (mappings t) v = Some e" for t v e
    using cl that by blast
  have pc: "p \<noteq> c" using p by auto
  have src: "\<exists>q' t' v' d. procs S q' = Some t' \<and> bt_get (mappings t') v' = Some d \<and> frames (pages_of e) \<subseteq> frames (pages_of d)
      \<and> ((q', v', d) = (q, v, e) \<and> q \<noteq> p \<and> q \<noteq> c \<or> q' = p \<and> \<not> owned e \<and> q \<in> {p, c})"
    if that': "?P q = Some t" "bt_get (mappings t) v = Some e" for q t v e
  proof (cases "q = p \<or> q = c")
    case True
    then have "t = child \<or> t = s'" using that'(1) pc by auto
    then obtain va d where "\<not> owned e" "bt_get (mappings s) va = Some d" "frames (pages_of e) \<subseteq> frames (pages_of d)"
      using cow[OF _ that'(2)] by blast
    then show ?thesis using p(1) True by (intro exI[of _ p] exI[of _ s] exI[of _ va] exI[of _ d]) simp
  next
    case False
    then show ?thesis using that' by auto
  qed
  have ex: "exclusive ?P"
    unfolding exclusive_def
  proof (intro allI impI)
    fix q t v e q' t' v' e'
    assume a: "?P q = Some t" "bt_get (mappings t) v = Some e" "owned e" "?P q' = Some t'"
      "bt_get (mappings t') v' = Some e'" "(q, v) \<noteq> (q', v')"
    have o: "procs S q = Some t" "q \<noteq> p" "q \<noteq> c"
      using src[OF a(1,2)] a(1,3) by auto
    obtain u w w' d where d: "procs S u = Some w" "bt_get (mappings w) w' = Some d" "frames (pages_of e') \<subseteq> frames (pages_of d)"
        "(u, w', d) = (q', v', e') \<and> q' \<noteq> p \<and> q' \<noteq> c \<or> u = p \<and> \<not> owned e' \<and> q' \<in> {p, c}"
      using src[OF a(4,5)] by blast
    have "(q, v) \<noteq> (u, w')" using d(4) a(6) o(2) by auto
    then have "frames (pages_of e) \<inter> frames (pages_of d) = {}" by (rule sys_invD(3)[OF inv o(1) a(2,3) d(1,2)])
    then show "frames (pages_of e) \<inter> frames (pages_of e') = {}" using d(3) by blast
  qed
  have t: "frames (pages_of e) \<inter> frames (tramp, 1) = {}"
    if "?P q = Some t" "bt_get (mappings t) v = Some e" "owned e" for q t v e
  proof -
    have "procs S q = Some t" using src[OF that(1,2)] that(1,3) by auto
    then show ?thesis by (rule sys_invD(2)[OF inv _ that(2,3)])
  qed
  have "in_use tramp ?P \<subseteq> in_use tramp (procs S)"
  proof
    fix y assume "y \<in> in_use tramp ?P"
    then consider "y \<in> frames (tramp, 1)" | q t w d where "?P q = Some t" "bt_get (mappings t) w = Some d" "y \<in> frames (pages_of d)"
      unfolding in_use_def by blast
    then show "y \<in> in_use tramp (procs S)"
    proof cases
      case 2
      then show ?thesis using src[OF 2(1,2)] unfolding in_use_def by blast
    qed (simp add: in_use_def)
  qed
  then have "runs_free (in_use tramp ?P) (heap_runs (kernel_memory S))" by (rule runs_free_mono[OF sys_invD(4)[OF inv p(1)]])
  moreover have "as_ok tramp t" if "?P q = Some t" for q t
    using that cl sys_invD(1)[OF inv] by (auto split: if_splits)
  ultimately have "sys_inv tramp (S\<lparr>procs := ?P\<rparr>)" using ex t unfolding sys_inv_def by auto
  moreover have "views (S\<lparr>procs := ?P\<rparr>) q = ((views S)(c \<mapsto> view s (ram (kernel_memory S)))) q" for q
    using cl p pc by (simp add: views_def)
  then have "views (S\<lparr>procs := ?P\<rparr>) = (views S)(c \<mapsto> view s (ram (kernel_memory S)))" by (rule ext)
  ultimately show ?thesis by blast
qed

section \<open>Anonymous mappings\<close>

text \<open>A range that the page tables accept has no user translation yet.\<close>

lemma not_mapped_before:
  assumes ok: "as_ok tramp s" and n: "\<not> is_mapped (page_table s) (va, va + (n * PAGE_SIZE - 1))" "in_run va n x" "x < 2 ^ 39"
  shows "user_frame (page_table s) x = None"
proof (rule ccontr)
  assume "user_frame (page_table s) x \<noteq> None"
  then have "registered (page_table s) x" using as_okD(5)[OF ok n(3)] by auto
  then obtain r where "r \<in> set (already_mapped (page_table s))" "range_start r \<le> x" "x \<le> range_end r"
    by (auto simp: registered_def)
  then show False using n(1,2) by (auto simp: is_mapped_def mapping_contains_def list_ex_iff in_run_def)
qed

lemma new_run_facts:
  assumes ok: "as_ok tramp s" and r: "run_ok (a, n)" and m: "m \<noteq> PointerToNextLevel"
    and va: "va + n * PAGE_SIZE \<le> 2 ^ 39"
    and run: "map_userspace (page_table s) va a (n * PAGE_SIZE) m name = Some pt"
  shows "in_run va n x \<Longrightarrow> user_frame (page_table s) x = None \<and> x < 2 ^ 39"
    "bt_get (mappings s) w = Some e \<Longrightarrow> in_run w (snd (pages_of e)) x \<Longrightarrow> \<not> in_run va n x"
    "in_run va n w \<Longrightarrow> bt_get (mappings s) w = None" "in_run va n va" "PAGE_SIZE dvd va" "pt_well_formed pt"
    "x < 2 ^ 39 \<Longrightarrow> user_frame pt x = (if in_run va n x then Some (a + (x - va), m) else user_frame (page_table s) x)"
    "registered (page_table s) x \<or> in_run va n x \<Longrightarrow> registered pt x"
proof -
  have b: "0 < a" "a + n * PAGE_SIZE \<le> 2 ^ 56" "0 < n" using r by (auto simp: run_ok_def)
  note mp = user_frame_map[OF as_okD(1)[OF ok] run b(1,2) m va b(3)]
  show none: "user_frame (page_table s) x = None \<and> x < 2 ^ 39" if "in_run va n x" for x
    using not_mapped_before[OF ok mp(3) that] that va by (simp add: in_run_def)
  show new: "\<not> in_run va n x" if "bt_get (mappings s) w = Some e" "in_run w (snd (pages_of e)) x" for w e x
    using as_ok_frame[OF ok that] none by (metis option.distinct(1))
  show "bt_get (mappings s) w = None" if "in_run va n w" for w
  proof (cases "bt_get (mappings s) w")
    case (Some e)
    have "in_run w (snd (pages_of e)) w"
      using as_okD(3)[OF ok Some] by (auto simp: entry_wf_def run_ok_def in_run_def PAGE_SIZE_def)
    then show ?thesis using new[OF Some] that by blast
  qed
  show "in_run va n va" using b(3) by (simp add: in_run_def PAGE_SIZE_def)
  show "PAGE_SIZE dvd va" "pt_well_formed pt" by (rule mp(2), rule mp(1))
  show "user_frame pt x = (if in_run va n x then Some (a + (x - va), m) else user_frame (page_table s) x)" if "x < 2 ^ 39"
    using mp(5)[OF that] .
  show "registered pt x" if "registered (page_table s) x \<or> in_run va n x"
    using that by (auto simp: registered_def mp(4) in_run_def)
qed

lemma new_run_view:
  assumes ok: "as_ok tramp s" and r: "run_ok (a, n)" and m: "m \<noteq> PointerToNextLevel"
    and va: "va + n * PAGE_SIZE \<le> 2 ^ 39"
    and run: "map_userspace (page_table s) va a (n * PAGE_SIZE) m name = Some pt"
    and t: "page_table t = pt" "mappings t = bt_insert va (Mmap (a, n)) (mappings s)"
  shows "view t r = (\<lambda>x. if in_run va n x then Some (r (a + (x - va)), m) else view s r x)"
proof
  fix x
  note f = new_run_facts[OF ok r m va run]
  have get: "bt_get (mappings t) = (bt_get (mappings s))(va \<mapsto> Mmap (a, n))"
    by (simp only: t(2) bt_get_insert[OF as_okD(2)[OF ok]])
  have pb: "in_run va n x \<longleftrightarrow> in_run va n (page_base x)"
    using in_run_page_base[OF f(5)] page_in_run(1)[OF f(5) page_base_dvd, of n x x] in_page_base[of "page_base x" x] by auto
  show "view t r x = (if in_run va n x then Some (r (a + (x - va)), m) else view s r x)"
  proof (cases "in_run va n x")
    case True
    have "bt_get (mappings s) (page_base x) = None" using f(3) True pb by blast
    then show ?thesis using True f(1,7) by (simp add: view_def t(1) logical_perm_def get)
  next
    case False
    then have "page_base x \<noteq> va" using pb f(4) by auto
    then show ?thesis using False f(7) by (simp add: view_def t(1) logical_perm_def get)
  qed
qed

lemma as_ok_new_run:
  assumes ok: "as_ok tramp s" and r: "run_ok (a, n)" and m: "m \<noteq> PointerToNextLevel"
    and va: "va + n * PAGE_SIZE \<le> 2 ^ 39"
    and run: "map_userspace (page_table s) va a (n * PAGE_SIZE) m name = Some pt"
    and t: "page_table t = pt" "mappings t = bt_insert va (Mmap (a, n)) (mappings s)"
  shows "as_ok tramp t"
proof -
  note f = new_run_facts[OF ok r m va run]
  have get: "bt_get (mappings t) = (bt_get (mappings s))(va \<mapsto> Mmap (a, n))"
    by (simp only: t(2) bt_get_insert[OF as_okD(2)[OF ok]])
  have ew: "entry_wf pt w e" if g: "bt_get (mappings t) w = Some e" for w e
  proof (cases "w = va")
    case True
    then have "e = Mmap (a, n)" using g by (simp add: get)
    then show ?thesis using True f va r m by (simp add: entry_wf_def)
  next
    case False
    then have g': "bt_get (mappings s) w = Some e" using g by (simp add: get)
    have "user_frame pt x = user_frame (page_table s) x" if "in_run w (snd (pages_of e)) x" for x
      using f(2)[OF g' that] f(7)[of x] as_ok_frame[OF ok g' that] by metis
    then show ?thesis using as_okD(3)[OF ok g'] by (simp add: entry_wf_def)
  qed
  have dj: "w = w'" if "bt_get (mappings t) w = Some e" "bt_get (mappings t) w' = Some e'"
      "in_run w (snd (pages_of e)) x" "in_run w' (snd (pages_of e')) x" for w e w' e' x
    using that f(2)[of w e x] f(2)[of w' e' x] as_okD(4)[OF ok, of w e w' e' x] by (auto simp: get split: if_splits)
  have cv: "covered tramp (bt_get (mappings t)) x pa k \<and> registered pt x"
    if x: "x < 2 ^ 39" "user_frame pt x = Some (pa, k)" for x pa k
  proof (cases "in_run va n x")
    case True
    then have "covered tramp (bt_get (mappings t)) x pa k"
      unfolding covered_def get by (intro disjI1 exI[of _ va] exI[of _ "Mmap (a, n)"]) simp
    then show ?thesis using f(8) True by blast
  next
    case False
    then have "user_frame (page_table s) x = Some (pa, k)" using f(7)[OF x(1)] x(2) by simp
    note c = as_okD(5)[OF ok x(1) this]
    have "bt_get (mappings t) w = Some e" if "bt_get (mappings s) w = Some e" for w e
      using that f(3)[OF f(4)] by (auto simp: get)
    then have "covered tramp (bt_get (mappings t)) x pa k" using c unfolding covered_def by blast
    then show ?thesis using f(8) c by blast
  qed
  have tm: "\<not> in_run va n x" if "in_page TRAMPOLINE_VADDR x" for x
    using trampoline_okD(1)[OF as_okD(6)[OF ok] that] f(1)[of x] by auto
  have tr: "trampoline_ok tramp t"
    unfolding trampoline_ok_def
  proof (intro allI impI conjI)
    fix x assume x: "in_page TRAMPOLINE_VADDR x"
    have "x < 2 ^ 39" using x by (simp add: in_page_def TRAMPOLINE_VADDR_def PAGE_SIZE_def)
    then show "user_frame (page_table t) x = Some (tramp + (x - TRAMPOLINE_VADDR), ReadExecute)"
      using trampoline_okD(1)[OF as_okD(6)[OF ok] x] f(7) tm[OF x] t(1) by simp
    fix w e assume "bt_get (mappings t) w = Some e"
    then show "\<not> in_run w (snd (pages_of e)) x"
      using trampoline_okD(2)[OF as_okD(6)[OF ok] x, of w e] tm[OF x] by (auto simp: get split: if_splits)
  qed
  have wf: "bt_wf (mappings t)" using as_okD(2)[OF ok] t(2) by simp
  show ?thesis
    by (rule as_okI, unfold t(1)) (rule f(6) wf tr | rule ew, assumption | rule cv, assumption+ | rule dj, assumption+)+
qed

lemma mmap_pages_ok:
  assumes inv: "sys_inv tramp S" and p: "procs S p = Some s" and m: "m \<noteq> PointerToNextLevel"
    and b: "free_mmap_address s + n * PAGE_SIZE \<le> 2 ^ 39"
    and run: "mmap_pages s (kernel_memory S) n m = Some (addr, s', km')"
  shows "sys_inv tramp (S\<lparr>procs := (procs S)(p \<mapsto> s'), kernel_memory := km'\<rparr>)
    \<and> addr = free_mmap_address s
    \<and> (\<forall>x. in_run addr n x \<longrightarrow> view s (ram (kernel_memory S)) x = None)
    \<and> views (S\<lparr>procs := (procs S)(p \<mapsto> s'), kernel_memory := km'\<rparr>) = (views S)(p \<mapsto>
        (\<lambda>x. if in_run addr n x then Some (0, m) else view s (ram (kernel_memory S)) x))"
proof -
  let ?r = "ram (kernel_memory S)" let ?va = "free_mmap_address s"
  have ok: "as_ok tramp s" by (rule sys_invD(1)[OF inv p])
  obtain pages pt where r: "pinned_new (kernel_memory S) n = Some (pages, km')"
      "map_userspace (page_table s) ?va (fst pages) (n * PAGE_SIZE) m ''mmap'' = Some pt"
      "page_table s' = pt" "mappings s' = bt_insert ?va (Mmap pages) (mappings s)" "addr = ?va"
    using run by (auto simp: mmap_pages_def Let_def run_simps)
  obtain a where pg: "pages = (a, n)" and f: "run_ok (a, n)" "frames (a, n) \<inter> in_use tramp (procs S) = {}"
      "runs_free (in_use tramp (procs S) \<union> frames (a, n)) (heap_runs km')"
      "\<And>y. ram km' y = (if y \<in> frames (a, n) then 0 else ?r y)"
    using pinned_new_ok[OF r(1) sys_invD(4)[OF inv p]] by (metis prod.collapse)
  note run' = r(2)[unfolded pg fst_conv] r(3) r(4)[unfolded pg]
  have nr: "as_ok tramp s'" by (rule as_ok_new_run[OF ok f(1) m b run'])
  have get: "bt_get (mappings s') = (bt_get (mappings s))(?va \<mapsto> Mmap (a, n))"
    by (simp only: r(4) pg bt_get_insert[OF as_okD(2)[OF ok]])
  have "sys_inv tramp (S\<lparr>procs := (procs S)(p \<mapsto> s'), kernel_memory := km'\<rparr>)"
    by (rule sys_inv_new_entry[OF inv p nr _ f(2,3), of ?va]) (auto simp: get split: if_splits)
  moreover have same: "view t (ram km') = view t ?r" if "procs S q = Some t" for q t
    using f(2,4) by (intro view_unaffected[OF inv that]) auto
  have "view s' (ram km') = (\<lambda>x. if in_run ?va n x then Some (0, m) else view s ?r x)"
    unfolding new_run_view[OF ok f(1) m b run'] same[OF p] using f(4) by (auto simp: fun_eq_iff frames_def in_run_def)
  then have "views (S\<lparr>procs := (procs S)(p \<mapsto> s'), kernel_memory := km'\<rparr>) q = ((views S)(p \<mapsto>
        (\<lambda>x. if in_run ?va n x then Some (0, m) else view s ?r x))) q" for q
    using same[of q] by (cases "procs S q") (auto simp: views_def)
  then have "views (S\<lparr>procs := (procs S)(p \<mapsto> s'), kernel_memory := km'\<rparr>) = (views S)(p \<mapsto>
        (\<lambda>x. if in_run ?va n x then Some (0, m) else view s ?r x))" by (rule ext)
  moreover have "view s ?r x = None" if "in_run ?va n x" for x
    using new_run_facts(1)[OF ok f(1) m b run'(1) that] by (simp add: view_def)
  ultimately show ?thesis using r(5) by blast
qed

section \<open>Writes from the kernel\<close>

lemma validate_userspace_ok:
  assumes inv: "pt_inv pt pos" and run: "validate_userspace pt w x 1 len = Some (Inr pa)" and len: "0 < len"
  obtains m where "user_frame pt x = Some (pa, m)" "m \<in> {ReadOnly, ReadWrite, ReadExecute}" "w \<Longrightarrow> m = ReadWrite"
proof -
  have fp: "is_valid_userspace_fat_ptr pt x 1 len w = Some True"
      and tr: "translate_userspace_address_to_physical_address pt x = Some (Some pa)"
    using run by (auto simp: validate_userspace_def run_simps split: if_splits option.splits)
  obtain l where "fat_ptr_loop pt w l (page_base x) = Some True"
    using fp len by (auto simp: is_valid_userspace_fat_ptr_def Let_def page_base_def umul_def uadd_def split: if_splits option.splits)
  then obtain e0 m0 where e0: "walk_to_entry pt (page_base x) = Some (Some e0)" "get_xwr_mode e0 = Some m0"
      "m0 \<in> {ReadOnly, ReadWrite, ReadExecute}" "w \<Longrightarrow> m0 = ReadWrite" "pte_user e0"
    by (subst (asm) fat_ptr_loop.simps) (auto simp: run_simps split: option.splits if_splits)
  have f0: "hw_walk (tables pt) 2 (root_table pt) (page_base x) = Some (0, e0)"
    using e0(1) by (cases rule: walk_to_entry_cases[OF inv, of "page_base x"]) auto
  have "x div PAGE_SIZE = page_base x div PAGE_SIZE" by (simp add: page_base_def minus_mod_eq_div_mult PAGE_SIZE_def)
  then have w: "hw_walk (tables pt) 2 (root_table pt) x = Some (0, e0)" using f0 hw_walk_page by metis
  have "walk_to_entry pt x = Some (Some e0)"
  proof (cases rule: walk_to_entry_cases[OF inv, of x])
    case 1
    then show ?thesis using w by (simp add: xlate_def)
  next
    case 3
    then show ?thesis using w by (auto simp: huge_at_def)
  qed (use w in simp)
  then have "pa = unat (pte_addr e0) + x mod PAGE_SIZE"
    using tr by (auto simp: translate_userspace_address_to_physical_address_def run_simps split: if_splits)
  then have "user_frame pt x = Some (pa, m0)"
    using w e0(2,5) by (simp add: user_frame_eq xlate_def PAGE_SIZE_def)
  then show ?thesis using that e0(3,4) by blast
qed

lemma ensure_cow_ok:
  assumes inv: "sys_inv tramp S" and p: "procs S p = Some s" "x < 2 ^ 39"
    and len: "page_span x len"
    and run: "ensure_cow_resolved_for_write s (kernel_memory S) x len = Some (s', km')"
  shows "sys_inv tramp (S\<lparr>procs := (procs S)(p \<mapsto> s'), kernel_memory := km'\<rparr>)
    \<and> views (S\<lparr>procs := (procs S)(p \<mapsto> s'), kernel_memory := km'\<rparr>) = views S"
proof (cases "is_writable_cow s (page_base x)")
  case True
  then obtain res where "resolve_cow_page s (kernel_memory S) (page_base x) = Some (res, s', km')"
    using run len by (auto simp: ensure_cow_resolved_for_write_def page_span_def Let_def run_simps)
  from resolve_cow_page_ok[OF inv p(1) page_base_less[OF p(2)] this] show ?thesis by blast
next
  case False
  then have "s' = s" "km' = kernel_memory S"
    using run len by (auto simp: ensure_cow_resolved_for_write_def page_span_def Let_def run_simps)
  moreover have "(procs S)(p \<mapsto> s) = procs S" using p(1) by auto
  ultimately show ?thesis using inv by simp
qed

lemma write_userspace_sliceE:
  assumes run: "write_userspace_slice s km x bs = Some (res, s', km')"
  obtains s1 k1 v where "ensure_cow_resolved_for_write s km x (length bs) = Some (s1, k1)"
    "validate_userspace (page_table s1) True x 1 (length bs) = Some v"
    "case v of Inl e \<Rightarrow> (res, s', km') = (Inl e, s1, k1)
      | Inr pa \<Rightarrow> (res, s', km') = (Inr (), s1, k1\<lparr>ram := write_ram (ram k1) pa bs\<rparr>)"
proof -
  obtain s1 k1 where r1: "ensure_cow_resolved_for_write s km x (length bs) = Some (s1, k1)"
    using run by (auto simp: write_userspace_slice_def run_simps)
  obtain v where r2: "validate_userspace (page_table s1) True x 1 (length bs) = Some v"
    using run r1 by (auto simp: write_userspace_slice_def run_simps)
  have "case v of Inl e \<Rightarrow> (res, s', km') = (Inl e, s1, k1)
        | Inr pa \<Rightarrow> (res, s', km') = (Inr (), s1, k1\<lparr>ram := write_ram (ram k1) pa bs\<rparr>)"
    using run r1 r2 by (cases v) (auto simp: write_userspace_slice_def)
  then show ?thesis by (rule that[OF r1 r2])
qed

lemma write_userspace_slice_ok:
  assumes inv: "sys_inv tramp S" and p: "procs S p = Some s" "x < 2 ^ 39"
    and len: "page_span x (length bs)"
    and run: "write_userspace_slice s (kernel_memory S) x bs = Some (res, s', km')"
  shows "sys_inv tramp (S\<lparr>procs := (procs S)(p \<mapsto> s'), kernel_memory := km'\<rparr>)
    \<and> (case res of
         Inl _ \<Rightarrow> views (S\<lparr>procs := (procs S)(p \<mapsto> s'), kernel_memory := km'\<rparr>) = views S
       | Inr _ \<Rightarrow> (\<exists>c. view s (ram (kernel_memory S)) x = Some (c, ReadWrite)) \<and> views (S\<lparr>procs := (procs S)(p \<mapsto> s'), kernel_memory := km'\<rparr>) = (views S)(p \<mapsto>
           (\<lambda>y. if x \<le> y \<and> y < x + length bs then Some (bs ! (y - x), ReadWrite) else view s (ram (kernel_memory S)) y)))"
proof -
  obtain s1 k1 v where r: "ensure_cow_resolved_for_write s (kernel_memory S) x (length bs) = Some (s1, k1)"
      "validate_userspace (page_table s1) True x 1 (length bs) = Some v"
      "case v of Inl e \<Rightarrow> (res, s', km') = (Inl e, s1, k1)
        | Inr pa \<Rightarrow> (res, s', km') = (Inr (), s1, k1\<lparr>ram := write_ram (ram k1) pa bs\<rparr>)"
    using run by (rule write_userspace_sliceE)
  let ?S = "S\<lparr>procs := (procs S)(p \<mapsto> s1), kernel_memory := k1\<rparr>"
  have e: "sys_inv tramp ?S" "views ?S = views S" using ensure_cow_ok[OF inv p len r(1)] by auto
  show ?thesis
  proof (cases v)
    case (Inl err)
    then show ?thesis using r(3) e by simp
  next
    case (Inr pa)
    have s1: "procs ?S p = Some s1" by simp
    obtain pos where "pt_inv (page_table s1) pos"
      using as_okD(1)[OF sys_invD(1)[OF e(1) s1]] by (auto simp: pt_well_formed_def)
    then obtain m where m: "user_frame (page_table s1) x = Some (pa, m)" "m = ReadWrite"
      using validate_userspace_ok[OF _ r(2)[unfolded Inr] conjunct1[OF len[unfolded page_span_def]]] by metis
    have vs: "view s1 (ram k1) = view s (ram (kernel_memory S))"
      using fun_cong[OF e(2), of p] p(1) by (simp add: views_def)
    note pw = page_write_ok[OF e(1) s1 p(2) m(1) _ len]
    have "view s1 (ram k1) x = Some (ram k1 pa, ReadWrite)" using m pw(1) p(2) by (simp add: view_def)
    then show ?thesis using pw(2) m(2) r(3) Inr e vs sys_inv_ram[where S = ?S] by (simp cong: if_cong)
  qed
qed

section \<open>Copy on write refines private memory\<close>

text \<open>
  Sequences of memory operations of several processes, and what each does to the memory the processes
  see.  The operations carry the conditions under which user memory is meant to be used: addresses in
  the 39 bits the page tables translate, a kernel write that stays in one page, a fresh process number
  and a table with only kernel mappings for a fork.  The last argument of a mapping is the address it gets,
  that of a kernel write whether it succeeds.
\<close>

datatype mem_op = Fork nat nat root_page_table_holder
  | Store nat usize byte
  | Anonymous nat nat xwr_mode usize
  | KernelWrite nat usize "byte list" bool

fun op_allowed :: "mem_op \<Rightarrow> machine \<Rightarrow> bool" where
  "op_allowed (Fork p c kpt) S \<longleftrightarrow> procs S c = None \<and> kernel_table_ok kpt"
| "op_allowed (Store p x b) S \<longleftrightarrow> x < 2 ^ 39"
| "op_allowed (Anonymous p n m addr) S \<longleftrightarrow> m \<noteq> PointerToNextLevel
     \<and> (\<forall>s. procs S p = Some s \<longrightarrow> free_mmap_address s + n * PAGE_SIZE \<le> 2 ^ 39)"
| "op_allowed (KernelWrite p x bs ok) S \<longleftrightarrow> x < 2 ^ 39 \<and> page_span x (length bs)"

fun exec_op :: "usize \<Rightarrow> mem_op \<Rightarrow> machine \<Rightarrow> machine run" where
  "exec_op tramp (Fork p c kpt) S = do {
     s \<leftarrow> procs S p;
     (child, s) \<leftarrow> clone_address_space tramp kpt s;
     Some (S\<lparr>procs := (procs S)(p \<mapsto> s, c \<mapsto> child)\<rparr>) }"
| "exec_op tramp (Store p x b) S = do {
     s \<leftarrow> procs S p;
     (_, s, km) \<leftarrow> user_store s (kernel_memory S) x b;
     Some (S\<lparr>procs := (procs S)(p \<mapsto> s), kernel_memory := km\<rparr>) }"
| "exec_op tramp (Anonymous p n m addr) S = do {
     s \<leftarrow> procs S p;
     (a, s, km) \<leftarrow> mmap_pages s (kernel_memory S) n m;
     check (a = addr);
     Some (S\<lparr>procs := (procs S)(p \<mapsto> s), kernel_memory := km\<rparr>) }"
| "exec_op tramp (KernelWrite p x bs ok) S = do {
     s \<leftarrow> procs S p;
     (r, s, km) \<leftarrow> write_userspace_slice s (kernel_memory S) x bs;
     check (ok = (r = Inr ()));
     Some (S\<lparr>procs := (procs S)(p \<mapsto> s), kernel_memory := km\<rparr>) }"

type_synonym private_memory = "nat \<rightharpoonup> (usize \<Rightarrow> (byte \<times> xwr_mode) option)"

text \<open>
  The specification: every process has a memory of its own; a fork copies it, a store changes one byte
  of it if that byte is writable and nothing otherwise.
\<close>

fun spec_op :: "mem_op \<Rightarrow> private_memory \<Rightarrow> private_memory \<Rightarrow> bool" where
  "spec_op (Fork p c kpt) V V' \<longleftrightarrow> (\<exists>f. V p = Some f \<and> V' = V(c \<mapsto> f))"
| "spec_op (Store p x b) V V' \<longleftrightarrow> (\<exists>f. V p = Some f \<and> V' = (case f x of
       Some (_, m) \<Rightarrow> if is_writable m then V(p \<mapsto> f(x \<mapsto> (b, m))) else V
     | None \<Rightarrow> V))"
| "spec_op (Anonymous p n m addr) V V' \<longleftrightarrow> (\<exists>f. V p = Some f \<and> (\<forall>x. in_run addr n x \<longrightarrow> f x = None)
     \<and> V' = V(p \<mapsto> (\<lambda>x. if in_run addr n x then Some (0, m) else f x)))"
| "spec_op (KernelWrite p x bs ok) V V' \<longleftrightarrow> (\<exists>f. V p = Some f \<and> (ok \<longrightarrow> (\<exists>c. f x = Some (c, ReadWrite))) \<and> V' = (if ok
     then V(p \<mapsto> (\<lambda>y. if x \<le> y \<and> y < x + length bs then Some (bs ! (y - x), ReadWrite) else f y)) else V))"

inductive exec_ops :: "usize \<Rightarrow> mem_op list \<Rightarrow> machine \<Rightarrow> machine \<Rightarrow> bool" for tramp where
  Done: "exec_ops tramp [] S S"
| Step: "op_allowed a S \<Longrightarrow> exec_op tramp a S = Some S' \<Longrightarrow> exec_ops tramp as S' S'' \<Longrightarrow> exec_ops tramp (a # as) S S''"

inductive spec_ops :: "mem_op list \<Rightarrow> private_memory \<Rightarrow> private_memory \<Rightarrow> bool" where
  Spec_done: "spec_ops [] V V"
| Spec_step: "spec_op a V V' \<Longrightarrow> spec_ops as V' V'' \<Longrightarrow> spec_ops (a # as) V V''"

lemma exec_op_refines:
  assumes "sys_inv tramp S" "run_ok (tramp, 1)" "op_allowed a S" "exec_op tramp a S = Some S'"
  shows "sys_inv tramp S' \<and> spec_op a (views S) (views S')"
proof (cases a)
  case (Fork p c kpt)
  then obtain s s' child where r: "procs S p = Some s" "clone_address_space tramp kpt s = Some (child, s')"
      "S' = S\<lparr>procs := (procs S)(p \<mapsto> s', c \<mapsto> child)\<rparr>"
    using assms(4) by (auto simp: run_simps)
  then show ?thesis using clone_ok[OF assms(1) r(1) _ _ assms(2) r(2), of c] assms(3) Fork by (auto simp: views_def)
next
  case (Store p x b)
  then obtain s st s' km where r: "procs S p = Some s" "user_store s (kernel_memory S) x b = Some (st, s', km)"
      "S' = S\<lparr>procs := (procs S)(p \<mapsto> s'), kernel_memory := km\<rparr>"
    using assms(4) by (auto simp: run_simps)
  have x: "x < 2 ^ 39" using assms(3) Store by simp
  have v: "views S p = Some (view s (ram (kernel_memory S)))" using r(1) by (simp add: views_def)
  from user_store_ok[OF assms(1) r(1) x r(2)] show ?thesis
    by (cases st) (auto simp: Store r(3) v split: option.splits)
next
  case (Anonymous p n m addr)
  then obtain s s' km where r: "procs S p = Some s" "mmap_pages s (kernel_memory S) n m = Some (addr, s', km)"
      "S' = S\<lparr>procs := (procs S)(p \<mapsto> s'), kernel_memory := km\<rparr>"
    using assms(4) by (auto simp: run_simps)
  have v: "views S p = Some (view s (ram (kernel_memory S)))" using r(1) by (simp add: views_def)
  have "m \<noteq> PointerToNextLevel" "free_mmap_address s + n * PAGE_SIZE \<le> 2 ^ 39" using assms(3) r(1) Anonymous by auto
  from mmap_pages_ok[OF assms(1) r(1) this r(2)] show ?thesis by (auto simp: Anonymous r(3) v)
next
  case (KernelWrite p x bs ok)
  then obtain s re s' km where r: "procs S p = Some s" "write_userspace_slice s (kernel_memory S) x bs = Some (re, s', km)"
      "S' = S\<lparr>procs := (procs S)(p \<mapsto> s'), kernel_memory := km\<rparr>" "ok = (re = Inr ())"
    using assms(4) by (auto simp: run_simps)
  have v: "views S p = Some (view s (ram (kernel_memory S)))" using r(1) by (simp add: views_def)
  have "x < 2 ^ 39" "page_span x (length bs)" using assms(3) KernelWrite by auto
  from write_userspace_slice_ok[OF assms(1) r(1) this r(2)] show ?thesis
    by (cases re) (auto simp: KernelWrite r(3,4) v)
qed

lemma exec_ops_refines:
  assumes "exec_ops tramp ops S S'" "run_ok (tramp, 1)" "sys_inv tramp S"
  shows "sys_inv tramp S' \<and> spec_ops ops (views S) (views S')"
  using assms(1,3)
proof (induction rule: exec_ops.induct)
  case (Step a S S' as S'')
  then show ?case using exec_op_refines[OF _ assms(2)] by (blast intro: spec_ops.intros)
qed (auto intro: spec_ops.intros)

lemma exec_ops_append: "exec_ops tramp as S S' \<Longrightarrow> exec_ops tramp bs S' S'' \<Longrightarrow> exec_ops tramp (as @ bs) S S''"
  by (induction rule: exec_ops.induct) (auto intro: exec_ops.intros)

text \<open>
  C36: copy on write cannot be observed.  Any sequence of forks, user stores (with their page faults),
  anonymous mappings and one-page kernel writes by any number of processes, run on shared frames and
  page tables, does to what each process sees exactly what it would do if every process had a private
  copy of its memory; and the frames stay correctly owned, so no process ever writes a frame that
  another one maps.
\<close>

theorem cow_refines_private_memory:
  assumes "sys_inv tramp S" "run_ok (tramp, 1)" "exec_ops tramp ops S S'"
  shows "sys_inv tramp S' \<and> spec_ops ops (views S) (views S')"
  by (rule exec_ops_refines[OF assms(3,2,1)])

section \<open>When the page tables return\<close>

definition no_huge :: "root_page_table_holder \<Rightarrow> bool" where
  "no_huge pt \<longleftrightarrow> (\<forall>x. \<not> huge_at pt x)"

lemma ensure_table_boxes:
  "ensure_table pt t va l = Some (t', pt') \<Longrightarrow> length (boxes pt) \<le> Suc (length (boxes pt'))"
  by (auto simp: ensure_table_def box_page_table_def put_entry_def run_simps split: if_splits list.splits)

lemma map_page_boxes:
  assumes "map_userspace pt va pa PAGE_SIZE m name = Some pt'"
  shows "length (boxes pt) \<le> length (boxes pt') + 2"
proof -
  have al: "align_up PAGE_SIZE PAGE_SIZE = Some PAGE_SIZE" by (simp add: align_up_def urem_def PAGE_SIZE_def)
  obtain h where h: "map_loop h va pa PAGE_SIZE m True 0 = Some pt'" "boxes h = boxes pt"
    using assms al by (auto simp: map_userspace_def pt_map_def run_simps)
  then obtain off h' where st: "map_step h va pa PAGE_SIZE m True 0 = Some (off, h')"
      and l: "map_loop h' va pa PAGE_SIZE m True off = Some pt'"
    by (subst (asm) map_loop.simps) (auto simp: run_simps PAGE_SIZE_def)
  have nc: "can_be_mapped_with va pa PAGE_SIZE (GiB 1) 0 = Some False" "can_be_mapped_with va pa PAGE_SIZE (MiB 2) 0 = Some False"
    by (auto simp: can_be_mapped_with_def MiB_def GiB_def PAGE_SIZE_def)
  obtain t1 h1 t2 h2 where e: "ensure_table h (root_table h) va 2 = Some (t1, h1)" "ensure_table h1 t1 va 1 = Some (t2, h2)"
      "write_leaf h2 t2 va 0 pa m True = Some h'" "off = PAGE_SIZE"
    using st nc by (auto simp: map_step_def run_simps)
  have "boxes h' = boxes h2" using e(3) by (auto simp: write_leaf_def put_entry_def run_simps)
  moreover have "pt' = h'" using l e(4) by (subst (asm) map_loop.simps) simp
  ultimately show ?thesis using ensure_table_boxes[OF e(1)] ensure_table_boxes[OF e(2)] h(2) by simp
qed

lemma map_page_defined:
  assumes wf: "pt_well_formed pt" "no_huge pt" "2 \<le> length (boxes pt)"
    and va: "PAGE_SIZE dvd va" "0 < va" "va + PAGE_SIZE \<le> 2 ^ 39" and r: "run_ok (pa, 1)" and m: "m \<noteq> PointerToNextLevel"
    and free: "\<not> is_mapped pt (va, va + (PAGE_SIZE - 1))" "\<And>x. in_page va (low39 x) \<Longrightarrow> xlate pt x = None"
  shows "\<exists>pt'. map_userspace pt va pa PAGE_SIZE m name = Some pt' \<and> pt_well_formed pt' \<and> no_huge pt'
    \<and> length (boxes pt) \<le> length (boxes pt') + 2
    \<and> (\<forall>x. xlate pt' x = (if in_page va (low39 x) then Some (pa + (low39 x - va), Some m, True) else xlate pt x))
    \<and> already_mapped pt' = already_mapped pt @ [\<lparr>range_start = va, range_end = va + (PAGE_SIZE - 1), mapping_name = name, privileges = m\<rparr>]"
proof -
  obtain pos where inv: "pt_inv pt pos" using wf(1) by (auto simp: pt_well_formed_def)
  have al: "align_up PAGE_SIZE PAGE_SIZE = Some PAGE_SIZE" by (simp add: align_up_def urem_def PAGE_SIZE_def)
  have v39: "low39 va = va" using va(3) by (simp add: PAGE_SIZE_def)
  have pa: "PAGE_SIZE dvd pa" "0 < pa" "pa + PAGE_SIZE \<le> 2 ^ 56" using r by (auto simp: run_ok_def)
  have b: "PAGE_SIZE < MiB 2" "0 < PAGE_SIZE" by (simp_all add: MiB_def PAGE_SIZE_def)
  have v64: "va + PAGE_SIZE \<le> 2 ^ 64" "low39 va + PAGE_SIZE \<le> 2 ^ 39" using va(3) v39 by (simp_all add: PAGE_SIZE_def)
  have fr: "xlate pt x = None" if "low39 va \<le> low39 x" "low39 x < low39 va + PAGE_SIZE" for x
    using free(2)[of x] that v39 by (simp add: in_page_def)
  have bx: "2 * PAGE_SIZE \<le> length (boxes pt) * PAGE_SIZE" using wf(3) by simp
  obtain pt' where p: "pt_map pt va pa PAGE_SIZE m True name = Some pt'"
    using pt_map_defined[OF inv al b(2,1) va(1) pa(1) va(2) pa(2) v64(1) pa(3) v64(2) m free(1) fr bx] by blast
  note ok = pt_map_ok[OF inv p al pa(2,3) v64(2) m]
  have args: "map_args_ok va pa PAGE_SIZE m" using va pa m v64 by (simp add: map_args_ok_def)
  obtain h where h: "map_loop h va pa PAGE_SIZE m True 0 = Some pt'" "tables h = tables pt" "root_table h = root_table pt" "pt_inv h pos"
    using p al inv by (auto simp: pt_map_def run_simps)
  have "\<not> huge_at pt' x" for x
    using map_loop_not_huge[OF h(1,4) args _ _ b(1), of x] wf(2) h(2,3) by (auto simp: no_huge_def huge_at_def)
  then show ?thesis using p ok map_page_boxes[of pt va pa m name pt'] v39
    by (auto simp: map_userspace_def no_huge_def in_page_def)
qed

lemma unat64: "n < 2 ^ 56 \<Longrightarrow> unat (word_of_nat n :: 64 word) = n"
  by (simp add: unat_of_nat take_bit_nat_eq_self)

lemma remap_page_defined:
  assumes wf: "pt_well_formed pt" "no_huge pt" and va: "PAGE_SIZE dvd va" "xlate pt va \<noteq> None"
    and r: "run_ok (pa, 1)" and m: "m \<noteq> PointerToNextLevel"
  shows "\<exists>pt'. remap_page pt va pa m = Some pt' \<and> no_huge pt'"
proof -
  obtain pos where inv: "pt_inv pt pos" using wf(1) by (auto simp: pt_well_formed_def)
  have pa: "PAGE_SIZE dvd pa" "0 < pa" "pa < 2 ^ 56" using r by (auto simp: run_ok_def PAGE_SIZE_def)
  obtain t where t: "walk_to_table pt va = Some (Some t)"
    using walk_to_table_page[OF inv va(2)] wf(2) by (auto simp: no_huge_def)
  have al: "is_page_aligned (word_of_nat pa :: 64 word)" using page_aligned_of_nat[of pa] pa by simp
  obtain e0 where e0: "get_entry pt t va 0 = Some e0" "hw_walk (tables pt) 2 (root_table pt) va = Some (0, e0)"
      "pte_valid e0"
    using t by (cases rule: hw_walk_cases[OF inv, of va]) (auto simp: get_entry_eq)
  obtain e1 where e1: "set_xwr_mode m (set_page_bits (word_of_nat pa) e0) = Some e1"
      "pte_valid e1 = pte_valid e0" "pte_addr e1 = word_of_nat pa" "get_xwr_mode e1 = Some m"
    using set_xwr_mode_spec[of m "set_page_bits (word_of_nat pa) e0"] set_page_bits_addr[OF al, of e0] pa(3)
    by (metis set_page_bits_fields(1) unat64)
  have "pte_addr e1 \<noteq> 0" using e1(3) pa by (metis less_irrefl unat_0 unat64)
  then have ok: "entry_ok pos (vpath va 0) (vidx va 0) e1"
    using e1 e0(3) m pte_leaf_iff[OF e1(4)] by (simp add: entry_ok_def)
  from put_page_ok[OF inv va(1) t ok] obtain pt' where p: "put_entry pt t va 0 e1 = Some pt'"
      "\<forall>x. hw_walk (tables pt') 2 (root_table pt') x = (if low39 va \<le> low39 x \<and> low39 x < low39 va + PAGE_SIZE
           then (if pte_valid e1 then Some (0, e1) else None) else hw_walk (tables pt) 2 (root_table pt) x)"
    by blast
  have "remap_page pt va pa m = Some pt'"
    using t e0(1) e1(1) p(1) al va(1) by (simp add: remap_page_def update_leaf_def set_leaf_address_def va_page_aligned_iff)
  moreover have "no_huge pt'" using wf(2) p(2) by (auto simp: no_huge_def huge_at_def split: if_splits)
  ultimately show ?thesis by blast
qed

text \<open>A process with nothing but the trampoline, as the loader starts to build it.\<close>

lemma as_ok_fresh:
  assumes "kernel_table_ok kpt" "run_ok (tramp, 1)"
    and run: "map_userspace kpt TRAMPOLINE_VADDR tramp PAGE_SIZE ReadExecute name = Some pt"
  shows "as_ok tramp (process_new pt [] b)"
proof -
  have b: "0 < tramp" "tramp + 1 * PAGE_SIZE \<le> 2 ^ 56" "ReadExecute \<noteq> PointerToNextLevel"
      "TRAMPOLINE_VADDR + 1 * PAGE_SIZE \<le> 2 ^ 39" "(0::nat) < 1"
    using assms(2) by (auto simp: run_ok_def TRAMPOLINE_VADDR_def PAGE_SIZE_def)
  have run': "map_userspace kpt TRAMPOLINE_VADDR tramp (1 * PAGE_SIZE) ReadExecute name = Some pt" using run by simp
  note m = user_frame_map[OF conjunct1[OF assms(1)[unfolded kernel_table_ok_def]] run' b]
  have uf: "user_frame pt x = (if in_page TRAMPOLINE_VADDR x then Some (tramp + (x - TRAMPOLINE_VADDR), ReadExecute) else None)"
    if "x < 2 ^ 39" for x using m(5)[OF that] assms(1) that by (simp add: kernel_table_ok_def)
  show ?thesis
  proof (rule as_okI)
    show "trampoline_ok tramp (process_new pt [] b)"
      using uf by (auto simp: trampoline_ok_def process_new_def in_page_def TRAMPOLINE_VADDR_def PAGE_SIZE_def)
    show "covered tramp (bt_get (mappings (process_new pt [] b))) x pa k \<and> registered (page_table (process_new pt [] b)) x"
      if "x < 2 ^ 39" "user_frame (page_table (process_new pt [] b)) x = Some (pa, k)" for x pa k
      using that uf[of x] by (auto simp: process_new_def covered_def registered_def m(4) in_page_def split: if_splits)
  qed (use m(1) in \<open>simp_all add: process_new_def\<close>)
qed

definition demo_machine :: "root_page_table_holder \<Rightarrow> machine" where
  "demo_machine pt = \<lparr>procs = [1 \<mapsto> process_new pt [] brk_empty],
     kernel_memory = \<lparr>ram = (\<lambda>_. 0), heap_runs = [(0x90001000, 1), (0x90004000, 1)]\<rparr>\<rparr>"

lemma demo_machine_ok:
  assumes "kernel_table_ok kpt"
    "map_userspace kpt TRAMPOLINE_VADDR 0x90000000 PAGE_SIZE ReadExecute name = Some pt"
  shows "sys_inv 0x90000000 (demo_machine pt)"
proof -
  have "run_ok (0x90000000, 1)" by (simp add: run_ok_def PAGE_SIZE_def)
  from as_ok_fresh[OF assms(1) this assms(2), of brk_empty]
  show ?thesis
    by (auto simp: sys_inv_def demo_machine_def exclusive_def process_new_def in_use_def run_ok_def frames_def PAGE_SIZE_def
        split: if_splits)
qed

abbreviation (input) "VA \<equiv> 0x2000000000 :: nat"

lemma demo_mmap:
  assumes "no_huge pt" "2 \<le> length (boxes pt)" "pt_well_formed pt"
    and "\<And>x. in_page VA (low39 x) \<Longrightarrow> xlate pt x = None" "\<not> is_mapped pt (VA, VA + (PAGE_SIZE - 1))"
  shows "\<exists>pt'. exec_op t (Anonymous 1 1 ReadWrite VA) (demo_machine pt) = Some
      \<lparr>procs = [1 \<mapsto> \<lparr>page_table = pt', mappings = [(VA, Mmap (0x90001000, 1))], free_mmap_address = VA + PAGE_SIZE, as_brk = brk_empty\<rparr>],
       kernel_memory = \<lparr>ram = (\<lambda>_. 0), heap_runs = [(0x90004000, 1)]\<rparr>\<rparr>
    \<and> no_huge pt' \<and> pt_well_formed pt' \<and> (\<forall>x. xlate pt' x = (if in_page VA (low39 x) then Some (0x90001000 + (low39 x - VA), Some ReadWrite, True) else xlate pt x))"
proof -
  have r: "run_ok (0x90001000, 1)" by (simp add: run_ok_def PAGE_SIZE_def)
  have va: "PAGE_SIZE dvd VA" "0 < VA" "VA + PAGE_SIZE \<le> 2 ^ 39" by (simp_all add: PAGE_SIZE_def)
  obtain pt' where p: "map_userspace pt VA 0x90001000 PAGE_SIZE ReadWrite ''mmap'' = Some pt'" "pt_well_formed pt'" "no_huge pt'"
      "\<forall>x. xlate pt' x = (if in_page VA (low39 x) then Some (0x90001000 + (low39 x - VA), Some ReadWrite, True) else xlate pt x)"
    using map_page_defined[OF assms(3,1,2) va r, of ReadWrite "''mmap''"] assms(4,5) by auto
  have "write_ram (\<lambda>_. 0) a (replicate k 0) = (\<lambda>_. 0)" for a k by (auto simp: write_ram_def fun_eq_iff)
  then show ?thesis using p
    by (auto simp: demo_machine_def mmap_pages_def umul_def uadd_def pinned_new_def process_new_def
        FREE_MMAP_START_ADDRESS_def PAGE_SIZE_def Let_def)
qed

lemma get_userspace_permissions_defined:
  assumes "pt_well_formed pt" "no_huge pt" "xlate pt va = Some (pa, m, u)"
  shows "get_userspace_permissions pt va = Some m"
proof -
  obtain pos where inv: "pt_inv pt pos" using assms(1) by (auto simp: pt_well_formed_def)
  show ?thesis
    using assms(2,3) by (cases rule: walk_to_entry_cases[OF inv, of va])
      (auto simp: get_userspace_permissions_def xlate_def no_huge_def)
qed

abbreviation (input) "demo_cow \<equiv> \<lparr>phys_addr = 0x90001000, original_perm = ReadWrite, backing = (0x90001000, 1)\<rparr>"

lemma demo_fork:
  assumes k: "map_userspace kpt TRAMPOLINE_VADDR t PAGE_SIZE ReadExecute ''Signal trampoline'' = Some pt"
    and pt: "no_huge pt" "2 \<le> length (boxes pt)" "pt_well_formed pt"
      "\<And>x. in_page VA (low39 x) \<Longrightarrow> xlate pt x = None" "\<not> is_mapped pt (VA, VA + (PAGE_SIZE - 1))"
    and ppt: "no_huge ppt" "pt_well_formed ppt" "xlate ppt VA = Some (0x90001000, Some ReadWrite, True)"
    and s: "s = \<lparr>page_table = ppt, mappings = [(VA, Mmap (0x90001000, 1))], free_mmap_address = f, as_brk = b\<rparr>"
  shows "\<exists>cpt ppt'. clone_address_space t kpt s = Some
      (\<lparr>page_table = cpt, mappings = [(VA, Cow demo_cow)], free_mmap_address = f, as_brk = b\<rparr>,
       \<lparr>page_table = ppt', mappings = [(VA, Cow demo_cow)], free_mmap_address = f, as_brk = b\<rparr>)
    \<and> no_huge cpt \<and> pt_well_formed cpt
    \<and> (\<forall>x. xlate cpt x = (if in_page VA (low39 x) then Some (0x90001000 + (low39 x - VA), Some ReadOnly, True) else xlate pt x))"
proof -
  have r: "run_ok (0x90001000, 1)" by (simp add: run_ok_def PAGE_SIZE_def)
  have va: "PAGE_SIZE dvd VA" "0 < VA" "VA + PAGE_SIZE \<le> 2 ^ 39" by (simp_all add: PAGE_SIZE_def)
  obtain cpt where c: "map_userspace pt VA 0x90001000 PAGE_SIZE ReadOnly ''fork-cow'' = Some cpt" "pt_well_formed cpt" "no_huge cpt"
      "\<forall>x. xlate cpt x = (if in_page VA (low39 x) then Some (0x90001000 + (low39 x - VA), Some ReadOnly, True) else xlate pt x)"
    using map_page_defined[OF pt(3,1,2) va r, of ReadOnly "''fork-cow''"] pt(4,5) by auto
  obtain ppt' where p: "remap_page ppt VA 0x90001000 ReadOnly = Some ppt'"
    using remap_page_defined[OF ppt(2,1) va(1) _ r, of ReadOnly] ppt(3) by auto
  have g: "get_userspace_permissions ppt VA = Some (Some ReadWrite)"
    by (rule get_userspace_permissions_defined[OF ppt(2,1,3)])
  have "fork_mapping (VA, Mmap (0x90001000, 1)) (ppt, pt, [], []) = Some (ppt', cpt, [(VA, demo_cow)], [(VA, demo_cow)])"
    using c(1) p g by (simp add: fork_mapping_def fork_page_def uadd_def Let_def)
  then show ?thesis using k c
    by (simp add: clone_address_space_def fork_address_space_def s set_fork_state_def process_new_def Let_def)
qed

lemma demo_cow_store:
  assumes pt: "no_huge pt" "pt_well_formed pt" "\<And>x. in_page VA (low39 x) \<Longrightarrow> xlate pt x = Some (0x90001000 + (low39 x - VA), Some ReadOnly, True)"
    and s: "s = \<lparr>page_table = pt, mappings = [(VA, Cow demo_cow)], free_mmap_address = f, as_brk = bk\<rparr>"
    and km: "heap_runs km = [(0x90004000, 1)]"
  shows "\<exists>s' km'. user_store s km (VA + 5) b = Some (True, s', km')"
proof -
  have x: "in_page VA (low39 VA)" "in_page VA (low39 (VA + 5))" "page_base (VA + 5) = VA" "VA < 2 ^ 39" "PAGE_SIZE dvd VA"
      "VA + 5 < 2 ^ 39" "in_page VA (VA + 5)"
    by (simp_all add: in_page_def PAGE_SIZE_def page_base_def)
  have u: "user_frame pt VA = Some (0x90001000, ReadOnly)" "user_frame pt (VA + 5) = Some (0x90001005, ReadOnly)"
    using pt(3)[OF x(1)] pt(3)[OF x(2)] by (simp_all add: user_frame_eq)
  have r: "run_ok (0x90004000, 1)" by (simp add: run_ok_def PAGE_SIZE_def)
  obtain pt' where p: "remap_page pt VA 0x90004000 ReadWrite = Some pt'"
    using remap_page_defined[OF pt(2,1) x(5) _ r, of ReadWrite] pt(3)[OF x(1)] by auto
  have "user_frame pt' (VA + 5) = (if in_page VA (VA + 5) then Some (0x90004000 + (VA + 5 - VA), ReadWrite) else user_frame pt (VA + 5))"
    by (rule user_frame_remap(3)[OF pt(2) p _ _ _ u(1) x(4,5,6)]) simp_all
  then have u': "user_frame pt' (VA + 5) = Some (0x90004005, ReadWrite)" using x(7) by simp
  obtain s' km' where h: "handle_store_page_fault s km (VA + 5) = Some (True, s', km')" "page_table s' = pt'"
    using p km x(3) by (auto simp: handle_store_page_fault_def resolve_cow_page_def s pinned_new_def bt_remove_def PAGE_SIZE_def Let_def)
  have "hw_store s km (VA + 5) b = None" using u(2) by (simp add: hw_store_def s)
  moreover obtain k where "hw_store s' km' (VA + 5) b = Some k" using u' h(2) by (simp add: hw_store_def)
  then have "user_store s' km' (VA + 5) b = Some (True, s', k)" by (simp add: user_store.simps[of s'])
  ultimately show ?thesis using h(1) by (simp add: user_store.simps[of s])
qed

lemma demo_tables:
  obtains kpt pt where "kernel_table_ok kpt"
    "map_userspace kpt TRAMPOLINE_VADDR 0x90000000 PAGE_SIZE ReadExecute ''Signal trampoline'' = Some pt"
    "no_huge pt" "2 \<le> length (boxes pt)" "pt_well_formed pt"
    "\<And>x. in_page VA (low39 x) \<Longrightarrow> xlate pt x = None" "\<not> is_mapped pt (VA, VA + (PAGE_SIZE - 1))"
proof -
  obtain h pos where h: "pt_inv h pos" "\<forall>x. xlate h x = None" "already_mapped h = []" "length (boxes h) = 4"
    using pt_pool_ok by blast
  have wf: "pt_well_formed h" using h(1) by (auto simp: pt_well_formed_def)
  have nh: "no_huge h" using h(2) by (auto simp: no_huge_def huge_at_def xlate_def)
  have t: "PAGE_SIZE dvd TRAMPOLINE_VADDR" "0 < TRAMPOLINE_VADDR" "TRAMPOLINE_VADDR + PAGE_SIZE \<le> 2 ^ 39" "run_ok (0x90000000, 1)"
    by (simp_all add: TRAMPOLINE_VADDR_def PAGE_SIZE_def run_ok_def)
  obtain pt where p: "map_userspace h TRAMPOLINE_VADDR 0x90000000 PAGE_SIZE ReadExecute ''Signal trampoline'' = Some pt"
      "pt_well_formed pt" "no_huge pt" "length (boxes h) \<le> length (boxes pt) + 2"
      "\<forall>x. xlate pt x = (if in_page TRAMPOLINE_VADDR (low39 x) then Some (0x90000000 + (low39 x - TRAMPOLINE_VADDR), Some ReadExecute, True) else xlate h x)"
      "already_mapped pt = already_mapped h @ [\<lparr>range_start = TRAMPOLINE_VADDR, range_end = TRAMPOLINE_VADDR + (PAGE_SIZE - 1),
        mapping_name = ''Signal trampoline'', privileges = ReadExecute\<rparr>]"
    using map_page_defined[OF wf nh _ t, of ReadExecute "''Signal trampoline''"] h by (auto simp: is_mapped_def)
  show ?thesis
  proof (rule that[OF _ p(1,3) _ p(2)])
    show "kernel_table_ok h" using wf h(2) by (simp add: kernel_table_ok_def user_frame_def)
    show "2 \<le> length (boxes pt)" using p(4) h(4) by simp
    show "xlate pt x = None" if "in_page VA (low39 x)" for x
      using p(5) h(2) that by (simp add: in_page_def TRAMPOLINE_VADDR_def PAGE_SIZE_def)
    show "\<not> is_mapped pt (VA, VA + (PAGE_SIZE - 1))"
      using p(6) h(3) by (simp add: is_mapped_def mapping_contains_def TRAMPOLINE_VADDR_def PAGE_SIZE_def)
  qed
qed

inductive_cases spec_ops_ConsE: "spec_ops (a # as) V V'"
inductive_cases spec_ops_NilE: "spec_ops [] V V'"

definition demo_cow_space :: "root_page_table_holder \<Rightarrow> address_space" where
  "demo_cow_space pt = \<lparr>page_table = pt, mappings = [(VA, Cow demo_cow)], free_mmap_address = VA + PAGE_SIZE, as_brk = brk_empty\<rparr>"

text \<open>A process maps a page, stores to it, and forks.\<close>

lemma demo_run:
  obtains kpt S cpt ppt km where "sys_inv 0x90000000 S"
    "exec_ops 0x90000000 [Anonymous 1 1 ReadWrite VA, Store 1 (VA + 5) 5, Fork 1 2 kpt] S
      \<lparr>procs = [1 \<mapsto> demo_cow_space ppt, 2 \<mapsto> demo_cow_space cpt], kernel_memory = km\<rparr>"
    "heap_runs km = [(0x90004000, 1)]" "no_huge cpt" "pt_well_formed cpt"
    "\<And>x. in_page VA (low39 x) \<Longrightarrow> xlate cpt x = Some (0x90001000 + (low39 x - VA), Some ReadOnly, True)"
proof -
  obtain kpt pt where k: "kernel_table_ok kpt"
      "map_userspace kpt TRAMPOLINE_VADDR 0x90000000 PAGE_SIZE ReadExecute ''Signal trampoline'' = Some pt"
    and pt: "no_huge pt" "2 \<le> length (boxes pt)" "pt_well_formed pt"
      "\<And>x. in_page VA (low39 x) \<Longrightarrow> xlate pt x = None" "\<not> is_mapped pt (VA, VA + (PAGE_SIZE - 1))"
    by (rule demo_tables) blast
  let ?S = "demo_machine pt" and ?x = "VA + 5"
  obtain ppt where m: "exec_op 0x90000000 (Anonymous 1 1 ReadWrite VA) ?S = Some
      \<lparr>procs = [1 \<mapsto> \<lparr>page_table = ppt, mappings = [(VA, Mmap (0x90001000, 1))], free_mmap_address = VA + PAGE_SIZE, as_brk = brk_empty\<rparr>],
       kernel_memory = \<lparr>ram = (\<lambda>_. 0), heap_runs = [(0x90004000, 1)]\<rparr>\<rparr>" (is "_ = Some ?S1")
      "no_huge ppt" "pt_well_formed ppt" "\<forall>x. xlate ppt x = (if in_page VA (low39 x) then Some (0x90001000 + (low39 x - VA), Some ReadWrite, True) else xlate pt x)"
    using demo_mmap[OF pt(1-5)] by blast
  let ?s1 = "\<lparr>page_table = ppt, mappings = [(VA, Mmap (0x90001000, 1))], free_mmap_address = VA + PAGE_SIZE, as_brk = brk_empty\<rparr>"
  let ?km = "(kernel_memory ?S1)\<lparr>ram := (\<lambda>_. 0)(0x90001005 := 5)\<rparr>"
  let ?S2 = "?S1\<lparr>procs := (procs ?S1)(1 \<mapsto> ?s1), kernel_memory := ?km\<rparr>"
  have x: "in_page VA (low39 VA)" "in_page VA (low39 ?x)" by (simp_all add: in_page_def PAGE_SIZE_def)
  have "user_frame ppt ?x = Some (0x90001005, ReadWrite)" using m(4) x(2) by (simp add: user_frame_eq)
  then have "user_store ?s1 (kernel_memory ?S1) ?x 5 = Some (True, ?s1, ?km)"
    by (subst user_store.simps) (simp add: hw_store_def)
  then have e2: "exec_op 0x90000000 (Store 1 ?x 5) ?S1 = Some ?S2" by simp
  have xv: "xlate ppt VA = Some (0x90001000, Some ReadWrite, True)" using m(4) x(1) by simp
  obtain cpt ppt' where f: "clone_address_space 0x90000000 kpt ?s1 = Some (demo_cow_space cpt, demo_cow_space ppt')"
      "no_huge cpt" "pt_well_formed cpt" "\<forall>x. xlate cpt x = (if in_page VA (low39 x) then Some (0x90001000 + (low39 x - VA), Some ReadOnly, True) else xlate pt x)"
    using demo_fork[OF k(2) pt m(2,3) xv refl, of "VA + PAGE_SIZE" brk_empty] unfolding demo_cow_space_def by blast
  let ?S3 = "\<lparr>procs = [1 \<mapsto> demo_cow_space ppt', 2 \<mapsto> demo_cow_space cpt], kernel_memory = ?km\<rparr>"
  have e3: "exec_op 0x90000000 (Fork 1 2 kpt) ?S2 = Some ?S3" using f(1) by simp
  have al: "op_allowed (Anonymous 1 1 ReadWrite VA) ?S" "op_allowed (Store 1 ?x 5) ?S1" "op_allowed (Fork 1 2 kpt) ?S2"
    using k(1) by (simp_all add: demo_machine_def process_new_def FREE_MMAP_START_ADDRESS_def PAGE_SIZE_def)
  have run: "exec_ops 0x90000000 [Anonymous 1 1 ReadWrite VA, Store 1 ?x 5, Fork 1 2 kpt] ?S ?S3"
    by (rule exec_ops.Step[OF al(1) m(1) exec_ops.Step[OF al(2) e2 exec_ops.Step[OF al(3) e3 exec_ops.Done]]])
  show ?thesis by (rule that[OF demo_machine_ok[OF k] run _ f(2,3)]) (use f(4) in auto)
qed

theorem cow_refines_private_memory_witness:
  "\<exists>S kpt S' f g. sys_inv 0x90000000 S \<and> exec_ops 0x90000000
      [Anonymous 1 1 ReadWrite 0x2000000000, Store 1 0x2000000005 5, Fork 1 2 kpt, Store 2 0x2000000005 7] S S'
    \<and> views S' 1 = Some f \<and> f 0x2000000005 = Some (5, ReadWrite) \<and> views S' 2 = Some g \<and> g 0x2000000005 = Some (7, ReadWrite)"
proof -
  obtain kpt S cpt ppt km where d: "sys_inv 0x90000000 S"
    "exec_ops 0x90000000 [Anonymous 1 1 ReadWrite VA, Store 1 (VA + 5) 5, Fork 1 2 kpt] S
      \<lparr>procs = [1 \<mapsto> demo_cow_space ppt, 2 \<mapsto> demo_cow_space cpt], kernel_memory = km\<rparr>" (is "exec_ops _ _ _ ?S3")
    "heap_runs km = [(0x90004000, 1)]" "no_huge cpt" "pt_well_formed cpt"
    "\<And>x. in_page VA (low39 x) \<Longrightarrow> xlate cpt x = Some (0x90001000 + (low39 x - VA), Some ReadOnly, True)"
    by (rule demo_run) blast
  obtain c' km' where st: "user_store (demo_cow_space cpt) km (VA + 5) 7 = Some (True, c', km')"
    using demo_cow_store[OF d(4,5) d(6) refl d(3), of "VA + PAGE_SIZE" brk_empty 7] unfolding demo_cow_space_def by blast
  let ?S4 = "?S3\<lparr>procs := (procs ?S3)(2 \<mapsto> c'), kernel_memory := km'\<rparr>"
  have "exec_ops 0x90000000 [Store 2 (VA + 5) 7] ?S3 ?S4"
    using st by (intro exec_ops.Step[OF _ _ exec_ops.Done]) simp_all
  from exec_ops_append[OF d(2) this]
  have run: "exec_ops 0x90000000 [Anonymous 1 1 ReadWrite VA, Store 1 (VA + 5) 5, Fork 1 2 kpt, Store 2 (VA + 5) 7] S ?S4" by simp
  have "run_ok (0x90000000, 1)" by (simp add: run_ok_def PAGE_SIZE_def)
  from cow_refines_private_memory[OF d(1) this run]
  have "spec_ops [Anonymous 1 1 ReadWrite VA, Store 1 (VA + 5) 5, Fork 1 2 kpt, Store 2 (VA + 5) 7] (views S) (views ?S4)" by blast
  then have "\<exists>f g. views ?S4 1 = Some f \<and> f (VA + 5) = Some (5, ReadWrite) \<and> views ?S4 2 = Some g \<and> g (VA + 5) = Some (7, ReadWrite)"
    by (elim spec_ops_ConsE spec_ops_NilE) (auto simp: in_page_def PAGE_SIZE_def)
  then show ?thesis using run d(1) by (intro exI[of _ S] exI[of _ kpt] exI[of _ ?S4]) auto
qed

section \<open>Where the illusion breaks\<close>

lemma mprotect_page_ok:
  assumes wf: "pt_well_formed pt" and run: "mprotect pt va PAGE_SIZE m = Some pt'" and m: "m \<noteq> PointerToNextLevel"
    and u: "user_frame pt va = Some (pa, m0)"
  shows "user_frame pt' va = Some (pa, m)"
proof -
  obtain pos where inv: "pt_inv pt pos" using wf by (auto simp: pt_well_formed_def)
  have va: "PAGE_SIZE dvd va" using run by (auto simp: mprotect_def run_simps va_page_aligned_iff)
  obtain h where h: "mprotect_loop pt va PAGE_SIZE m 0 = Some h" "xlate pt' = xlate h"
    using run by (auto simp: mprotect_def run_simps fun_eq_iff)
  then obtain h' where h': "update_leaf pt va (set_xwr_mode m) = Some h'" "mprotect_loop h' va PAGE_SIZE m PAGE_SIZE = Some h"
    by (subst (asm) mprotect_loop.simps) (auto simp: run_simps PAGE_SIZE_def)
  have "h = h'" using h'(2) by (subst (asm) mprotect_loop.simps) simp
  obtain t e0 e1 where t: "walk_to_table pt va = Some (Some t)" "get_entry pt t va 0 = Some e0"
      "set_xwr_mode m e0 = Some e1" "put_entry pt t va 0 e1 = Some h'"
    using h'(1) by (auto simp: update_leaf_def run_simps split: option.splits)
  have f: "pte_valid e1 = pte_valid e0" "pte_user e1 = pte_user e0" "pte_addr e1 = pte_addr e0" "get_xwr_mode e1 = Some m"
    using set_xwr_mode_spec[of m e0] t(3) by auto
  obtain w: "hw_walk (tables pt) 2 (root_table pt) va = Some (0, e0)" and ve: "pte_valid e0" "pte_addr e0 \<noteq> 0"
    using t(1,2) by (cases rule: hw_walk_cases[OF inv, of va]) (auto simp: get_entry_eq entry_ok_def)
  have ok: "entry_ok pos (vpath va 0) (vidx va 0) e1"
    using f ve m pte_leaf_iff[OF f(4)] by (simp add: entry_ok_def)
  from put_page_ok[OF inv va t(1) ok] t(4)
  have "hw_walk (tables h') 2 (root_table h') va = Some (0, e1)" using f(1) ve(1) by (auto simp: PAGE_SIZE_def)
  then show ?thesis using w u f h(2) \<open>h = h'\<close> by (auto simp: user_frame_eq xlate_def)
qed

text \<open>
  C37: \<^verbatim>\<open>mprotect\<close> breaks the isolation of forked processes.  When one of two processes that share a
  copy-on-write frame asks for read and write access to its page, the page table entry is made writable
  without copying the frame, so its next store does not fault and appears in the memory of the other.
\<close>

theorem mprotect_breaks_isolation:
  assumes "as_ok tramp s" "as_ok tramp t"
    and "bt_get (mappings s) va = Some (Cow c)" "bt_get (mappings t) va' = Some (Cow d)" "phys_addr d = phys_addr c"
    and "do_mprotect kp s va PAGE_SIZE prot = Some (Inr (), s')" "from_prot kp (word_of_int prot) = Inr ReadWrite"
  shows "\<exists>km'. user_store s' km va b = Some (True, s', km') \<and> view t (ram km') va' = Some (b, original_perm d)"
proof -
  have pg: "in_run v (snd (pages_of (Cow e))) v" for v e by (simp add: in_page_def PAGE_SIZE_def)
  obtain m0 where s: "user_frame (page_table s) va = Some (phys_addr c, m0)"
    using as_ok_frame[OF assms(1,3) pg] by auto
  obtain m1 where t: "user_frame (page_table t) va' = Some (phys_addr c, m1)" "va' < 2 ^ 39"
    using as_ok_frame[OF assms(2,4) pg] assms(5) by auto
  obtain pt where r: "mprotect (page_table s) va PAGE_SIZE ReadWrite = Some pt" "s' = s\<lparr>page_table := pt\<rparr>"
    using assms(6,7) by (auto simp: do_mprotect_def next_multiple_of_def run_simps PAGE_SIZE_def split: if_splits)
  have "user_frame pt va = Some (phys_addr c, ReadWrite)"
    by (rule mprotect_page_ok[OF as_okD(1)[OF assms(1)] r(1) _ s]) simp
  then have h: "hw_store s' km va b = Some (km\<lparr>ram := (ram km)(phys_addr c := b)\<rparr>)" by (simp add: hw_store_def r(2))
  then have "user_store s' km va b = Some (True, s', km\<lparr>ram := (ram km)(phys_addr c := b)\<rparr>)"
    by (subst user_store.simps) simp
  moreover have "page_base va' = va'"
    using in_page_base[of va' va'] as_okD(3)[OF assms(2,4)] by (simp add: entry_wf_def in_page_def PAGE_SIZE_def)
  then have "view t ((ram km)(phys_addr c := b)) va' = Some (b, original_perm d)"
    using t assms(4) by (simp add: view_def logical_perm_def)
  ultimately show ?thesis by (intro exI) auto
qed

lemma mprotect_page_defined:
  assumes wf: "pt_well_formed pt" "no_huge pt" "PAGE_SIZE dvd va" "va < 2 ^ 39" "xlate pt va \<noteq> None"
    and m: "m \<noteq> PointerToNextLevel"
  shows "\<exists>pt'. mprotect pt va PAGE_SIZE m = Some pt'"
proof -
  obtain pos where inv: "pt_inv pt pos" using wf(1) by (auto simp: pt_well_formed_def)
  obtain t where t: "walk_to_table pt va = Some (Some t)"
    using walk_to_table_page[OF inv wf(5)] wf(2) by (auto simp: no_huge_def)
  obtain e0 where e0: "get_entry pt t va 0 = Some e0" "pte_valid e0" "pte_addr e0 \<noteq> 0"
    using t by (cases rule: hw_walk_cases[OF inv, of va]) (auto simp: get_entry_eq entry_ok_def)
  obtain e1 where e1: "set_xwr_mode m e0 = Some e1" "pte_valid e1 = pte_valid e0" "pte_addr e1 = pte_addr e0" "get_xwr_mode e1 = Some m"
    using set_xwr_mode_spec[of m e0] by metis
  have ok: "entry_ok pos (vpath va 0) (vidx va 0) e1"
    using e1 e0(2,3) m pte_leaf_iff[OF e1(4)] by (simp add: entry_ok_def)
  from put_page_ok[OF inv wf(3) t ok] obtain h where h: "put_entry pt t va 0 e1 = Some h" by blast
  have "update_leaf pt va (set_xwr_mode m) = Some h" using t e0(1) e1(1) h by (simp add: update_leaf_def)
  then have "mprotect_loop pt va PAGE_SIZE m 0 = mprotect_loop h va PAGE_SIZE m PAGE_SIZE"
    using wf(4) by (subst mprotect_loop.simps) (simp add: uadd_def PAGE_SIZE_def)
  also have "\<dots> = Some h" by (subst mprotect_loop.simps) simp
  finally show ?thesis using wf(3) by (simp add: mprotect_def va_page_aligned_iff PAGE_SIZE_def)
qed

definition linux_prot :: prot_consts where
  "linux_prot = \<lparr>PROT_NONE = 0, PROT_READ = 1, PROT_WRITE = 2, PROT_EXEC = 4\<rparr>"

theorem mprotect_breaks_isolation_witness:
  "\<exists>s t s' km'. bt_get (mappings s) 0x2000000000 = Some (Cow demo_cow) \<and> bt_get (mappings t) 0x2000000000 = Some (Cow demo_cow)
    \<and> do_mprotect linux_prot s 0x2000000000 PAGE_SIZE 3 = Some (Inr (), s')
    \<and> user_store s' \<lparr>ram = (\<lambda>_. 0), heap_runs = []\<rparr> 0x2000000000 7 = Some (True, s', km') \<and> view t (ram km') 0x2000000000 = Some (7, ReadWrite)"
proof -
  obtain kpt S cpt ppt km where d: "sys_inv 0x90000000 S"
    "exec_ops 0x90000000 [Anonymous 1 1 ReadWrite VA, Store 1 (VA + 5) 5, Fork 1 2 kpt] S
      \<lparr>procs = [1 \<mapsto> demo_cow_space ppt, 2 \<mapsto> demo_cow_space cpt], kernel_memory = km\<rparr>" (is "exec_ops _ _ _ ?S3")
    "heap_runs km = [(0x90004000, 1)]" "no_huge cpt" "pt_well_formed cpt"
    "\<And>x. in_page VA (low39 x) \<Longrightarrow> xlate cpt x = Some (0x90001000 + (low39 x - VA), Some ReadOnly, True)"
    by (rule demo_run) blast
  have r: "run_ok (0x90000000, 1)" by (simp add: run_ok_def PAGE_SIZE_def)
  have i: "sys_inv 0x90000000 ?S3" using exec_ops_refines[OF d(2) r d(1)] by blast
  have ok: "as_ok 0x90000000 (demo_cow_space cpt)" "as_ok 0x90000000 (demo_cow_space ppt)"
    using sys_invD(1)[OF i, of 2] sys_invD(1)[OF i, of 1] by simp_all
  have g: "bt_get (mappings (demo_cow_space pt)) VA = Some (Cow demo_cow)" for pt by (simp add: demo_cow_space_def)
  have fp: "from_prot linux_prot (word_of_int 3) = Inr ReadWrite" by (simp add: from_prot_def linux_prot_def)
  have va: "PAGE_SIZE dvd VA" "VA < 2 ^ 39" "xlate cpt VA \<noteq> None" using d(6)[of VA] by (simp_all add: PAGE_SIZE_def in_page_def)
  obtain pt where "mprotect cpt VA PAGE_SIZE ReadWrite = Some pt"
    using mprotect_page_defined[OF d(5,4) va, of ReadWrite] by auto
  then have mp: "do_mprotect linux_prot (demo_cow_space cpt) VA PAGE_SIZE 3 = Some (Inr (), (demo_cow_space cpt)\<lparr>page_table := pt\<rparr>)"
    using fp by (simp add: do_mprotect_def next_multiple_of_def demo_cow_space_def PAGE_SIZE_def)
  from mprotect_breaks_isolation[OF ok g g _ mp fp, of "\<lparr>ram = (\<lambda>_. 0), heap_runs = []\<rparr>" 7]
  show ?thesis using g mp by fastforce
qed

lemma ensure_cow_nothing:
  assumes "\<And>v. \<not> is_writable_cow s v" "ensure_cow_resolved_for_write s km x len = Some (s', km')"
  shows "s' = s" "km' = km"
proof -
  have "foldM (\<lambda>i (self, km). let va = b + i * PAGE_SIZE in
          if is_writable_cow self va then do { (_, self, km) \<leftarrow> resolve_cow_page self km va; Some (self, km) }
          else Some (self, km)) is (s, km) = Some (s, km)" for b "is"
    using assms(1) by (induction "is") (simp_all add: Let_def)
  then show "s' = s" "km' = km"
    using assms(2) by (auto simp: ensure_cow_resolved_for_write_def Let_def run_simps split: if_splits)
qed


definition demo_pool :: "64 word list" where
  "demo_pool = pt_pool @ [0x80005000, 0x80006000]"

lemma demo_two_pages:
  obtains pt where "pt_well_formed pt" "no_huge pt"
    "\<And>x. in_page 0x10000 x \<Longrightarrow> xlate pt x = Some (0x90000000 + (x - 0x10000), Some ReadWrite, True)"
    "\<And>x. in_page 0x11000 x \<Longrightarrow> xlate pt x = Some (0x90005000 + (x - 0x11000), Some ReadWrite, True)"
proof -
  have "\<forall>u\<in>set demo_pool. table_addr_ok u" by (simp add: demo_pool_def pt_pool_def table_addr_ok_def is_page_aligned_def)
  then obtain h where h: "pt_well_formed h" "\<forall>x. xlate h x = None" "already_mapped h = []" "length (boxes h) = 6"
    using holder_empty_ok[of "hd demo_pool" "tl demo_pool"] by (fastforce simp: demo_pool_def pt_pool_def pt_well_formed_def)
  have nh: "no_huge h" using h(2) by (auto simp: no_huge_def huge_at_def xlate_def)
  have a: "PAGE_SIZE dvd 0x10000" "(0::nat) < 0x10000" "0x10000 + PAGE_SIZE \<le> 2 ^ 39" "run_ok (0x90000000, 1)"
      "PAGE_SIZE dvd 0x11000" "(0::nat) < 0x11000" "0x11000 + PAGE_SIZE \<le> 2 ^ 39" "run_ok (0x90005000, 1)"
    by (simp_all add: PAGE_SIZE_def run_ok_def)
  obtain p where p: "pt_well_formed p" "no_huge p" "length (boxes h) \<le> length (boxes p) + 2"
      "\<forall>x. xlate p x = (if in_page 0x10000 (low39 x) then Some (0x90000000 + (low39 x - 0x10000), Some ReadWrite, True) else xlate h x)"
      "already_mapped p = already_mapped h @ [\<lparr>range_start = 0x10000, range_end = 0x10000 + (PAGE_SIZE - 1), mapping_name = ''a'', privileges = ReadWrite\<rparr>]"
    using map_page_defined[OF h(1) nh _ a(1-4), of ReadWrite "''a''"] h by (auto simp: is_mapped_def)
  have nm: "\<not> is_mapped p (0x11000, 0x11000 + (PAGE_SIZE - 1))"
    using p(5) h(3) by (simp add: is_mapped_def mapping_contains_def PAGE_SIZE_def)
  have nx: "xlate p x = None" if "in_page 0x11000 (low39 x)" for x
    using p(4) h(2) that by (simp add: in_page_def PAGE_SIZE_def)
  obtain q where q: "pt_well_formed q" "no_huge q"
      "\<forall>x. xlate q x = (if in_page 0x11000 (low39 x) then Some (0x90005000 + (low39 x - 0x11000), Some ReadWrite, True) else xlate p x)"
    using map_page_defined[OF p(1,2) _ a(5-8) _ nm nx, of ReadWrite "''b''"] p(3) h(4) by auto
  show ?thesis
    by (rule that[OF q(1,2)]) (use q(3) p(4) in \<open>auto simp: in_page_def PAGE_SIZE_def\<close>)
qed


end
