(* ===== verification/Signals.thy ===== *)
theory Signals
  imports Threads CopyOnWrite Parser
begin

text \<open>
  Signal delivery: \<^verbatim>\<open>processes/signal.rs\<close> and the system calls of \<^verbatim>\<open>syscalls/signal_ops.rs\<close>.

  A thread is passed with the memory of the machine, in which its process is an address space.
\<close>

section \<open>User memory of a process\<close>

definition user_write :: "nat \<Rightarrow> usize \<Rightarrow> byte list \<Rightarrow> machine \<Rightarrow> ((errno + unit) \<times> machine) run" where
  "user_write p ptr data S = do {
     s \<leftarrow> procs S p;
     (r, s, km) \<leftarrow> write_userspace_slice s (kernel_memory S) ptr data;
     Some (r, S\<lparr>procs := (procs S)(p \<mapsto> s), kernel_memory := km\<rparr>)
   }"

definition user_read :: "nat \<Rightarrow> usize \<Rightarrow> nat \<Rightarrow> machine \<Rightarrow> (errno + byte list) run" where
  "user_read p ptr len S = do { s \<leftarrow> procs S p; read_userspace_slice s (kernel_memory S) ptr len }"

section \<open>Signal frames\<close>

record signal_frame =
  saved_regs :: "64 word list"
  saved_fregs :: "64 word list"
  saved_pc :: "64 word"
  saved_sigmask :: "64 word"

definition SIGNAL_FRAME_SIZE :: nat where "SIGNAL_FRAME_SIZE = (32 + 32 + 1 + 1) * 8"

definition frame_as_slice :: "signal_frame \<Rightarrow> byte list" where
  "frame_as_slice f = concat (map (\<lambda>w. to_le 8 (unat w)) (saved_regs f @ saved_fregs f @ [saved_pc f, saved_sigmask f]))"

definition frame_read_from_bytes :: "byte list \<Rightarrow> signal_frame" where
  "frame_read_from_bytes bs =
     (let w = (\<lambda>i. word_of_nat (le_bytes (take 8 (drop (8 * i) bs))))
      in \<lparr>saved_regs = map w [0..<32], saved_fregs = map w [32..<64], saved_pc = w 64, saved_sigmask = w 65\<rparr>)"

datatype signal_delivery = DeliverContinue | DeliverTerminate exit_status | DeliverStop nat

definition setup_signal_frame ::
    "signal_consts \<Rightarrow> nat \<Rightarrow> 64 word \<Rightarrow> sigaction \<Rightarrow> 'task thread \<Rightarrow> machine \<Rightarrow> (bool \<times> 'task thread \<times> machine) run" where
  "setup_signal_frame C sig handler action t S = do {
     let regs = register_state t;
     let mask = sigmask (signals t);
     let frame = \<lparr>saved_regs = gp_registers regs, saved_fregs = fp_registers regs,
                  saved_pc = program_counter t, saved_sigmask = mask\<rparr>;
     user_sp \<leftarrow> get_reg reg_sp regs;
     below \<leftarrow> usub (unat user_sp) SIGNAL_FRAME_SIZE;
     let frame_sp = word_of_nat below AND NOT 0xF;
     (r, S) \<leftarrow> user_write (process t) (unat frame_sp) (frame_as_slice frame) S;
     case r of
       Inl _ \<Rightarrow> Some (False, t, S)
     | Inr _ \<Rightarrow> do {
         regs \<leftarrow> set_reg reg_sp frame_sp regs;
         regs \<leftarrow> set_reg reg_a0 (word_of_nat sig) regs;
         regs \<leftarrow> set_reg reg_ra (word_of_nat TRAMPOLINE_VADDR) regs;
         let t = t\<lparr>register_state := regs, program_counter := handler\<rparr>;
         sig_bit \<leftarrow> shl 1 sig;
         let new_mask = mask OR sa_mask action;
         let new_mask = (if sa_flags action AND SA_NODEFER C = 0 then new_mask OR sig_bit else new_mask);
         let t = set_sigmask_raw new_mask t;
         t \<leftarrow> (if sa_flags action AND SA_RESETHAND C \<noteq> 0
               then do { (_, t) \<leftarrow> set_sigaction C sig sigaction_default t; Some t } else Some t);
         Some (True, t, S)
       }
   }"

definition restore_signal_frame :: "'task thread \<Rightarrow> machine \<Rightarrow> ((errno + unit) \<times> 'task thread) run" where
  "restore_signal_frame t S = do {
     sp \<leftarrow> get_reg reg_sp (register_state t);
     r \<leftarrow> user_read (process t) (unat sp) SIGNAL_FRAME_SIZE S;
     case r of
       Inl e \<Rightarrow> Some (Inl e, t)
     | Inr bytes \<Rightarrow> do {
         check (length bytes = SIGNAL_FRAME_SIZE);
         let frame = frame_read_from_bytes bytes;
         let t = t\<lparr>register_state := \<lparr>gp_registers = saved_regs frame, fp_registers = saved_fregs frame\<rparr>,
                   program_counter := saved_pc frame\<rparr>;
         Some (Inr (), set_sigmask_raw (saved_sigmask frame) t)
       }
   }"

section \<open>Delivery\<close>

text \<open>
  The loop takes pending signals until one of them is handled.  When a frame cannot be written it raises
  SIGSEGV, so the number of pending signals may stay the same; each iteration decreases their weight, in
  which SIGSEGV counts for half.
\<close>

definition weight :: "nat \<Rightarrow> pending_signals \<Rightarrow> nat" where
  "weight segv p = 2 * card {n. bit p n \<and> n \<noteq> segv} + (if bit p segv then 1 else 0)"

lemma finite_bits [simp]: "finite {n. bit (p :: 64 word) n \<and> P n}"
  by (rule finite_subset[of _ "{..<64}"]) (auto dest: bit_imp_le_length)

lemma weight_clear:
  assumes "bit p sig" shows "weight segv (p AND NOT (push_bit sig 1)) + (if sig = segv then 1 else 2) \<le> weight segv p"
proof -
  have b: "bit (p AND NOT (push_bit sig 1)) n \<longleftrightarrow> bit p n \<and> n \<noteq> sig" for n
    using bit_imp_le_length[of p] by (auto simp: bit_simps)
  show ?thesis
  proof (cases "sig = segv")
    case True
    then have "{n. (bit p n \<and> n \<noteq> sig) \<and> n \<noteq> segv} = {n. bit p n \<and> n \<noteq> segv}" by auto
    then show ?thesis using True assms unfolding weight_def b by simp
  next
    case False
    have "{n. bit p n \<and> n \<noteq> segv} = insert sig {n. (bit p n \<and> n \<noteq> sig) \<and> n \<noteq> segv}" using assms False by auto
    moreover have "finite {n. (bit p n \<and> n \<noteq> sig) \<and> n \<noteq> segv}"
      by (rule finite_subset[OF _ finite_bits[of p "\<lambda>n. n \<noteq> segv"]]) auto
    ultimately have "card {n. bit p n \<and> n \<noteq> segv} = Suc (card {n. (bit p n \<and> n \<noteq> sig) \<and> n \<noteq> segv})" by simp
    then show ?thesis using False unfolding weight_def b by simp
  qed
qed

lemma weight_mono:
  assumes "\<And>n. bit p n \<Longrightarrow> bit q n \<or> n = segv" shows "weight segv p \<le> weight segv q + 1"
proof -
  have "card {n. bit p n \<and> n \<noteq> segv} \<le> card {n. bit q n \<and> n \<noteq> segv}"
    by (rule card_mono) (use assms in auto)
  then show ?thesis by (simp add: weight_def)
qed

lemma setup_signal_frame_False:
  assumes "setup_signal_frame C sig f a t S = Some (False, t', S')" shows "t' = t"
  using assms
  by (auto simp: setup_signal_frame_def Let_def run_simps sum.case_eq_if split: if_splits)

function deliver_signal :: "signal_consts \<Rightarrow> 'task thread \<Rightarrow> machine \<Rightarrow> (signal_delivery \<times> 'task thread \<times> machine) run" where
  "deliver_signal C t S = (case take_next_pending_signal t of
       None \<Rightarrow> None
     | Some (None, t) \<Rightarrow> Some (DeliverContinue, t, S)
     | Some (Some sig, t) \<Rightarrow> (case get_sigaction_raw sig t of
         None \<Rightarrow> None
       | Some action \<Rightarrow> (case sa_handler action of
           None \<Rightarrow> (case default_action C sig of
               Terminate \<Rightarrow> do { check (sig < 2 ^ 8); Some (DeliverTerminate (Signaled (word_of_nat sig)), t, S) }
             | Stop \<Rightarrow> Some (DeliverStop sig, t, S)
             | _ \<Rightarrow> deliver_signal C t S)
         | Some f \<Rightarrow>
             if f = 1 then deliver_signal C t S
             else (case setup_signal_frame C sig f action t S of
                 None \<Rightarrow> None
               | Some (True, t, S) \<Rightarrow> Some (DeliverContinue, t, S)
               | Some (False, t, S) \<Rightarrow>
                   if sig = signo C SIGSEGV then do {
                     check (sig < 2 ^ 8); Some (DeliverTerminate (Signaled (word_of_nat sig)), t, S) }
                   else (case raise_signal C (signo C SIGSEGV) t of
                       None \<Rightarrow> None | Some t \<Rightarrow> deliver_signal C t S)))))"
  by pat_completeness auto

lemma take_next_weight:
  assumes "take_next_pending_signal t = Some (Some sig, t')"
  shows "weight segv (pending (signals t')) + (if sig = segv then 1 else 2) \<le> weight segv (pending (signals t))"
  using take_next_pending_signal_Some[OF assms] weight_clear[of "pending (signals t)" sig segv] by auto

lemma raise_weight:
  assumes "raise_signal C segv t = Some t'"
  shows "weight segv (pending (signals t')) \<le> weight segv (pending (signals t)) + 1"
proof -
  obtain p where "t' = set_pending p t" "\<And>n. bit p n \<Longrightarrow> bit (pending (signals t)) n \<or> n = segv"
    using raise_signal_pending[OF assms] by metis
  then show ?thesis using weight_mono[of p "pending (signals t)" segv] by simp
qed

lemma deliver_retry_weight:
  assumes "take_next_pending_signal t = Some (Some sig, t1)" "sig \<noteq> segv" "raise_signal C segv t1 = Some t2"
  shows "weight segv (pending (signals t2)) < weight segv (pending (signals t))"
  using take_next_weight[OF assms(1), of segv] raise_weight[OF assms(3)] assms(2) by simp

lemma deliver_next_weight:
  assumes "take_next_pending_signal t = Some (Some sig, t1)"
  shows "weight segv (pending (signals t1)) < weight segv (pending (signals t))"
  using take_next_weight[OF assms, of segv] by (auto split: if_splits)

termination deliver_signal
  by (relation "measure (\<lambda>(C, t, _). weight (signo C SIGSEGV) (pending (signals t)))")
    (auto intro: deliver_next_weight deliver_retry_weight dest: setup_signal_frame_False)

declare deliver_signal.simps [simp del]

section \<open>What delivery changes\<close>

definition same_schedule :: "'task thread \<Rightarrow> 'task thread \<Rightarrow> bool" where
  "same_schedule t u \<longleftrightarrow> tid u = tid t \<and> parent_tid u = parent_tid t \<and> state u = state t \<and> process u = process t
     \<and> syscall_task u = syscall_task t \<and> wakeup_pending u = wakeup_pending t \<and> in_kernel_mode u = in_kernel_mode t
     \<and> clear_child_tid u = clear_child_tid t"

lemma same_schedule_refl [simp]: "same_schedule t t"
  by (simp add: same_schedule_def)

lemma same_schedule_trans: "same_schedule t u \<Longrightarrow> same_schedule u v \<Longrightarrow> same_schedule t v"
  by (simp add: same_schedule_def)

lemma same_schedule_pending [simp]: "same_schedule t (set_pending p t)"
  by (simp add: same_schedule_def)

lemma setup_signal_frame_True:
  assumes "setup_signal_frame C sig f a t S = Some (True, t', S')"
  obtains sp m acts regs where "get_reg reg_sp (register_state t) = Some sp" "SIGNAL_FRAME_SIZE \<le> unat sp"
    "user_write (process t) (unat (word_of_nat (unat sp - SIGNAL_FRAME_SIZE) AND NOT 0xF :: 64 word))
       (frame_as_slice \<lparr>saved_regs = gp_registers (register_state t), saved_fregs = fp_registers (register_state t),
          saved_pc = program_counter t, saved_sigmask = sigmask (signals t)\<rparr>) S = Some (Inr (), S')"
    "t' = t\<lparr>register_state := regs, program_counter := f,
            signals := (signals t)\<lparr>sigmask := m, sigactions := acts\<rparr>\<rparr>"
    "regs = (register_state t)\<lparr>gp_registers := (gp_registers (register_state t))
       [reg_sp := word_of_nat (unat sp - SIGNAL_FRAME_SIZE) AND NOT 0xF, reg_a0 := word_of_nat sig,
        reg_ra := word_of_nat TRAMPOLINE_VADDR]\<rparr>"
    "m = (let n = sigmask (signals t) OR sa_mask a in if sa_flags a AND SA_NODEFER C = 0 then n OR push_bit sig 1 else n)"
    "length acts = length (sigactions (signals t))"
proof -
  obtain sp where sp: "get_reg reg_sp (register_state t) = Some sp" "SIGNAL_FRAME_SIZE \<le> unat sp"
    using assms by (auto simp: setup_signal_frame_def Let_def run_simps)
  let ?frame = "\<lparr>saved_regs = gp_registers (register_state t), saved_fregs = fp_registers (register_state t),
      saved_pc = program_counter t, saved_sigmask = sigmask (signals t)\<rparr>"
  let ?sp = "word_of_nat (unat sp - SIGNAL_FRAME_SIZE) AND NOT 0xF :: 64 word"
  obtain r S1 where w: "user_write (process t) (unat ?sp) (frame_as_slice ?frame) S = Some (r, S1)"
    using assms sp by (auto simp: setup_signal_frame_def Let_def run_simps)
  then have r: "r = Inr ()" using assms sp by (cases r) (auto simp: setup_signal_frame_def Let_def run_simps)
  show ?thesis
  proof (cases "sa_flags a AND SA_RESETHAND C = 0")
    case True
    show ?thesis using assms True sp w r
      by (intro that[OF sp, where acts = "sigactions (signals t)"])
        (auto simp: setup_signal_frame_def Let_def run_simps set_reg_def shl_def set_sigmask_raw_def split: if_splits)
  next
    case False
    show ?thesis
    proof (cases "NSIG C \<le> sig")
      case True
      then show ?thesis using assms False sp w r
        by (intro that[OF sp, where acts = "sigactions (signals t)"])
          (auto simp: setup_signal_frame_def Let_def run_simps set_reg_def shl_def set_sigmask_raw_def set_sigaction_def split: if_splits)
    next
      case ns: False
      then show ?thesis using assms False sp w r
        by (intro that[OF sp, where acts = "(sigactions (signals t))[sig := sigaction_default]"])
          (auto simp: setup_signal_frame_def Let_def run_simps set_reg_def shl_def set_sigmask_raw_def set_sigaction_def split: if_splits)
    qed
  qed
qed

lemma setup_signal_frame_schedule:
  assumes "setup_signal_frame C sig f a t S = Some (b, t', S')" shows "same_schedule t t'"
proof (cases b)
  case True
  then have "setup_signal_frame C sig f a t S = Some (True, t', S')" using assms by simp
  then show ?thesis by (rule setup_signal_frame_True) (simp add: same_schedule_def)
next
  case False
  then show ?thesis using setup_signal_frame_False[of C sig f a t S t' S'] assms by simp
qed

lemma take_next_schedule:
  assumes "take_next_pending_signal t = Some (s, t')" shows "same_schedule t t'"
  using assms by (auto simp: take_next_pending_signal_def run_simps split: option.splits)

lemma raise_signal_schedule: "raise_signal C sig t = Some t' \<Longrightarrow> same_schedule t t'"
  by (auto elim!: raise_signal_pending)

text \<open>The ways an iteration of the loop can go.\<close>

lemma deliver_signal_cases:
  assumes "deliver_signal C t S = Some (r, t', S')"
  obtains (idle) "take_next_pending_signal t = Some (None, t')" "r = DeliverContinue" "S' = S"
  | (terminate) sig where "take_next_pending_signal t = Some (Some sig, t')" "S' = S"
      "r = DeliverTerminate (Signaled (word_of_nat sig))" "default_action C sig = Terminate"
  | (stop) sig where "take_next_pending_signal t = Some (Some sig, t')" "S' = S" "r = DeliverStop sig" "default_action C sig = Stop"
  | (ignored) sig t1 where "take_next_pending_signal t = Some (Some sig, t1)" "deliver_signal C t1 S = Some (r, t', S')"
  | (handler) sig t1 f a where "take_next_pending_signal t = Some (Some sig, t1)" "r = DeliverContinue"
      "get_sigaction_raw sig t1 = Some a" "sa_handler a = Some f" "setup_signal_frame C sig f a t1 S = Some (True, t', S')"
  | (segv) f a where "take_next_pending_signal t = Some (Some (signo C SIGSEGV), t')"
      "r = DeliverTerminate (Signaled (word_of_nat (signo C SIGSEGV)))"
      "setup_signal_frame C (signo C SIGSEGV) f a t' S = Some (False, t', S')"
  | (retry) sig t1 f a S1 t2 where "take_next_pending_signal t = Some (Some sig, t1)" "sig \<noteq> signo C SIGSEGV"
      "setup_signal_frame C sig f a t1 S = Some (False, t1, S1)" "raise_signal C (signo C SIGSEGV) t1 = Some t2"
      "deliver_signal C t2 S1 = Some (r, t', S')"
proof -
  obtain s t1 where t1: "take_next_pending_signal t = Some (s, t1)"
    using assms by (subst (asm) deliver_signal.simps) (auto split: option.splits)
  show ?thesis
  proof (cases s)
    case None
    then show ?thesis using assms[unfolded deliver_signal.simps[of C t]] t1 idle by auto
  next
    case (Some sig)
    note t1 = t1[unfolded Some]
    obtain a where a: "get_sigaction_raw sig t1 = Some a"
      using assms t1 by (subst (asm) deliver_signal.simps) (auto split: option.splits)
    note d = assms[unfolded deliver_signal.simps[of C t] t1 option.case prod.case a]
    show ?thesis
    proof (cases "sa_handler a")
      case None
      then show ?thesis using d t1 terminate stop ignored by (cases "default_action C sig") (auto simp: run_simps)
    next
      case (Some f)
      show ?thesis
      proof (cases "f = 1")
        case True
        then show ?thesis using d t1 ignored Some by simp
      next
        case False
        then obtain b t2 S2 where s: "setup_signal_frame C sig f a t1 S = Some (b, t2, S2)"
          using d Some by (auto split: option.splits)
        show ?thesis
        proof (cases b)
          case True
          then show ?thesis using d t1 a s Some False by (intro handler) auto
        next
          case b: False
          then have t2: "t2 = t1" using setup_signal_frame_False[of C sig f a t1 S t2 S2] s by simp
          then show ?thesis using d t1 s Some False b segv retry
            by (auto simp: run_simps split: if_splits option.splits)
        qed
      qed
    qed
  qed
qed

lemma deliver_signal_schedule:
  "deliver_signal C t S = Some (r, t', S') \<Longrightarrow> same_schedule t t'"
proof (induction "weight (signo C SIGSEGV) (pending (signals t))" arbitrary: t S rule: less_induct)
  case less
  from less.prems show ?case
  proof (cases rule: deliver_signal_cases)
    case (ignored sig t1)
    then show ?thesis using less.hyps[OF deliver_next_weight] take_next_schedule same_schedule_trans by blast
  next
    case (retry sig t1 f a S1 t2)
    then show ?thesis using less.hyps[OF deliver_retry_weight] take_next_schedule raise_signal_schedule same_schedule_trans by metis
  qed (auto intro: take_next_schedule same_schedule_trans[OF take_next_schedule setup_signal_frame_schedule])
qed

section \<open>Well-formed threads\<close>

text \<open>The sizes the array types of the source fix, and the pending signals that \<^verbatim>\<open>raise\<close> admits.\<close>

definition thread_wf :: "signal_consts \<Rightarrow> 'task thread \<Rightarrow> bool" where
  "thread_wf C t \<longleftrightarrow> length (gp_registers (register_state t)) = 32 \<and> length (fp_registers (register_state t)) = 32
     \<and> length (sigactions (signals t)) = NSIG C \<and> (\<forall>n. bit (pending (signals t)) n \<longrightarrow> n \<in> {1..31})"

lemma thread_wf_pending:
  "thread_wf C t \<Longrightarrow> (\<And>n. bit p n \<Longrightarrow> bit (pending (signals t)) n \<or> n \<in> {1..31}) \<Longrightarrow> thread_wf C (set_pending p t)"
  unfolding thread_wf_def by force

lemma raise_signal_wf:
  assumes "thread_wf C t" "raise_signal C sig t = Some t'" shows "thread_wf C t'"
proof -
  obtain p where p: "t' = set_pending p t" "\<And>n. bit p n \<Longrightarrow> bit (pending (signals t)) n \<or> n = sig" "sig \<in> {1..31}"
    using raise_signal_pending[OF assms(2)] by metis
  show ?thesis unfolding p(1) by (rule thread_wf_pending[OF assms(1)]) (use p(2,3) in blast)
qed

lemma clear_pending_wf: "thread_wf C t \<Longrightarrow> clear_pending sig t = Some t' \<Longrightarrow> thread_wf C t'"
  by (auto simp: run_simps bit_and_iff intro!: thread_wf_pending)

lemma take_next_wf: "thread_wf C t \<Longrightarrow> take_next_pending_signal t = Some (s, t') \<Longrightarrow> thread_wf C t'"
  by (auto simp: take_next_pending_signal_def run_simps bit_and_iff split: option.splits intro!: thread_wf_pending)

lemma setup_signal_frame_wf:
  assumes "thread_wf C t" "setup_signal_frame C sig f a t S = Some (True, t', S')" shows "thread_wf C t'"
  using assms(2) by (rule setup_signal_frame_True) (use assms(1) in \<open>simp add: thread_wf_def\<close>)

lemma deliver_signal_wf:
  "deliver_signal C t S = Some (r, t', S') \<Longrightarrow> thread_wf C t \<Longrightarrow> thread_wf C t'"
proof (induction "weight (signo C SIGSEGV) (pending (signals t))" arbitrary: t S rule: less_induct)
  case less
  from less.prems(1) show ?case
  proof (cases rule: deliver_signal_cases)
    case (ignored sig t1)
    then show ?thesis using less.hyps[OF deliver_next_weight] take_next_wf less.prems(2) by blast
  next
    case (retry sig t1 f a S1 t2)
    then show ?thesis using less.hyps[OF deliver_retry_weight] take_next_wf raise_signal_wf less.prems(2) by metis
  qed (use less.prems(2) in \<open>auto intro: take_next_wf setup_signal_frame_wf[OF take_next_wf]\<close>)
qed

text \<open>Well-formed threads do not panic on the signals' operations.\<close>

lemma peek_range: "thread_wf C t \<Longrightarrow> peek_first_unblocked_signal t = Some sig \<Longrightarrow> sig \<in> {1..31}"
  unfolding peek_first_unblocked_signal_def first_matching_Some thread_wf_def by blast

lemma clear_pending_defined: "sig \<in> {1..31} \<Longrightarrow> \<exists>t'. clear_pending sig t = Some t'"
  unfolding clear_pending_eq by blast

lemma take_next_defined:
  assumes "thread_wf C t"
  shows "take_next_pending_signal t = Some (peek_first_unblocked_signal t, case peek_first_unblocked_signal t of None \<Rightarrow> t
    | Some sig \<Rightarrow> set_pending (pending (signals t) AND NOT (push_bit sig 1)) t)"
proof (cases "peek_first_unblocked_signal t")
  case (Some sig)
  have "clear_pending sig t = Some (set_pending (pending (signals t) AND NOT (push_bit sig 1)) t)"
    unfolding clear_pending_eq using peek_range[OF assms Some] by blast
  then show ?thesis using Some by (simp add: take_next_pending_signal_def)
qed (simp add: take_next_pending_signal_def)

lemma foldM_clear_defined: "set xs \<subseteq> {1..31} \<Longrightarrow> \<exists>t'. foldM clear_pending xs t = Some t'"
proof (induction xs arbitrary: t)
  case (Cons x xs)
  then obtain u where "clear_pending x t = Some u" using clear_pending_defined[of x t] by auto
  then show ?case using Cons by simp
qed simp

lemma raise_pending_defined: "sig \<in> {1..31} \<Longrightarrow> \<exists>t'. raise_pending sig t = Some t'"
  unfolding raise_pending_eq by blast

lemma clear_stop_defined: "signals_ok C \<Longrightarrow> \<exists>t'. clear_pending_stop_signals C t = Some t'"
  unfolding clear_pending_stop_signals_def by (rule foldM_clear_defined) (auto simp: signals_ok_def)

lemma raise_signal_defined:
  assumes "signals_ok C" "thread_wf C t" "sig \<in> {1..31}" shows "\<exists>t'. raise_signal C sig t = Some t'"
proof -
  obtain t1 where t1: "(case default_action C sig of Continue \<Rightarrow> clear_pending_stop_signals C t
       | Stop \<Rightarrow> clear_pending (signo C SIGCONT) t | _ \<Rightarrow> Some t) = Some t1"
    using clear_stop_defined[OF assms(1), of t] clear_pending_defined[of "signo C SIGCONT" t] assms(1)
    by (cases "default_action C sig") (auto simp: signals_ok_def)
  then have "sigactions (signals t1) = sigactions (signals t)"
    by (auto simp: clear_pending_stop_signals_def run_simps split: default_action.splits)
  then have "sig < length (sigactions (signals t1))" using assms by (auto simp: thread_wf_def signals_ok_def)
  then have "index (sigactions (signals t1)) sig = Some (sigactions (signals t1) ! sig)" by (simp add: index_def)
  moreover obtain t2 where "raise_pending sig t1 = Some t2" using raise_pending_defined assms(3) by blast
  ultimately show ?thesis using t1 assms(3) by (auto simp: raise_signal_def split: option.splits)
qed

text \<open>The machines that writes to user memory lead to.\<close>

inductive written :: "machine \<Rightarrow> machine \<Rightarrow> bool" where
  written_refl: "written S S"
| written_step: "written S S' \<Longrightarrow> user_write p x bs S' = Some (r, S'') \<Longrightarrow> written S S''"

lemma written_trans: "written S' S'' \<Longrightarrow> written S S' \<Longrightarrow> written S S''"
  by (induction rule: written.induct) (auto intro: written.intros)

definition frame_address :: "'task thread \<Rightarrow> usize" where
  "frame_address t = unat (word_of_nat (unat (gp_registers (register_state t) ! reg_sp) - SIGNAL_FRAME_SIZE) AND NOT 0xF :: 64 word)"

text \<open>
  Writing a frame below the stack pointer does not panic.  The stack pointer is the user's: a value below
  the size of a frame, or one under a leaf of a higher level, does make the kernel panic.  A thread with
  no handler needs no frame.
\<close>

definition stack_ok :: "machine \<Rightarrow> 'task thread \<Rightarrow> bool" where
  "stack_ok S t \<longleftrightarrow> SIGNAL_FRAME_SIZE \<le> unat (gp_registers (register_state t) ! reg_sp)
     \<and> (\<forall>S' bs. written S S' \<longrightarrow> user_write (process t) (frame_address t) bs S' \<noteq> None)"

definition has_handler :: "'task thread \<Rightarrow> bool" where
  "has_handler t \<longleftrightarrow> (\<exists>a\<in>set (sigactions (signals t)). sa_handler a \<notin> {None, Some 1})"

definition frame_ready :: "machine \<Rightarrow> 'task thread \<Rightarrow> bool" where
  "frame_ready S t \<longleftrightarrow> (has_handler t \<longrightarrow> stack_ok S t)"

lemma frame_ready_written: "frame_ready S t \<Longrightarrow> written S S' \<Longrightarrow> frame_ready S' t"
  by (auto simp: frame_ready_def stack_ok_def intro: written_trans)

lemma frame_ready_pending [simp]: "frame_ready S (set_pending p t) = frame_ready S t"
  by (simp add: frame_ready_def stack_ok_def has_handler_def frame_address_def)

lemma setup_signal_frame_written:
  assumes "setup_signal_frame C sig f a t S = Some (b, t', S')" shows "written S S'"
  using assms
  by (auto simp: setup_signal_frame_def Let_def run_simps sum.case_eq_if split: if_splits
      intro: written_step[OF written_refl])

lemma deliver_signal_written:
  "deliver_signal C t S = Some (r, t', S') \<Longrightarrow> written S S'"
proof (induction "weight (signo C SIGSEGV) (pending (signals t))" arbitrary: t S rule: less_induct)
  case less
  from less.prems show ?case
  proof (cases rule: deliver_signal_cases)
    case (ignored sig t1)
    then show ?thesis using less.hyps[OF deliver_next_weight] by blast
  next
    case (retry sig t1 f a S1 t2)
    then show ?thesis using less.hyps[OF deliver_retry_weight] setup_signal_frame_written written_trans by metis
  qed (auto intro: written_refl setup_signal_frame_written)
qed

lemma setup_signal_frame_defined:
  assumes ok: "signals_ok C" "thread_wf C t" "sig \<in> {1..31}" and st: "stack_ok S t"
  shows "\<exists>b t' S'. setup_signal_frame C sig f a t S = Some (b, t', S')"
proof -
  let ?sp = "gp_registers (register_state t) ! reg_sp"
  let ?frame = "frame_as_slice \<lparr>saved_regs = gp_registers (register_state t), saved_fregs = fp_registers (register_state t),
      saved_pc = program_counter t, saved_sigmask = sigmask (signals t)\<rparr>"
  have sp: "get_reg reg_sp (register_state t) = Some ?sp" "usub (unat ?sp) SIGNAL_FRAME_SIZE = Some (unat ?sp - SIGNAL_FRAME_SIZE)"
    using ok(2) st by (auto simp: get_reg_def index_def thread_wf_def stack_ok_def usub_def reg_sp_def)
  obtain r S1 where w: "user_write (process t) (frame_address t) ?frame S = Some (r, S1)"
    using st written_refl[of S] unfolding stack_ok_def by fastforce
  have set_reg: "set_reg n v u = Some (u\<lparr>gp_registers := (gp_registers u)[n := v]\<rparr>)" if "length (gp_registers u) = 32" "n < 32" for n v u
    using that by (simp add: set_reg_def index_set_def)
  have acts: "sig < NSIG C" "sig < length (sigactions (signals t))" "sig < 64" using ok by (auto simp: thread_wf_def signals_ok_def)
  show ?thesis
  proof (cases r)
    case Inl
    then show ?thesis using w sp by (auto simp: setup_signal_frame_def Let_def frame_address_def)
  next
    case Inr
    then show ?thesis using w sp ok(2) acts
      by (auto simp: setup_signal_frame_def Let_def frame_address_def set_reg thread_wf_def reg_sp_def reg_a0_def reg_ra_def
          set_sigaction_def set_sigmask_raw_def index_def index_set_def)
  qed
qed

lemma deliver_signal_defined:
  assumes "signals_ok C"
  shows "thread_wf C t \<Longrightarrow> frame_ready S t \<Longrightarrow> \<exists>r t' S'. deliver_signal C t S = Some (r, t', S')"
proof (induction "weight (signo C SIGSEGV) (pending (signals t))" arbitrary: t S rule: less_induct)
  case less
  show ?case
  proof (cases "peek_first_unblocked_signal t")
    case None
    then show ?thesis using take_next_defined[OF less.prems(1)] by (subst deliver_signal.simps) simp
  next
    case (Some sig)
    then obtain t1 where t1: "take_next_pending_signal t = Some (Some sig, t1)"
      using take_next_defined[OF less.prems(1)] by simp
    note f1 = take_next_pending_signal_Some[OF t1]
    have wf1: "thread_wf C t1" by (rule take_next_wf[OF less.prems(1) t1])
    have fr1: "frame_ready S t1" using less.prems(2) f1(4) by simp
    have IH1: "\<exists>r t' S'. deliver_signal C t1 S = Some (r, t', S')"
      by (rule less.hyps[OF deliver_next_weight[OF t1] wf1 fr1])
    have len: "sig < length (sigactions (signals t1))" using f1(3) assms wf1 by (auto simp: thread_wf_def signals_ok_def)
    define a where "a = sigactions (signals t1) ! sig"
    have a: "get_sigaction_raw sig t1 = Some a" using len by (simp add: get_sigaction_raw_def index_def a_def)
    have s8: "sig < 2 ^ 8" using f1(3) by simp
    note unf = deliver_signal.simps[of C t] t1 option.case prod.case a
    consider (dfl) "sa_handler a = None" | (ign) "sa_handler a = Some 1" | (fn) f where "sa_handler a = Some f" "f \<noteq> 1"
      by (cases "sa_handler a") auto
    then show ?thesis
    proof cases
      case dfl
      then show ?thesis unfolding unf using IH1 s8 by (cases "default_action C sig") auto
    next
      case ign
      then show ?thesis unfolding unf using IH1 by simp
    next
      case (fn f)
      then have "has_handler t1" unfolding has_handler_def a_def using len by (intro bexI[OF _ nth_mem]) auto
      then have st: "stack_ok S t1" using fr1 by (simp add: frame_ready_def)
      obtain b t2 S2 where s: "setup_signal_frame C sig f a t1 S = Some (b, t2, S2)"
        using setup_signal_frame_defined[OF assms wf1 f1(3) st] by blast
      show ?thesis
      proof (cases "b \<or> sig = signo C SIGSEGV")
        case True
        then show ?thesis unfolding unf using fn s s8 by (cases b) auto
      next
        case False
        then have t2: "t2 = t1" using setup_signal_frame_False s by simp
        obtain t3 where t3: "raise_signal C (signo C SIGSEGV) t1 = Some t3"
          using raise_signal_defined[OF assms wf1] assms by (fastforce simp: signals_ok_def)
        obtain q where q: "t3 = set_pending q t1" using raise_signal_pending[OF t3] by metis
        have "frame_ready S2 t3" using frame_ready_written[OF fr1 setup_signal_frame_written[OF s]] q by simp
        then have "\<exists>r t' S'. deliver_signal C t3 S2 = Some (r, t', S')"
          using less.hyps[OF deliver_retry_weight[OF t1 _ t3] raise_signal_wf[OF wf1 t3]] False by blast
        then show ?thesis unfolding unf using fn s t2 t3 False by simp
      qed
    qed
  qed
qed

section \<open>The way back\<close>

lemma le_words_nth:
  assumes "i < length ws"
  shows "take 8 (drop (8 * i) (concat (map (\<lambda>w. to_le 8 (unat (w :: 64 word))) ws))) = to_le 8 (unat (ws ! i))"
  using assms
proof (induction ws arbitrary: i)
  case (Cons w ws)
  then show ?case by (cases i) simp_all
qed simp

lemma length_le_words: "length (concat (map (\<lambda>w. to_le 8 (unat (w :: 64 word))) ws)) = 8 * length ws"
  by (induction ws) simp_all

lemma word_le_bytes: "word_of_nat (le_bytes (to_le 8 (unat w))) = (w :: 64 word)"
proof -
  have "unat w < 256 ^ 8" using unsigned_less[of w, where ?'a = nat] by simp
  then show ?thesis by (simp add: le_bytes_to_le)
qed

lemma map_nth_middle: "map (\<lambda>i. (xs @ ys @ zs) ! i) [length xs..<length xs + length ys] = ys"
  by (rule nth_equalityI) (auto simp: nth_append)

lemma frame_bytes_roundtrip:
  assumes "length (saved_regs f) = 32" "length (saved_fregs f) = 32"
  shows "length (frame_as_slice f) = SIGNAL_FRAME_SIZE" "frame_read_from_bytes (frame_as_slice f) = f"
proof -
  let ?ws = "saved_regs f @ saved_fregs f @ [saved_pc f, saved_sigmask f]"
  have w: "word_of_nat (le_bytes (take 8 (drop (8 * i) (frame_as_slice f)))) = ?ws ! i" if "i < 66" for i
    unfolding frame_as_slice_def using le_words_nth[of i ?ws] that assms by (simp add: word_le_bytes)
  have rng: "map (\<lambda>i. word_of_nat (le_bytes (take 8 (drop (8 * i) (frame_as_slice f))))) [a..<b] = map (\<lambda>i. ?ws ! i) [a..<b]" if "b \<le> 66" for a b
    by (rule map_cong[OF refl]) (rule w, use that in auto)
  show "length (frame_as_slice f) = SIGNAL_FRAME_SIZE"
    unfolding frame_as_slice_def length_le_words using assms by (simp add: SIGNAL_FRAME_SIZE_def)
  have "map (\<lambda>i. ?ws ! i) [0..<32] = saved_regs f" "map (\<lambda>i. ?ws ! i) [32..<64] = saved_fregs f"
    using map_nth_middle[of "[]" "saved_regs f"] map_nth_middle[of "saved_regs f" "saved_fregs f"] assms by simp_all
  then show "frame_read_from_bytes (frame_as_slice f) = f"
    unfolding frame_read_from_bytes_def Let_def using rng[of 32 0] rng[of 64 32] w[of 64] w[of 65] assms
    by (simp add: nth_append)
qed

text \<open>Reading bytes of one page that the process can read.\<close>

lemma validate_readable:
  assumes inv: "pt_inv pt places" and nh: "\<not> huge_at pt x" and sp: "page_span x n" and x: "x < 2 ^ 39"
    and u: "user_frame pt x = Some (pa, m)" "m \<in> {ReadOnly, ReadWrite, ReadExecute}" "w \<longrightarrow> m = ReadWrite"
    and pa: "pa < 2 ^ 64"
  shows "validate_userspace pt w x 1 n = Some (Inr pa)"
proof -
  have ac: "user_access pt w y \<and> \<not> huge_at pt y" if "x \<le> y" "y < x + n" for y
  proof -
    have "page_base y = page_base x" by (rule page_span_base[OF sp that])
    then have pg: "y div PAGE_SIZE = x div PAGE_SIZE"
      by (metis PAGE_SIZE_pos minus_mod_eq_div_mult div_mult_self_is_m page_base_def)
    have "user_access pt w x" using u by (auto simp: user_access_def user_frame_eq)
    then show ?thesis using user_access_page[OF pg] huge_at_page[OF pg] nh by metis
  qed
  have "x + n \<le> 2 ^ 64 \<and> n < 2 ^ 64"
  proof -
    have "in_page (page_base x) (x + n - 1)" using sp in_page_base[of "page_base x"] by (simp add: page_span_def)
    moreover have "page_base x \<le> x" by (simp add: page_base_def)
    ultimately have "x + n - 1 < x + PAGE_SIZE" by (auto simp: in_page_def)
    then show ?thesis using x unfolding PAGE_SIZE_def by auto
  qed
  then have "is_valid_userspace_fat_ptr pt x 1 n w = Some True"
    using fat_ptr_eq[OF inv, of x 1 n w] ac by auto
  moreover have "translate_userspace_address_to_physical_address pt x = Some (Some pa)"
    using nh u pa by (cases rule: walk_to_entry_cases[OF inv, of x])
      (auto simp: translate_userspace_address_to_physical_address_def is_userspace_address_def xlate_def user_frame_eq uadd_def PAGE_SIZE_def)
  ultimately show ?thesis by (simp add: validate_userspace_def)
qed

lemma view_readable:
  assumes ok: "as_ok tramp s" and x: "x < 2 ^ 39" and v: "view s r x = Some (b, ReadWrite)"
  obtains pa m where "user_frame (page_table s) x = Some (pa, m)" "m \<in> {ReadOnly, ReadWrite, ReadExecute}"
    "pa < 2 ^ 64" "b = r pa"
proof -
  obtain pa m where u: "user_frame (page_table s) x = Some (pa, m)" "b = r pa" "logical_perm s x m = ReadWrite"
    using v by (auto simp: view_Some)
  from ok u(1) x show ?thesis
  proof (cases rule: user_frame_cases)
    case (entry va e)
    have w: "entry_wf (page_table s) va e" by (rule as_okD(3)[OF ok entry(1)])
    then have "pa < 2 ^ 64" using entry(4) by (auto simp: entry_wf_def run_ok_def frames_def)
    moreover have "m \<in> {ReadOnly, ReadWrite, ReadExecute}"
    proof (cases "owned e")
      case True
      then show ?thesis using logical_perm_owned[OF ok entry(1,2) True] u(3) by simp
    next
      case False
      then obtain c where c: "e = Cow c" by (cases e) auto
      have "page_base x = va" using entry(2) c w in_page_base[of va x] by (auto simp: entry_wf_def in_run_1)
      then have "original_perm c = ReadWrite" using u(3) entry(1) c by (simp add: logical_perm_def)
      then show ?thesis using entry(5) c by simp
    qed
    ultimately show ?thesis using that u by blast
  next
    case trampoline
    have "page_base x = TRAMPOLINE_VADDR"
      using trampoline(1) in_page_base[of TRAMPOLINE_VADDR x] by (simp add: TRAMPOLINE_VADDR_def PAGE_SIZE_def)
    moreover have "in_run TRAMPOLINE_VADDR (snd (pages_of e)) x" if "bt_get (mappings s) TRAMPOLINE_VADDR = Some e" for e
      using as_okD(3)[OF ok that] trampoline(1) by (auto simp: entry_wf_def run_ok_def in_run_def in_page_def PAGE_SIZE_def)
    ultimately have "bt_get (mappings s) (page_base x) = None"
      using trampoline_okD(2)[OF as_okD(6)[OF ok] trampoline(1)] by fastforce
    then show ?thesis using u(3) trampoline(3) by (simp add: logical_perm_def)
  qed
qed

lemma user_frame_offset:
  assumes nh: "\<not> huge_at pt x" and sp: "page_span x n" and u: "user_frame pt x = Some (pa, m)" and i: "i < n"
  shows "user_frame pt (x + i) = Some (pa + i, m)"
proof -
  have b: "page_base (x + i) = page_base x" by (rule page_span_base[OF sp]) (use i in auto)
  then have pg: "(x + i) div PAGE_SIZE = x div PAGE_SIZE"
    by (metis PAGE_SIZE_pos minus_mod_eq_div_mult div_mult_self_is_m page_base_def)
  have md: "(x + i) mod PAGE_SIZE = x mod PAGE_SIZE + i"
    using pg by (metis add.assoc add_left_cancel div_mult_mod_eq mult.commute)
  obtain e where e: "hw_walk (tables pt) 2 (root_table pt) x = Some (0, e)" "pa = unat (pte_addr e) + x mod PAGE_SIZE"
      "get_xwr_mode e = Some m" "pte_user e"
  proof -
    obtain l e where "hw_walk (tables pt) 2 (root_table pt) x = Some (l, e)" "pa = unat (pte_addr e) + x mod 2 ^ (12 + 9 * l)"
        "get_xwr_mode e = Some m" "pte_user e"
      using u by (auto simp: user_frame_eq xlate_def)
    moreover from this have "l = 0" using nh by (cases l) (auto simp: huge_at_def)
    ultimately show ?thesis using that by (simp add: PAGE_SIZE_def)
  qed
  then show ?thesis using md hw_walk_page[OF pg, of "tables pt" 2 "root_table pt"]
    by (simp add: user_frame_eq xlate_def PAGE_SIZE_def)
qed

lemma user_read_view:
  assumes inv: "sys_inv tramp S" and p: "procs S p = Some s" and x: "x < 2 ^ 39" and sp: "page_span x (length bs)"
    and nh: "\<not> huge_at (page_table s) x"
    and vw: "\<And>i. i < length bs \<Longrightarrow> view s (ram (kernel_memory S)) (x + i) = Some (bs ! i, ReadWrite)"
  shows "user_read p x (length bs) S = Some (Inr bs)"
proof -
  let ?r = "ram (kernel_memory S)"
  have ok: "as_ok tramp s" by (rule sys_invD(1)[OF inv p])
  obtain places where pt: "pt_inv (page_table s) places" using as_okD(1)[OF ok] by (auto simp: pt_well_formed_def)
  have pos: "0 < length bs" using sp by (simp add: page_span_def)
  obtain pa m where u: "user_frame (page_table s) x = Some (pa, m)" "m \<in> {ReadOnly, ReadWrite, ReadExecute}" "pa < 2 ^ 64"
    using view_readable[OF ok x] vw[OF pos] by (metis add_0_right)
  have v: "validate_userspace (page_table s) False x 1 (length bs) = Some (Inr pa)"
    by (rule validate_readable[OF pt nh sp x u(1,2) _ u(3)]) simp
  have "?r (pa + i) = bs ! i" if "i < length bs" for i
    using vw[OF that] user_frame_offset[OF nh sp u(1) that] by (auto simp: view_Some)
  then have "read_ram ?r pa (length bs) = bs" unfolding read_ram_def by (intro nth_equalityI) auto
  then show ?thesis using p v by (simp add: user_read_def read_userspace_slice_def)
qed

text \<open>C39: a signal frame brings the interrupted thread back.  When the kernel has entered a handler, the handler
  sees the signal's number, the trampoline as its return address and the signal blocked unless it asked
  otherwise; and if, whatever else ran since, the frame's bytes are as written when the handler returns to the
  trampoline with the stack pointer it was entered with, \<^verbatim>\<open>sigreturn\<close> restores all registers, the program
  counter and the signal mask.  The frame is required to lie in one page.\<close>

theorem signal_frame_roundtrip:
  assumes wf: "thread_wf C t" and inv: "sys_inv tramp S"
    and entered: "setup_signal_frame C sig f a t S = Some (True, t1, S1)"
    and page: "frame_address t < 2 ^ 39" "page_span (frame_address t) SIGNAL_FRAME_SIZE"
    and later: "sys_inv tramp S2" "procs S2 (process t) = Some s2" "\<not> huge_at (page_table s2) (frame_address t)"
      "\<forall>i<SIGNAL_FRAME_SIZE. \<forall>v. views S1 (process t) = Some v \<longrightarrow>
         view s2 (ram (kernel_memory S2)) (frame_address t + i) = v (frame_address t + i)"
    and returned: "process t2 = process t" "get_reg reg_sp (register_state t2) = get_reg reg_sp (register_state t1)"
  shows "program_counter t1 = f \<and> get_reg reg_a0 (register_state t1) = Some (word_of_nat sig)
    \<and> get_reg reg_ra (register_state t1) = Some (word_of_nat TRAMPOLINE_VADDR)
    \<and> (sa_flags a AND SA_NODEFER C = 0 \<longrightarrow> sig < 64 \<longrightarrow> bit (sigmask (signals t1)) sig)
    \<and> (\<exists>t3. restore_signal_frame t2 S2 = Some (Inr (), t3) \<and> register_state t3 = register_state t
        \<and> program_counter t3 = program_counter t \<and> sigmask (signals t3) = sigmask (signals t))"
proof -
  let ?p = "process t" let ?x = "frame_address t"
  let ?frame = "\<lparr>saved_regs = gp_registers (register_state t), saved_fregs = fp_registers (register_state t),
      saved_pc = program_counter t, saved_sigmask = sigmask (signals t)\<rparr>"
  let ?bs = "frame_as_slice ?frame"
  have len: "length (gp_registers (register_state t)) = 32" "length (fp_registers (register_state t)) = 32"
    using wf by (simp_all add: thread_wf_def)
  have bs: "length ?bs = SIGNAL_FRAME_SIZE" "frame_read_from_bytes ?bs = ?frame"
    using frame_bytes_roundtrip[of ?frame] len by simp_all
  from entered obtain sp m acts where sp: "get_reg reg_sp (register_state t) = Some sp"
    and w: "user_write ?p (unat (word_of_nat (unat sp - SIGNAL_FRAME_SIZE) AND NOT 0xF :: 64 word)) ?bs S = Some (Inr (), S1)"
    and t1: "t1 = t\<lparr>register_state := (register_state t)\<lparr>gp_registers := (gp_registers (register_state t))
       [reg_sp := word_of_nat (unat sp - SIGNAL_FRAME_SIZE) AND NOT 0xF, reg_a0 := word_of_nat sig,
        reg_ra := word_of_nat TRAMPOLINE_VADDR]\<rparr>, program_counter := f, signals := (signals t)\<lparr>sigmask := m, sigactions := acts\<rparr>\<rparr>"
    and m: "m = (let n = sigmask (signals t) OR sa_mask a in if sa_flags a AND SA_NODEFER C = 0 then n OR push_bit sig 1 else n)"
    by (elim setup_signal_frame_True) blast
  let ?sp1 = "word_of_nat (unat sp - SIGNAL_FRAME_SIZE) AND NOT 0xF :: 64 word"
  have x: "unat ?sp1 = ?x" using sp by (auto simp: frame_address_def get_reg_def run_simps)
  obtain s s' km' where s: "procs S ?p = Some s" "write_userspace_slice s (kernel_memory S) ?x ?bs = Some (Inr (), s', km')"
      "S1 = S\<lparr>procs := (procs S)(?p \<mapsto> s'), kernel_memory := km'\<rparr>"
    using w unfolding x by (auto simp: user_write_def run_simps)
  have "page_span ?x (length ?bs)" using page(2) bs(1) by simp
  from write_userspace_slice_ok[OF inv s(1) page(1) this s(2)] s(3)
  have "views S1 ?p = Some (\<lambda>y. if ?x \<le> y \<and> y < ?x + length ?bs then Some (?bs ! (y - ?x), ReadWrite) else view s (ram (kernel_memory S)) y)"
    by simp
  then have v: "view s2 (ram (kernel_memory S2)) (?x + i) = Some (?bs ! i, ReadWrite)" if "i < length ?bs" for i
    using later(4) that bs(1) by auto
  have "user_read ?p ?x (length ?bs) S2 = Some (Inr ?bs)"
    by (rule user_read_view[OF later(1,2) page(1) \<open>page_span ?x (length ?bs)\<close> later(3) v])
  moreover have "get_reg reg_sp (register_state t2) = Some ?sp1"
    using returned(2) t1 len by (simp add: get_reg_def index_def reg_sp_def reg_a0_def reg_ra_def)
  ultimately have "restore_signal_frame t2 S2 = Some (Inr (), set_sigmask_raw (sigmask (signals t))
      (t2\<lparr>register_state := register_state t, program_counter := program_counter t\<rparr>))"
    using returned(1) bs x by (cases "register_state t") (simp add: restore_signal_frame_def)
  then show ?thesis using t1 m len
    by (auto simp: get_reg_def index_def reg_sp_def reg_a0_def reg_ra_def set_sigmask_raw_def Let_def bit_or_iff)
qed

fun linux_signo :: "signame \<Rightarrow> nat" where
  "linux_signo SIGHUP = 1" | "linux_signo SIGINT = 2" | "linux_signo SIGQUIT = 3" | "linux_signo SIGILL = 4"
| "linux_signo SIGTRAP = 5" | "linux_signo SIGABRT = 6" | "linux_signo SIGBUS = 7" | "linux_signo SIGFPE = 8"
| "linux_signo SIGKILL = 9" | "linux_signo SIGUSR1 = 10" | "linux_signo SIGSEGV = 11" | "linux_signo SIGUSR2 = 12"
| "linux_signo SIGPIPE = 13" | "linux_signo SIGALRM = 14" | "linux_signo SIGTERM = 15" | "linux_signo SIGSTKFLT = 16"
| "linux_signo SIGCHLD = 17" | "linux_signo SIGCONT = 18" | "linux_signo SIGSTOP = 19" | "linux_signo SIGTSTP = 20"
| "linux_signo SIGTTIN = 21" | "linux_signo SIGTTOU = 22" | "linux_signo SIGURG = 23" | "linux_signo SIGXCPU = 24"
| "linux_signo SIGXFSZ = 25" | "linux_signo SIGVTALRM = 26" | "linux_signo SIGPROF = 27" | "linux_signo SIGWINCH = 28"
| "linux_signo SIGIO = 29" | "linux_signo SIGPWR = 30" | "linux_signo SIGSYS = 31"

definition linux_signals :: signal_consts where
  "linux_signals = \<lparr>signo = linux_signo, NSIG = 64, SA_NODEFER = 0x40000000, SA_RESETHAND = 0x80000000\<rparr>"

lemma linux_signals_ok: "signals_ok linux_signals"
proof -
  have "inj linux_signo"
  proof (rule injI)
    fix a b assume "linux_signo a = linux_signo b"
    then show "a = b" by (cases a; cases b) simp_all
  qed
  moreover have "linux_signo s \<in> {1..31}" for s by (cases s) simp_all
  ultimately show ?thesis by (simp add: signals_ok_def linux_signals_def)
qed

definition demo_thread :: "unit thread" where
  "demo_thread = thread_new linux_signals 1 ''demo'' \<lparr>gp_registers = (replicate 32 7)[reg_sp := 0x2000001000], fp_registers = replicate 32 9\<rparr>
     0x4000 False 1 0"

lemma demo_stack:
  obtains S s where "sys_inv 0x90000000 S" "procs S 1 = Some s" "mappings s = [(VA, Mmap (0x90001000, 1))]"
    "no_huge (page_table s)" "\<And>x. in_page VA x \<Longrightarrow> user_frame (page_table s) x = Some (0x90001000 + (x - VA), ReadWrite)"
proof -
  obtain kpt pt where k: "kernel_table_ok kpt"
      "map_userspace kpt TRAMPOLINE_VADDR 0x90000000 PAGE_SIZE ReadExecute ''Signal trampoline'' = Some pt"
    and pt: "no_huge pt" "2 \<le> length (boxes pt)" "pt_well_formed pt"
      "\<And>x. in_page VA (low39 x) \<Longrightarrow> xlate pt x = None" "\<not> is_mapped pt (VA, VA + (PAGE_SIZE - 1))"
    by (rule demo_tables) blast
  obtain ppt where m: "exec_op 0x90000000 (Anonymous 1 1 ReadWrite VA) (demo_machine pt) = Some
      \<lparr>procs = [1 \<mapsto> \<lparr>page_table = ppt, mappings = [(VA, Mmap (0x90001000, 1))], free_mmap_address = VA + PAGE_SIZE, as_brk = brk_empty\<rparr>],
       kernel_memory = \<lparr>ram = (\<lambda>_. 0), heap_runs = [(0x90004000, 1)]\<rparr>\<rparr>" (is "_ = Some ?S1")
      "no_huge ppt" "\<forall>x. xlate ppt x = (if in_page VA (low39 x) then Some (0x90001000 + (low39 x - VA), Some ReadWrite, True) else xlate pt x)"
    using demo_mmap[OF pt(1-5)] by blast
  have "op_allowed (Anonymous 1 1 ReadWrite VA) (demo_machine pt)"
    by (simp add: demo_machine_def process_new_def FREE_MMAP_START_ADDRESS_def PAGE_SIZE_def)
  then have "exec_ops 0x90000000 [Anonymous 1 1 ReadWrite VA] (demo_machine pt) ?S1"
    by (rule exec_ops.Step[OF _ m(1) exec_ops.Done])
  then have "sys_inv 0x90000000 ?S1"
    using exec_ops_refines[OF _ _ demo_machine_ok[OF k]] by (simp add: run_ok_def PAGE_SIZE_def)
  then show ?thesis
    by (rule that) (use m in \<open>auto simp: user_frame_eq in_page_def PAGE_SIZE_def\<close>)
qed

theorem signal_frame_roundtrip_witness:
  "\<exists>S t1 S1 t3. setup_signal_frame linux_signals 10 0x5000 \<lparr>sa_handler = Some 0x5000, sa_flags = 0, sa_mask = 0\<rparr> demo_thread S
      = Some (True, t1, S1) \<and> program_counter t1 = 0x5000 \<and> get_reg reg_sp (register_state t1) = Some 0x2000000DF0
    \<and> bit (sigmask (signals t1)) 10
    \<and> restore_signal_frame t1 S1 = Some (Inr (), t3) \<and> register_state t3 = register_state demo_thread
    \<and> program_counter t3 = 0x4000 \<and> sigmask (signals t3) = 0"
proof -
  obtain S s where S: "sys_inv 0x90000000 S" "procs S 1 = Some s" "mappings s = [(VA, Mmap (0x90001000, 1))]"
    "no_huge (page_table s)" "\<And>x. in_page VA x \<Longrightarrow> user_frame (page_table s) x = Some (0x90001000 + (x - VA), ReadWrite)"
    by (rule demo_stack) blast
  let ?x = "0x2000000DF0 :: nat" let ?a = "\<lparr>sa_handler = Some 0x5000, sa_flags = 0, sa_mask = 0\<rparr> :: sigaction"
  have wf: "thread_wf linux_signals demo_thread"
    by (simp add: thread_wf_def demo_thread_def thread_new_def signal_state_new_def)
  have sp: "gp_registers (register_state demo_thread) ! reg_sp = 0x2000001000"
    by (simp add: demo_thread_def thread_new_def reg_sp_def)
  have fa: "frame_address demo_thread = ?x" unfolding frame_address_def sp by (simp add: SIGNAL_FRAME_SIZE_def)
  have sz: "SIGNAL_FRAME_SIZE = 528" by (simp add: SIGNAL_FRAME_SIZE_def)
  have span: "page_span ?x 528" by (simp add: page_span_def page_base_def PAGE_SIZE_def)
  have ok: "as_ok 0x90000000 s" by (rule sys_invD(1)[OF S(1,2)])
  obtain places where pt: "pt_inv (page_table s) places" using as_okD(1)[OF ok] by (auto simp: pt_well_formed_def)
  have nh: "\<not> huge_at (page_table s) ?x" using S(4) by (simp add: no_huge_def)
  have "user_frame (page_table s) ?x = Some (0x90001DF0, ReadWrite)" using S(5)[of ?x] by (simp add: in_page_def PAGE_SIZE_def)
  then have v: "validate_userspace (page_table s) True ?x 1 528 = Some (Inr 0x90001DF0)"
    by (intro validate_readable[OF pt nh span]) simp_all
  have proc: "process demo_thread = 1" by (simp add: demo_thread_def thread_new_def)
  have w: "\<exists>s' km'. write_userspace_slice s (kernel_memory S) ?x bs = Some (Inr (), s', km') \<and> page_table s' = page_table s"
    if "length bs = 528" for bs
    using v that S(3) by (simp add: write_userspace_slice_def ensure_cow_resolved_for_write_def uadd_def usub_def page_base_def
        is_writable_cow_def PAGE_SIZE_def Let_def)
  let ?bs = "frame_as_slice \<lparr>saved_regs = gp_registers (register_state demo_thread), saved_fregs = fp_registers (register_state demo_thread),
      saved_pc = program_counter demo_thread, saved_sigmask = sigmask (signals demo_thread)\<rparr>"
  have bs: "length ?bs = 528" using frame_bytes_roundtrip(1) wf sz by (simp add: thread_wf_def)
  obtain s' km' where s': "write_userspace_slice s (kernel_memory S) ?x ?bs = Some (Inr (), s', km')" "page_table s' = page_table s"
    using w[OF bs] by blast
  let ?S1 = "S\<lparr>procs := (procs S)(1 \<mapsto> s'), kernel_memory := km'\<rparr>"
  have S1: "sys_inv 0x90000000 ?S1"
    using write_userspace_slice_ok[OF S(1,2) _ _ s'(1)] span bs by simp
  have uw: "user_write 1 ?x ?bs S = Some (Inr (), ?S1)" using S(2) s' by (simp add: user_write_def)
  have "unat (word_of_nat (unat (0x2000001000 :: 64 word) - SIGNAL_FRAME_SIZE) AND NOT 0xF :: 64 word) = ?x"
    using fa sp by (simp add: frame_address_def)
  then obtain t1 where t1: "setup_signal_frame linux_signals 10 0x5000 ?a demo_thread S = Some (True, t1, ?S1)"
      "get_reg reg_sp (register_state t1) = Some 0x2000000DF0"
    using uw sp wf proc by (auto simp: setup_signal_frame_def Let_def thread_wf_def get_reg_def index_def usub_def sz set_reg_def
        index_set_def reg_sp_def reg_a0_def reg_ra_def set_sigmask_raw_def)
  have view: "\<forall>i<SIGNAL_FRAME_SIZE. \<forall>v. views ?S1 (process demo_thread) = Some v \<longrightarrow>
      view s' (ram (kernel_memory ?S1)) (frame_address demo_thread + i) = v (frame_address demo_thread + i)"
    using proc by (auto simp: views_def)
  have "frame_address demo_thread < 2 ^ 39" "page_span (frame_address demo_thread) SIGNAL_FRAME_SIZE"
      "procs ?S1 (process demo_thread) = Some s'" "\<not> huge_at (page_table s') (frame_address demo_thread)"
      "process t1 = process demo_thread"
    using fa sz span proc s'(2) nh setup_signal_frame_schedule[OF t1(1)] by (simp_all add: same_schedule_def)
  from signal_frame_roundtrip[OF wf S(1) t1(1) this(1,2) S1 this(3,4) view this(5) refl]
  show ?thesis using t1 by (auto simp: demo_thread_def thread_new_def signal_state_new_def)
qed

section \<open>System calls\<close>

text \<open>
  An argument that points to user memory is the outcome of reading it (an error, or the value, which is
  absent for a null pointer), and a result stored through a pointer is a function that answers whether the
  store succeeds.
\<close>

record sigmask_consts =
  SIG_BLOCK :: nat
  SIG_UNBLOCK :: nat
  SIG_SETMASK :: nat

definition SIGSET_SIZE :: nat where "SIGSET_SIZE = 8"

definition do_rt_sigaction ::
    "signal_consts \<Rightarrow> nat \<Rightarrow> errno + sigaction option \<Rightarrow> (sigaction \<Rightarrow> errno + unit) \<Rightarrow> nat \<Rightarrow> 'task thread
      \<Rightarrow> ((errno + int) \<times> 'task thread) run" where
  "do_rt_sigaction C sig act oact sigsetsize t =
     (if sigsetsize \<noteq> SIGSET_SIZE \<or> sig = signo C SIGKILL \<or> sig = signo C SIGSTOP \<or> NSIG C \<le> sig
      then Some (Inl EINVAL, t)
      else case act of
        Inl e \<Rightarrow> Some (Inl e, t)
      | Inr act \<Rightarrow> do {
          (old, t) \<leftarrow> (case act of
              Some a \<Rightarrow> set_sigaction C sig a t
            | None \<Rightarrow> do { r \<leftarrow> get_sigaction C sig t; Some (r, t) });
          case old of
            Inl e \<Rightarrow> Some (Inl e, t)
          | Inr old \<Rightarrow> Some (case oact old of Inl e \<Rightarrow> Inl e | Inr _ \<Rightarrow> Inr 0, t)
        })"

definition do_rt_sigprocmask ::
    "sigmask_consts \<Rightarrow> nat \<Rightarrow> errno + 64 word option \<Rightarrow> (64 word \<Rightarrow> errno + unit) \<Rightarrow> nat \<Rightarrow> 'task thread
      \<Rightarrow> (errno + int) \<times> 'task thread" where
  "do_rt_sigprocmask M how new_set oldset sigsetsize t =
     (if sigsetsize \<noteq> SIGSET_SIZE then (Inl EINVAL, t)
      else case new_set of
        Inl e \<Rightarrow> (Inl e, t)
      | Inr new_set \<Rightarrow>
          let (old, t) = (case new_set of
              None \<Rightarrow> (Inr (sigmask (signals t)), t)
            | Some s \<Rightarrow>
                let current_set = sigmask (signals t) in
                if how = SIG_BLOCK M then map_prod Inr id (set_sigset (current_set OR s) t)
                else if how = SIG_UNBLOCK M then map_prod Inr id (set_sigset (current_set AND NOT s) t)
                else if how = SIG_SETMASK M then map_prod Inr id (set_sigset s t)
                else (Inl EINVAL, t))
          in case old of
               Inl e \<Rightarrow> (Inl e, t)
             | Inr old \<Rightarrow> (case oldset old of Inl e \<Rightarrow> Inl e | Inr _ \<Rightarrow> Inr 0, t))"

definition do_sigaltstack ::
    "errno + sigaltstack option \<Rightarrow> (sigaltstack \<Rightarrow> errno + unit) \<Rightarrow> 'task thread \<Rightarrow> (errno + int) \<times> 'task thread" where
  "do_sigaltstack uss uoss t = (case uss of
       Inl e \<Rightarrow> (Inl e, t)
     | Inr uss \<Rightarrow>
         let old = altstack (signals t);
             t = (case uss of Some s \<Rightarrow> set_sigaltstack s t | None \<Rightarrow> t)
         in (case uoss old of Inl e \<Rightarrow> Inl e | Inr _ \<Rightarrow> Inr 0, t))"

definition do_rt_sigreturn :: "'task thread \<Rightarrow> machine \<Rightarrow> ((errno + int) \<times> 'task thread) run" where
  "do_rt_sigreturn t S = do {
     (r, t) \<leftarrow> restore_signal_frame t S;
     Some (case r of Inl e \<Rightarrow> (Inl e, t) | Inr _ \<Rightarrow> (Inr 0, t\<lparr>registers_replaced := True\<rparr>))
   }"

text \<open>Waiting for a signal: the system call up to its suspension, the polls of its future, and its drop.\<close>

datatype sigtimedwait_start = WaitDone "errno + int" | WaitFor "64 word"

definition do_rt_sigtimedwait ::
    "signal_consts \<Rightarrow> errno + 64 word \<Rightarrow> bool \<Rightarrow> errno + (int \<times> int) option \<Rightarrow> nat \<Rightarrow> 'task thread
      \<Rightarrow> (sigtimedwait_start \<times> 'task thread) run" where
  "do_rt_sigtimedwait C wait_set info_nonzero timeout sigsetsize t =
     (if sigsetsize \<noteq> SIGSET_SIZE \<or> info_nonzero then Some (WaitDone (Inl EINVAL), t)
      else case wait_set of
        Inl e \<Rightarrow> Some (WaitDone (Inl e), t)
      | Inr s \<Rightarrow> do {
          kill \<leftarrow> shl 1 (signo C SIGKILL);
          stop \<leftarrow> shl 1 (signo C SIGSTOP);
          let wait_mask = s AND NOT kill AND NOT stop;
          case timeout of
            Inl e \<Rightarrow> Some (WaitDone (Inl e), t)
          | Inr None \<Rightarrow> Some (WaitFor wait_mask, t)
          | Inr (Some (sec, nsec)) \<Rightarrow>
              if sec = 0 \<and> nsec = 0 then (case first_pending_in_set wait_mask t of
                  Some sig \<Rightarrow> do { t \<leftarrow> clear_pending sig t; Some (WaitDone (Inr (int sig)), t) }
                | None \<Rightarrow> Some (WaitDone (Inl EAGAIN), t))
              else Some (WaitDone (Inl EINVAL), t)
        })"

definition sigtimedwait_poll :: "64 word \<Rightarrow> 'task thread \<Rightarrow> (int poll \<times> 'task thread) run" where
  "sigtimedwait_poll wait_mask t = (case first_pending_in_set wait_mask t of
       Some sig \<Rightarrow> do { t \<leftarrow> clear_pending sig t; Some (Ready (int sig), t) }
     | None \<Rightarrow> Some (Pending, t\<lparr>sigtimedwait_mask := Some wait_mask\<rparr>))"

definition sigtimedwait_drop :: "'task thread \<Rightarrow> 'task thread" where
  "sigtimedwait_drop t = t\<lparr>sigtimedwait_mask := None\<rparr>"

section \<open>The threads of a running system\<close>

inductive thread_reach :: "signal_consts \<Rightarrow> 'task thread \<Rightarrow> bool" for C where
  New: "length (gp_registers f) = 32 \<Longrightarrow> length (fp_registers f) = 32 \<Longrightarrow>
    thread_reach C (thread_new C i name f pc k p parent)"
| SetRegisters: "thread_reach C t \<Longrightarrow> length (gp_registers f) = 32 \<Longrightarrow> length (fp_registers f) = 32 \<Longrightarrow>
    thread_reach C (t\<lparr>register_state := f, program_counter := pc\<rparr>)"
| Schedule: "thread_reach C t \<Longrightarrow> thread_reach C (t\<lparr>state := st, wakeup_pending := w, syscall_task := task\<rparr>)"
| Raise: "thread_reach C t \<Longrightarrow> raise_signal C sig t = Some t' \<Longrightarrow> thread_reach C t'"
| Deliver: "thread_reach C t \<Longrightarrow> deliver_signal C t S = Some (r, t', S') \<Longrightarrow> thread_reach C t'"
| Sigaction: "thread_reach C t \<Longrightarrow> do_rt_sigaction C sig act oact n t = Some (r, t') \<Longrightarrow> thread_reach C t'"
| Sigprocmask: "thread_reach C t \<Longrightarrow> do_rt_sigprocmask M how new old n t = (r, t') \<Longrightarrow> thread_reach C t'"
| Sigaltstack: "thread_reach C t \<Longrightarrow> do_sigaltstack uss uoss t = (r, t') \<Longrightarrow> thread_reach C t'"
| Sigreturn: "thread_reach C t \<Longrightarrow> do_rt_sigreturn t S = Some (r, t') \<Longrightarrow> thread_reach C t'"
| Sigtimedwait: "thread_reach C t \<Longrightarrow> do_rt_sigtimedwait C ws info timeout n t = Some (st, t') \<Longrightarrow> thread_reach C t'"
| SigtimedwaitPoll: "thread_reach C t \<Longrightarrow> sigtimedwait_poll m t = Some (p, t') \<Longrightarrow> thread_reach C t'"
| SigtimedwaitDrop: "thread_reach C t \<Longrightarrow> thread_reach C (sigtimedwait_drop t)"
| Suspend: "thread_reach C t \<Longrightarrow> set_syscall_task_and_suspend task t = Some (q, t') \<Longrightarrow> thread_reach C t'"
| WakeUp: "thread_reach C t \<Longrightarrow> wake_up t = (q, t') \<Longrightarrow> thread_reach C t'"

lemma set_sigaction_wf: "thread_wf C t \<Longrightarrow> set_sigaction C sig a t = Some (r, t') \<Longrightarrow> thread_wf C t'"
  by (auto simp: set_sigaction_def run_simps thread_wf_def split: if_splits)

lemma do_rt_sigaction_wf:
  assumes "thread_wf C t" "do_rt_sigaction C sig act oact n t = Some (r, t')" shows "thread_wf C t'"
  using assms set_sigaction_wf[OF assms(1)]
  by (auto simp: do_rt_sigaction_def run_simps sum.case_eq_if split: if_splits option.splits)

lemma do_rt_sigprocmask_wf:
  assumes "thread_wf C t" "do_rt_sigprocmask M how new old n t = (r, t')" shows "thread_wf C t'"
  using assms
  by (auto simp: do_rt_sigprocmask_def Let_def set_sigset_def thread_wf_def sum.case_eq_if split: if_splits option.splits)

lemma do_rt_sigreturn_wf:
  assumes "thread_wf C t" "do_rt_sigreturn t S = Some (r, t')" shows "thread_wf C t'"
  using assms
  by (auto simp: do_rt_sigreturn_def restore_signal_frame_def run_simps Let_def sum.case_eq_if thread_wf_def set_sigmask_raw_def
      frame_read_from_bytes_def split: if_splits)

lemma do_rt_sigtimedwait_wf:
  assumes "thread_wf C t" "do_rt_sigtimedwait C ws info timeout n t = Some (st, t')" shows "thread_wf C t'"
  using assms clear_pending_wf[OF assms(1)]
  by (auto simp: do_rt_sigtimedwait_def Let_def split: if_splits option.splits sum.splits bind_splits)

lemma sigtimedwait_poll_wf:
  assumes "thread_wf C t" "sigtimedwait_poll m t = Some (p, t')" shows "thread_wf C t'"
proof (cases "first_pending_in_set m t")
  case None
  then show ?thesis using assms by (auto simp: sigtimedwait_poll_def thread_wf_def)
next
  case (Some sig)
  then have "clear_pending sig t = Some t'" using assms(2) by (auto simp: sigtimedwait_poll_def bind_eq_Some_conv)
  then show ?thesis by (rule clear_pending_wf[OF assms(1)])
qed



end
