(* ===== verification/Spec2Isabelle.thy ===== *)
theory Spec2Isabelle
  imports Heap PageTables Pipe Tty FdTable Waiting EhFrame Cpio NetStack Signals
begin

text \<open>
  A verification development of Solaya, a RISC-V kernel in Rust that runs Linux programs.

  \<^bold>\<open>The program.\<close>  The kernel is the crate \<^verbatim>\<open>crates/kernel\<close> with its support crates: \<^verbatim>\<open>mm\<close> (page
  allocator and heap), \<^verbatim>\<open>hal\<close> (page table entries, traps, user pointers), \<^verbatim>\<open>klib\<close> (utilities and a byte
  parser), \<^verbatim>\<open>drivers\<close> (devices), \<^verbatim>\<open>abi\<close> and \<^verbatim>\<open>headers\<close> (constants of the Linux interface).  The page
  allocator hands pages to the heap, the heap to everything else; a process owns page tables, a list of
  mappings and a table of file descriptors; system calls are futures that park on queues of wakers
  (pipes, terminal, timers, futexes, sockets); received frames go through the packet parsers to sockets
  and to one task per TCP connection.

  \<^bold>\<open>Conventions.\<close>  \<^verbatim>\<open>Prelude\<close> fixes them: a panic, an overflow (overflow checks are on), an index out of
  range and a loop that does not return are \<^const>\<open>None\<close> of \<^verbatim>\<open>'a run\<close>; \<^verbatim>\<open>usize\<close> is a natural number with
  checked arithmetic, and a value whose bits matter is a machine word; \<^verbatim>\<open>Result\<close> is a sum type, and
  \<^verbatim>\<open>Results\<close> has the question mark and the rules for code that cannot panic.  Constants from generated
  headers, the linked image, clocks and the addresses the heap answers with are arguments.  Futures are
  functions from their state to \<^const>\<open>Ready\<close> or \<^const>\<open>Pending\<close>, tasks are state machines over their polls, and
  interleavings are inductive step relations.

  \<^bold>\<open>Memory.\<close>  \<^verbatim>\<open>Klib\<close>: alignment and bit fields (\<^verbatim>\<open>klib/src/util.rs\<close>).  \<^verbatim>\<open>PageAllocator\<close>
  (\<^verbatim>\<open>mm/src/page_allocator.rs\<close>): allocation takes the lowest free run, zeroes it and is undone by
  deallocation; initialisation protects every reserved page.  \<^verbatim>\<open>Heap\<close> (\<^verbatim>\<open>mm/src/heap.rs\<close>): regions handed
  out are disjoint, aligned and large enough, over the interface locale \<^verbatim>\<open>page_provider\<close>, which the page
  allocator instantiates.  \<^verbatim>\<open>PageTableEntry\<close> and \<^verbatim>\<open>PageTables\<close> (\<^verbatim>\<open>hal/src/memory\<close>,
  \<^verbatim>\<open>memory/page_tables.rs\<close>): mapping and unmapping against the hardware walk of Sv39, and the check of user
  pointers.  \<^verbatim>\<open>AddressSpace\<close> and \<^verbatim>\<open>CopyOnWrite\<close> (\<^verbatim>\<open>processes/process.rs\<close>, \<^verbatim>\<open>brk.rs\<close>, \<^verbatim>\<open>mm_ops.rs\<close>): fork
  with copy-on-write pages refines processes with private memory; \<^verbatim>\<open>mprotect\<close> and kernel writes over a page
  boundary do not.  \<^verbatim>\<open>Threads\<close> and \<^verbatim>\<open>Signals\<close> (\<^verbatim>\<open>processes/thread.rs\<close>, \<^verbatim>\<open>signal.rs\<close>, \<^verbatim>\<open>signal_ops.rs\<close>): a
  thread's state, its pending signals and their delivery, with frames written to the user stack through these
  address spaces; delivery ends, threads keep the sizes of their arrays, and returning from a handler restores
  the thread.

  \<^bold>\<open>Input, output and waiting.\<close>  \<^verbatim>\<open>WaitQueue\<close> and \<^verbatim>\<open>ByteStream\<close> are interface locales; \<^verbatim>\<open>Pipe\<close>
  (\<^verbatim>\<open>io/pipe.rs\<close>), \<^verbatim>\<open>Tty\<close> (\<^verbatim>\<open>io/tty_device.rs\<close>) and \<^verbatim>\<open>Waiting\<close> (\<^verbatim>\<open>timer.rs\<close>, \<^verbatim>\<open>futex.rs\<close>, \<^verbatim>\<open>time_ops.rs\<close>)
  instantiate them: nothing is lost or reordered, wake-ups reach the parked, and the cases in which they do
  not.  \<^verbatim>\<open>BTreeMap\<close> and \<^verbatim>\<open>FdTable\<close> (\<^verbatim>\<open>fd_table.rs\<close>, \<^verbatim>\<open>io_ops.rs\<close>): lowest descriptor, reference counts,
  close-on-exec.

  \<^bold>\<open>Formats.\<close>  \<^verbatim>\<open>Parser\<close> (\<^verbatim>\<open>klib/src/parser.rs\<close>), \<^verbatim>\<open>Leb128\<close> and \<^verbatim>\<open>EhFrame\<close> (\<^verbatim>\<open>debugging\<close>), \<^verbatim>\<open>Cpio\<close>
  (\<^verbatim>\<open>initramfs\<close>): parsers invert the encodings and do not panic on other input.

  \<^bold>\<open>Network.\<close>  \<^verbatim>\<open>Checksum\<close>, \<^verbatim>\<open>Packets\<close>, \<^verbatim>\<open>Tcp\<close>, \<^verbatim>\<open>NetStack\<close> (\<^verbatim>\<open>net\<close>): the checksum is that of RFC 1071, a
  packet built by one host is delivered by the other, a TCP connection delivers a prefix of its peer's
  stream under loss and reordering.

  \<^bold>\<open>Bounds and fuel.\<close>  Recursion over data is structural or has a termination proof (copy-on-write faults by
  the pages still shared, signal delivery by the signals still pending); the only partial
  function is the walk over the heap's free list, which ends on every list of the invariant.  Virtual
  addresses are taken in the 39 bits that the page tables translate and physical ones below 2 to the 56, as
  an entry can hold.

  \<^bold>\<open>Not modelled.\<close>  Device drivers, the interrupt controller, CSR access, SBI calls and assembly: their
  behaviour is that of hardware outside the sources.  The process table and the scheduler, whose queues are
  shared by processors under locks; file systems, as trees of shared trait objects; program loading and the
  device tree, which reinterpret memory in place.  Host tools, user programs and tests.  Printing and
  tracing.
\<close>

end
